(* ===== verification/Codex_Prelude.thy ===== *)
theory Codex_Prelude
  imports Main "HOL-Library.Sublist"
begin

text \<open>
  The prelude of the development: Rust's \<open>Result\<close>, saturating \<open>usize\<close>
  arithmetic, and the part of \<open>str\<close> the modelled code uses.

  A Rust \<open>String\<close> is its UTF-8 encoding, one \<^typ>\<open>char\<close> of HOL per byte, so
  \<open>len\<close> is \<^const>\<open>length\<close> and the literals of the source are HOL literals.
  \<open>char::is_whitespace\<close> is Unicode's White\_Space, written as the list of its
  encodings (\<open>unicode_ws\<close>).
\<close>

named_theorems rust_str
  \<open>characterisations of the string operations\<close>

section \<open>Results\<close>

text \<open>\<open>Result<T, E>\<close> is a sum: \<^const>\<open>Inl\<close> is \<open>Err\<close>, \<^const>\<open>Inr\<close> is \<open>Ok\<close>.\<close>

type_synonym ('e, 'a) result = "'e + 'a"

abbreviation Err :: "'e \<Rightarrow> ('e, 'a) result" where
  "Err \<equiv> Inl"

abbreviation Ok :: "'a \<Rightarrow> ('e, 'a) result" where
  "Ok \<equiv> Inr"

text \<open>The operator \<open>?\<close>: return the error, or go on with the value.\<close>

definition bindR :: "('e, 'a) result \<Rightarrow> ('a \<Rightarrow> ('e, 'b) result) \<Rightarrow> ('e, 'b) result" where
  "bindR r f = (case r of Inl e \<Rightarrow> Inl e | Inr a \<Rightarrow> f a)"

lemma bindR_simps [simp]:
  "bindR (Inl e) f = Inl e"
  "bindR (Inr a) f = f a"
  by (simp_all add: bindR_def)

lemma bindR_eq_Inr: "bindR r f = Inr b \<longleftrightarrow> (\<exists>a. r = Inr a \<and> f a = Inr b)"
  by (cases r) simp_all

lemma bindR_eq_Inl: "bindR r f = Inl e \<longleftrightarrow> r = Inl e \<or> (\<exists>a. r = Inr a \<and> f a = Inl e)"
  by (cases r) simp_all

text \<open>\<open>Option::ok_or\<close>.\<close>

definition ok_or :: "'e \<Rightarrow> 'a option \<Rightarrow> ('e, 'a) result" where
  "ok_or e x = (case x of None \<Rightarrow> Inl e | Some a \<Rightarrow> Inr a)"

lemma ok_or_simps [simp]:
  "ok_or e None = Inl e"
  "ok_or e (Some a) = Inr a"
  by (simp_all add: ok_or_def)

lemma ok_or_eq_Inr [simp]: "ok_or e x = Inr a \<longleftrightarrow> x = Some a"
  by (cases x) simp_all

text \<open>\<open>iter().map(f).collect::<Result<Vec<_>, _>>()\<close>: the first error stops it.\<close>

fun collectR :: "('a \<Rightarrow> ('e, 'b) result) \<Rightarrow> 'a list \<Rightarrow> ('e, 'b list) result" where
  "collectR f [] = Inr []"
| "collectR f (x # xs) = bindR (f x) (\<lambda>y. bindR (collectR f xs) (\<lambda>ys. Inr (y # ys)))"

lemma collectR_eq_Inr:
  "collectR f xs = Inr ys \<longleftrightarrow> list_all2 (\<lambda>x y. f x = Inr y) xs ys"
  by (induction xs arbitrary: ys) (auto simp: bindR_eq_Inr list_all2_Cons1)

section \<open>Saturating machine arithmetic\<close>

text \<open>
  \<open>usize\<close> is 64 bits wide. It is modelled by \<^typ>\<open>nat\<close> with the saturation written
  out; \<open>saturating_sub\<close> is the truncated subtraction of \<^typ>\<open>nat\<close>.
\<close>

definition usize_max :: nat where
  "usize_max = 2 ^ 64 - 1"

definition saturating_add :: "nat \<Rightarrow> nat \<Rightarrow> nat" where
  "saturating_add a b = min (a + b) usize_max"

lemma saturating_add_le: "saturating_add a b \<le> usize_max"
  by (simp add: saturating_add_def)

lemma saturating_add_exact: "a + b \<le> usize_max \<Longrightarrow> saturating_add a b = a + b"
  by (simp add: saturating_add_def)

lemma saturating_add_assoc:
  "saturating_add (saturating_add a b) c = saturating_add a (b + c)"
  by (simp add: saturating_add_def)

lemma saturating_add_0 [simp]: "a \<le> usize_max \<Longrightarrow> saturating_add a 0 = a"
  by (simp add: saturating_add_def)

section \<open>Lists\<close>

text \<open>\<open>find_map\<close> of an iterator.\<close>

fun find_map :: "('a \<Rightarrow> 'b option) \<Rightarrow> 'a list \<Rightarrow> 'b option" where
  "find_map f [] = None"
| "find_map f (x # xs) = (case f x of Some y \<Rightarrow> Some y | None \<Rightarrow> find_map f xs)"

lemma find_map_None_iff: "find_map f xs = None \<longleftrightarrow> (\<forall>x \<in> set xs. f x = None)"
  by (induction xs) (auto split: option.splits)

lemma find_map_SomeD: "find_map f xs = Some y \<Longrightarrow> \<exists>x \<in> set xs. f x = Some y"
  by (induction xs) (auto split: option.splits)

lemma find_map_cong [fundef_cong]:
  "xs = ys \<Longrightarrow> (\<And>x. x \<in> set ys \<Longrightarrow> f x = g x) \<Longrightarrow> find_map f xs = find_map g ys"
  by (induction ys arbitrary: xs) (auto split: option.splits)

text \<open>\<open>last()\<close> and \<open>first()\<close> of a slice.\<close>

lemma find_SomeD: "find P xs = Some x \<Longrightarrow> x \<in> set xs \<and> P x"
  by (induction xs) (auto split: if_splits)

definition last_opt :: "'a list \<Rightarrow> 'a option" where
  "last_opt xs = (if xs = [] then None else Some (last xs))"

lemma last_opt_simps [simp]:
  "last_opt [] = None"
  "last_opt (xs @ [x]) = Some x"
  "last_opt [x] = Some x"
  "last_opt (x # y # ys) = last_opt (y # ys)"
  by (simp_all add: last_opt_def)

lemma last_opt_eq_Some: "last_opt xs = Some x \<longleftrightarrow> (\<exists>ys. xs = ys @ [x])"
  by (auto simp: last_opt_def intro: exI [of _ "butlast xs"])

lemma last_opt_eq_None [simp]: "last_opt xs = None \<longleftrightarrow> xs = []"
  by (simp add: last_opt_def)

text \<open>\<open>last_mut()\<close>: the last element replaced.\<close>

definition map_last :: "('a \<Rightarrow> 'a) \<Rightarrow> 'a list \<Rightarrow> 'a list" where
  "map_last f xs = (if xs = [] then [] else butlast xs @ [f (last xs)])"

lemma map_last_simps [simp]:
  "map_last f [] = []"
  "map_last f (xs @ [x]) = xs @ [f x]"
  "map_last f [x] = [f x]"
  "map_last f (x # y # ys) = x # map_last f (y # ys)"
  by (simp_all add: map_last_def)

lemma length_map_last [simp]: "length (map_last f xs) = length xs"
  by (simp add: map_last_def)

lemma map_last_eq_Nil [simp]: "map_last f xs = [] \<longleftrightarrow> xs = []"
  by (simp add: map_last_def)

lemma set_map_last: "set (map_last f xs) \<subseteq> set xs \<union> f ` set xs"
  by (cases xs rule: rev_cases) auto

section \<open>Strings\<close>

abbreviation starts_with :: "string \<Rightarrow> string \<Rightarrow> bool" where
  "starts_with s p \<equiv> prefix p s"

abbreviation ends_with :: "string \<Rightarrow> string \<Rightarrow> bool" where
  "ends_with s p \<equiv> suffix p s"

abbreviation contains_str :: "string \<Rightarrow> string \<Rightarrow> bool" where
  "contains_str s p \<equiv> sublist p s"

abbreviation nl :: char where
  "nl \<equiv> CHR 0x0A"

fun strip_prefix :: "string \<Rightarrow> string \<Rightarrow> string option" where
  "strip_prefix [] s = Some s"
| "strip_prefix (p # ps) [] = None"
| "strip_prefix (p # ps) (c # cs) = (if p = c then strip_prefix ps cs else None)"

lemma strip_prefix_eq_Some [rust_str]: "strip_prefix p s = Some r \<longleftrightarrow> s = p @ r"
  by (induction p s rule: strip_prefix.induct) auto

lemma strip_prefix_eq_None [rust_str]: "strip_prefix p s = None \<longleftrightarrow> \<not> starts_with s p"
  by (induction p s rule: strip_prefix.induct) auto

lemma strip_prefix_append [simp]: "strip_prefix p (p @ r) = Some r"
  by (simp add: strip_prefix_eq_Some)

definition strip_suffix :: "string \<Rightarrow> string \<Rightarrow> string option" where
  "strip_suffix p s = map_option rev (strip_prefix (rev p) (rev s))"

lemma strip_suffix_eq_Some [rust_str]: "strip_suffix p s = Some r \<longleftrightarrow> s = r @ p"
  by (auto simp: strip_suffix_def strip_prefix_eq_Some rev_swap)

text \<open>\<open>split_once(c)\<close>, \<open>split(c)\<close> and \<open>find(pat)\<close>.\<close>

fun split_once :: "char \<Rightarrow> string \<Rightarrow> (string \<times> string) option" where
  "split_once d [] = None"
| "split_once d (c # cs) =
     (if c = d then Some ([], cs)
      else map_option (\<lambda>(a, b). (c # a, b)) (split_once d cs))"

lemma split_once_eq_Some [rust_str]:
  "split_once d s = Some (a, b) \<longleftrightarrow> s = a @ d # b \<and> d \<notin> set a"
proof (induction s arbitrary: a)
  case (Cons c cs)
  show ?case
    by (cases a) (auto simp: Cons.IH)
qed simp

lemma split_once_eq_None [rust_str]: "split_once d s = None \<longleftrightarrow> d \<notin> set s"
  by (induction d s rule: split_once.induct) auto

fun split_char :: "char \<Rightarrow> string \<Rightarrow> string list" where
  "split_char d [] = [[]]"
| "split_char d (c # cs) =
     (if c = d then [] # split_char d cs
      else (case split_char d cs of [] \<Rightarrow> [[c]] | w # ws \<Rightarrow> (c # w) # ws))"

lemma split_char_not_Nil [simp]: "split_char d s \<noteq> []"
  by (induction d s rule: split_char.induct) (auto split: list.splits)

fun join :: "string \<Rightarrow> string list \<Rightarrow> string" where
  "join d [] = []"
| "join d [x] = x"
| "join d (x # y # ys) = x @ d @ join d (y # ys)"

lemma join_Cons: "join d (x # xs) = (if xs = [] then x else x @ d @ join d xs)"
  by (cases xs) simp_all

lemma join_append:
  "xs \<noteq> [] \<Longrightarrow> ys \<noteq> [] \<Longrightarrow> join d (xs @ ys) = join d xs @ d @ join d ys"
  by (induction xs) (auto simp: join_Cons)

lemma join_split_char: "join [d] (split_char d s) = s"
proof (induction d s rule: split_char.induct)
  case (2 d c cs)
  then show ?case
    by (cases "split_char d cs") (auto simp: join_Cons)
qed simp

lemma split_char_no_delim: "w \<in> set (split_char d s) \<Longrightarrow> d \<notin> set w"
proof (induction s arbitrary: w)
  case (Cons c cs)
  show ?case
  proof (cases "split_char d cs")
    case (Cons v vs)
    with Cons.IH [of v] Cons.IH [of w] Cons.prems show ?thesis
      by (auto split: if_splits)
  qed simp
qed simp

lemma split_char_append:
  "d \<notin> set w \<Longrightarrow> split_char d (w @ d # s) = w # split_char d s"
  by (induction w) auto

lemma split_char_id: "d \<notin> set w \<Longrightarrow> split_char d w = [w]"
  by (induction w) auto

lemma split_char_join:
  "ws \<noteq> [] \<Longrightarrow> (\<And>w. w \<in> set ws \<Longrightarrow> d \<notin> set w) \<Longrightarrow> split_char d (join [d] ws) = ws"
proof (induction ws)
  case (Cons w ws)
  then show ?case
    by (cases ws) (auto simp: split_char_append split_char_id)
qed simp

fun find_str :: "string \<Rightarrow> string \<Rightarrow> nat option" where
  "find_str pat [] = (if pat = [] then Some 0 else None)"
| "find_str pat (c # cs) =
     (if starts_with (c # cs) pat then Some 0 else map_option Suc (find_str pat cs))"

lemma find_str_SomeD:
  "find_str pat s = Some i \<Longrightarrow> i + length pat \<le> length s \<and> starts_with (drop i s) pat"
proof (induction s arbitrary: i)
  case (Cons c cs)
  show ?case
  proof (cases "starts_with (c # cs) pat")
    case True
    with Cons.prems show ?thesis
      using prefix_length_le [OF True] by simp
  next
    case False
    with Cons.prems obtain j where "find_str pat cs = Some j" and "i = Suc j"
      by auto
    with Cons.IH show ?thesis by fastforce
  qed
qed (auto split: if_splits)

lemma find_str_None_iff: "find_str pat s = None \<longleftrightarrow> \<not> contains_str s pat"
  by (induction s) (auto simp: sublist_Cons_right)

lemma find_str_least: "find_str pat s = Some i \<Longrightarrow> j < i \<Longrightarrow> \<not> starts_with (drop j s) pat"
proof (induction s arbitrary: i j)
  case (Cons c cs)
  then obtain k where k: "find_str pat cs = Some k" "i = Suc k" "\<not> starts_with (c # cs) pat"
    by (auto split: if_splits)
  show ?case
    using k Cons by (cases j) auto
qed (auto split: if_splits)

lemma find_str_split:
  "find_str pat s = Some i \<Longrightarrow> s = take i s @ pat @ drop (i + length pat) s"
  by (drule find_str_SomeD) (metis append_take_drop_id drop_drop add.commute append_eq_conv_conj prefix_def)

subsection \<open>Whitespace and trimming\<close>

text \<open>The UTF-8 encodings of the characters with the property White\_Space.\<close>

definition unicode_ws :: "string list" where
  "unicode_ws =
     [[CHR 0x20], [CHR 0x09], [CHR 0x0A], [CHR 0x0B], [CHR 0x0C], [CHR 0x0D],
      [CHR 0xC2, CHR 0x85], [CHR 0xC2, CHR 0xA0],
      [CHR 0xE1, CHR 0x9A, CHR 0x80],
      [CHR 0xE2, CHR 0x80, CHR 0x80], [CHR 0xE2, CHR 0x80, CHR 0x81],
      [CHR 0xE2, CHR 0x80, CHR 0x82], [CHR 0xE2, CHR 0x80, CHR 0x83],
      [CHR 0xE2, CHR 0x80, CHR 0x84], [CHR 0xE2, CHR 0x80, CHR 0x85],
      [CHR 0xE2, CHR 0x80, CHR 0x86], [CHR 0xE2, CHR 0x80, CHR 0x87],
      [CHR 0xE2, CHR 0x80, CHR 0x88], [CHR 0xE2, CHR 0x80, CHR 0x89],
      [CHR 0xE2, CHR 0x80, CHR 0x8A], [CHR 0xE2, CHR 0x80, CHR 0xA8],
      [CHR 0xE2, CHR 0x80, CHR 0xA9], [CHR 0xE2, CHR 0x80, CHR 0xAF],
      [CHR 0xE2, CHR 0x81, CHR 0x9F], [CHR 0xE3, CHR 0x80, CHR 0x80]]"

text \<open>Remove one of the sequences from the front, and all of them.\<close>

definition strip_one :: "string list \<Rightarrow> string \<Rightarrow> string option" where
  "strip_one ws s = find_map (\<lambda>w. if w = [] then None else strip_prefix w s) ws"

lemma strip_one_SomeD:
  "strip_one ws s = Some r \<Longrightarrow> \<exists>w \<in> set ws. w \<noteq> [] \<and> s = w @ r"
  by (auto simp: strip_one_def strip_prefix_eq_Some dest!: find_map_SomeD split: if_splits)

lemma strip_one_length: "strip_one ws s = Some r \<Longrightarrow> length r < length s"
  by (auto dest!: strip_one_SomeD)

function strip_all :: "string list \<Rightarrow> string \<Rightarrow> string" where
  "strip_all ws s = (case strip_one ws s of None \<Rightarrow> s | Some r \<Rightarrow> strip_all ws r)"
  by pat_completeness auto
termination
  by (relation "measure (\<lambda>(ws, s). length s)") (auto dest: strip_one_length)

declare strip_all.simps [simp del]

lemma strip_all_fixed: "strip_one ws (strip_all ws s) = None"
proof (induction ws s rule: strip_all.induct)
  case (1 ws s)
  then show ?case
    by (subst strip_all.simps) (simp split: option.split)
qed

lemma strip_all_suffix: "suffix (strip_all ws s) s"
proof (induction ws s rule: strip_all.induct)
  case (1 ws s)
  show ?case
  proof (cases "strip_one ws s")
    case None
    then show ?thesis by (simp add: strip_all.simps [of ws s])
  next
    case (Some r)
    then obtain w where "s = w @ r" by (auto dest: strip_one_SomeD)
    moreover have "strip_all ws s = strip_all ws r"
      using Some by (simp add: strip_all.simps [of ws s])
    ultimately show ?thesis
      using 1 Some by (simp add: suffix_appendI)
  qed
qed

lemma strip_all_idem [simp]: "strip_all ws (strip_all ws s) = strip_all ws s"
  by (subst strip_all.simps) (simp add: strip_all_fixed)

definition trim_start :: "string \<Rightarrow> string" where
  "trim_start s = strip_all unicode_ws s"

definition trim_end :: "string \<Rightarrow> string" where
  "trim_end s = rev (strip_all (map rev unicode_ws) (rev s))"

definition trim :: "string \<Rightarrow> string" where
  "trim s = trim_end (trim_start s)"

lemma trim_start_idem [simp]: "trim_start (trim_start s) = trim_start s"
  by (simp add: trim_start_def)

lemma trim_end_idem [simp]: "trim_end (trim_end s) = trim_end s"
  by (simp add: trim_end_def)

lemma trim_start_suffix: "suffix (trim_start s) s"
  by (simp add: trim_start_def strip_all_suffix)

lemma trim_end_prefix: "prefix (trim_end s) s"
  using strip_all_suffix [of "map rev unicode_ws" "rev s"]
  by (simp add: trim_end_def suffix_to_prefix)

lemma trim_sublist: "sublist (trim s) s"
  unfolding trim_def
  by (meson prefix_imp_sublist suffix_imp_sublist sublist_order.order.trans
      trim_end_prefix trim_start_suffix)

lemma length_trim_le: "length (trim s) \<le> length s"
  using trim_sublist by (rule sublist_length_le)

text \<open>What \<open>trim\<close> leaves alone.\<close>

lemma unicode_ws_bytes:
  "w \<in> set unicode_ws \<Longrightarrow> w \<noteq> [] \<and> (length w = 1 \<or> (\<forall>c \<in> set w. 128 \<le> (of_char c :: nat)))"
  by (auto simp: unicode_ws_def)

lemma strip_one_eq_None:
  "strip_one ws s = None \<longleftrightarrow> (\<forall>w \<in> set ws. w = [] \<or> \<not> prefix w s)"
  by (auto simp: strip_one_def find_map_None_iff strip_prefix_eq_None)

lemma strip_all_eq_self: "strip_all ws s = s \<longleftrightarrow> strip_one ws s = None"
  by (metis option.simps(4) strip_all.simps strip_all_fixed)

lemma trim_start_eq_self: "trim_start s = s \<longleftrightarrow> (\<forall>w \<in> set unicode_ws. \<not> prefix w s)"
  using unicode_ws_bytes by (auto simp: trim_start_def strip_all_eq_self strip_one_eq_None)

lemma trim_end_eq_self: "trim_end s = s \<longleftrightarrow> (\<forall>w \<in> set unicode_ws. \<not> suffix w s)"
  using unicode_ws_bytes
  by (auto simp: trim_end_def rev_swap strip_all_eq_self strip_one_eq_None suffix_to_prefix)

lemma trim_start_ascii:
  assumes "(of_char c :: nat) < 128" and "[c] \<notin> set unicode_ws"
  shows "trim_start (c # s) = c # s"
  unfolding trim_start_eq_self
proof (intro ballI notI)
  fix w assume w: "w \<in> set unicode_ws" "prefix w (c # s)"
  then obtain d v where "w = d # v"
    using unicode_ws_bytes [OF w(1)] by (meson list.exhaust)
  with w(2) have "w = c # v" by simp
  then have "w = [c]"
    using unicode_ws_bytes [OF w(1)] assms(1) by auto
  with assms(2) w(1) show False by simp
qed

lemma trim_end_append:
  assumes "trim_end p = p" and "p \<noteq> []" and "(of_char (last m) :: nat) < 128"
  shows "trim_end (m @ p) = m @ p"
  unfolding trim_end_eq_self
proof (intro ballI notI)
  fix w assume w: "w \<in> set unicode_ws" "suffix w (m @ p)"
  with assms(1) have "\<not> suffix w p" by (auto simp: trim_end_eq_self)
  with w(2) obtain k where k: "w = k @ p" "suffix k m"
    by (auto simp: suffix_append)
  have "k \<noteq> []" using k w \<open>\<not> suffix w p\<close> by auto
  then have "last m \<in> set w" using k by (metis UnI1 last_in_set last_appendR set_append suffix_def)
  moreover have "length w \<noteq> 1"
    using k(1) length_greater_0_conv [of k] length_greater_0_conv [of p] \<open>k \<noteq> []\<close> assms(2)
    by (simp del: length_greater_0_conv)
  ultimately show False
    using unicode_ws_bytes [OF w(1)] assms(3) by fastforce
qed

lemma trim_end_Cons_cases: "trim_end (c # s) = [] \<or> (\<exists>t. trim_end (c # s) = c # t)"
  using trim_end_prefix [of "c # s"] by (cases "trim_end (c # s)") auto

lemma trim_Nil [simp]: "trim [] = []" "trim_end [] = []" "trim_start [] = []"
  using trim_end_prefix [of "[]"] trim_start_suffix [of "[]"] by (simp_all add: trim_def)

text \<open>\<open>chars().any(char::is_whitespace)\<close>.\<close>

definition has_whitespace :: "string \<Rightarrow> bool" where
  "has_whitespace s = list_ex (contains_str s) unicode_ws"

subsection \<open>Lines\<close>

text \<open>\<open>split_inclusive('\n')\<close>: every piece keeps its newline.\<close>

fun split_inclusive :: "string \<Rightarrow> string list" where
  "split_inclusive [] = []"
| "split_inclusive (c # cs) =
     (if c = nl then [c] # split_inclusive cs
      else (case split_inclusive cs of [] \<Rightarrow> [[c]] | w # ws \<Rightarrow> (c # w) # ws))"

lemma concat_split_inclusive [simp]: "concat (split_inclusive s) = s"
  by (induction s rule: split_inclusive.induct) (auto split: list.splits)

text \<open>\<open>lines()\<close>: the pieces without their line feed, and without the carriage return before it.\<close>

definition chop_line :: "string \<Rightarrow> string" where
  "chop_line l =
     (case strip_suffix [nl] l of
        None \<Rightarrow> l
      | Some l' \<Rightarrow> (case strip_suffix [CHR 0x0D] l' of None \<Rightarrow> l' | Some l'' \<Rightarrow> l''))"

definition lines :: "string \<Rightarrow> string list" where
  "lines s = map chop_line (split_inclusive s)"

lemma split_inclusive_append_nl:
  "split_inclusive (s @ [nl] @ t) = split_inclusive (s @ [nl]) @ split_inclusive t"
proof (induction s)
  case (Cons c s)
  have "split_inclusive (s @ [nl]) \<noteq> []" by (cases s) (auto split: list.splits)
  with Cons show ?case by (auto split: list.splits)
qed simp

lemma split_inclusive_line: "nl \<notin> set l \<Longrightarrow> split_inclusive (l @ [nl]) = [l @ [nl]]"
  by (induction l) auto

lemma chop_line_nl: "\<not> ends_with l [CHR 0x0D] \<Longrightarrow> chop_line (l @ [nl]) = l"
proof -
  assume "\<not> ends_with l [CHR 0x0D]"
  then have "strip_suffix [CHR 0x0D] l = None"
    by (cases "strip_suffix [CHR 0x0D] l") (auto simp: strip_suffix_eq_Some suffix_def)
  moreover have "strip_suffix [nl] (l @ [nl]) = Some l" by (simp add: strip_suffix_eq_Some)
  ultimately show ?thesis by (simp add: chop_line_def)
qed

lemma lines_snoc:
  assumes "s = [] \<or> ends_with s [nl]" and "nl \<notin> set l" and "\<not> ends_with l [CHR 0x0D]"
  shows "lines (s @ l @ [nl]) = lines s @ [l]"
proof (cases "s = []")
  case True
  with assms show ?thesis by (simp add: lines_def split_inclusive_line chop_line_nl)
next
  case False
  with assms(1) obtain s0 where "s = s0 @ [nl]" by (auto simp: suffix_def)
  then show ?thesis
    using split_inclusive_append_nl [of s0 "l @ [nl]"] assms(2,3)
    by (simp add: lines_def split_inclusive_line chop_line_nl)
qed

lemma lines_close:
  assumes "s \<noteq> []" and "\<not> ends_with s [nl]" and "\<not> ends_with s [CHR 0x0D]"
  shows "lines (s @ [nl]) = lines s"
proof -
  obtain pre l where s: "s = pre @ l" "nl \<notin> set l" "pre = [] \<or> ends_with pre [nl]"
  proof (cases "nl \<in> set s")
    case True
    then obtain a b where "s = a @ nl # b" "nl \<notin> set b" by (meson split_list_last)
    then show ?thesis using that [of "a @ [nl]" b] by simp
  next
    case False
    then show ?thesis using that [of "[]" s] by simp
  qed
  have l: "l \<noteq> []" using s assms(1,2) by auto
  have "split_inclusive l = [l]"
    using s(2) l by (induction l rule: induct_list012) auto
  moreover have "chop_line l = l"
    using s(2) by (cases "strip_suffix [nl] l") (auto simp: chop_line_def strip_suffix_eq_Some)
  ultimately have ll: "lines l = [l]" by (simp add: lines_def)
  have "lines s = lines pre @ lines l"
  proof (cases "pre = []")
    case False
    with s(3) obtain p0 where "pre = p0 @ [nl]" by (auto simp: suffix_def)
    with s(1) split_inclusive_append_nl [of p0 l] show ?thesis by (simp add: lines_def)
  qed (simp add: s lines_def)
  moreover have "\<not> ends_with l [CHR 0x0D]" using assms(3) s(1) by (auto simp: suffix_def)
  ultimately show ?thesis
    using lines_snoc [OF s(3,2)] s(1) ll by simp
qed

lemma lines_Cons:
  assumes "nl \<notin> set l" and "\<not> ends_with l [CHR 0x0D]"
  shows "lines (l @ nl # s) = l # lines s"
  using assms split_inclusive_append_nl [of l s]
  by (simp add: lines_def split_inclusive_line chop_line_nl)

text \<open>Lines of text: what \<open>lines\<close> gives back when they are joined.\<close>

definition plain_line :: "string \<Rightarrow> bool" where
  "plain_line l = (nl \<notin> set l \<and> \<not> ends_with l [CHR 0x0D])"

lemma lines_empty [simp]: "lines [] = []"
  by (simp add: lines_def)

lemma lines_single:
  assumes "l \<noteq> []" and "plain_line l"
  shows "lines l = [l]"
proof -
  have "lines (l @ [nl]) = lines l"
    using assms set_mono_suffix [of "[nl]" l] by (intro lines_close) (auto simp: plain_line_def)
  with assms lines_snoc [of "[]" l] show ?thesis by (simp add: plain_line_def)
qed

lemma lines_join:
  "ls \<noteq> [] \<Longrightarrow> list_all plain_line ls \<Longrightarrow> last ls \<noteq> [] \<Longrightarrow> lines (join [nl] ls) = ls"
proof (induction ls)
  case (Cons l ls)
  then show ?case
    by (cases ls) (simp_all add: lines_single lines_Cons plain_line_def)
qed simp

subsection \<open>ASCII\<close>

definition ascii_lower :: "char \<Rightarrow> char" where
  "ascii_lower c =
     (let n = of_char c :: nat in if 65 \<le> n \<and> n \<le> 90 then char_of (n + 32) else c)"

definition to_ascii_lowercase :: "string \<Rightarrow> string" where
  "to_ascii_lowercase s = map ascii_lower s"

definition is_ascii_digit :: "char \<Rightarrow> bool" where
  "is_ascii_digit c = (let n = of_char c :: nat in 48 \<le> n \<and> n \<le> 57)"

definition is_ascii_alphanumeric :: "char \<Rightarrow> bool" where
  "is_ascii_alphanumeric c =
     (let n = of_char c :: nat in
        (48 \<le> n \<and> n \<le> 57) \<or> (65 \<le> n \<and> n \<le> 90) \<or> (97 \<le> n \<and> n \<le> 122))"

lemma ascii_lower_idem [simp]: "ascii_lower (ascii_lower c) = ascii_lower c"
  by (auto simp: ascii_lower_def Let_def)

lemma to_ascii_lowercase_idem [simp]:
  "to_ascii_lowercase (to_ascii_lowercase s) = to_ascii_lowercase s"
  by (simp add: to_ascii_lowercase_def)

lemma length_to_ascii_lowercase [simp]: "length (to_ascii_lowercase s) = length s"
  by (simp add: to_ascii_lowercase_def)

section \<open>Printing numbers\<close>

text \<open>\<open>Display\<close> of an unsigned integer.\<close>

fun display_usize :: "nat \<Rightarrow> string" where
  "display_usize n =
     (if n < 10 then [char_of (48 + n)]
      else display_usize (n div 10) @ [char_of (48 + n mod 10)])"

declare display_usize.simps [simp del]

section \<open>Paths\<close>

text \<open>
  \<open>Path::components\<close> on Unix: empty parts and inner dots do not count, a leading slash is the
  root and a leading dot is kept. \<open>file_name\<close> is the last part if it is a name.
\<close>

datatype path_component = RootDir | CurDir | ParentDir | Normal string

definition path_components :: "string \<Rightarrow> path_component list" where
  "path_components p =
     (let parts = split_char (CHR ''/'') p in
      (if starts_with p ''/'' then [RootDir] else if hd parts = ''.'' then [CurDir] else [])
      @ map (\<lambda>c. if c = ''..'' then ParentDir else Normal c) (filter (\<lambda>c. c \<noteq> [] \<and> c \<noteq> ''.'') parts))"

definition file_name :: "string \<Rightarrow> string option" where
  "file_name p = (case last_opt (path_components p) of Some (Normal c) \<Rightarrow> Some c | _ \<Rightarrow> None)"

end
