(* ===== verification/Json_Value.thy ===== *)
theory Json_Value
  imports Codex_Prelude
begin

text \<open>
  JSON values as the platform services see them: the variants of
  \<open>serde_json::Value\<close>, an object being the partial map of its fields. The text form
  (\<open>serde_json::to_string\<close>, \<open>from_str\<close>) is not modelled; operations that use it
  take both functions as arguments.
\<close>

datatype json_number = PosInt nat | NegInt int | Float string

datatype json =
    JNull
  | JBool bool
  | JNumber json_number
  | JString string
  | JArray "json list"
  | JObject "string \<Rightarrow> json option"

text \<open>\<open>Value::get(key)\<close>: only an object has fields.\<close>

fun json_get :: "string \<Rightarrow> json \<Rightarrow> json option" where
  "json_get k (JObject m) = m k"
| "json_get k _ = None"

fun as_str :: "json \<Rightarrow> string option" where
  "as_str (JString s) = Some s"
| "as_str _ = None"

fun as_array :: "json \<Rightarrow> json list option" where
  "as_array (JArray xs) = Some xs"
| "as_array _ = None"

fun as_object :: "json \<Rightarrow> (string \<Rightarrow> json option) option" where
  "as_object (JObject m) = Some m"
| "as_object _ = None"

text \<open>\<open>get(key).and_then(Value::as_str)\<close>.\<close>

definition get_str :: "string \<Rightarrow> json \<Rightarrow> string option" where
  "get_str k v = Option.bind (json_get k v) as_str"

text \<open>\<open>is_u64() || is_i64() || is_string()\<close>: what a JSON-RPC request id may be.\<close>

fun is_request_id :: "json \<Rightarrow> bool" where
  "is_request_id (JNumber (PosInt n)) = True"
| "is_request_id (JNumber (NegInt n)) = True"
| "is_request_id (JString s) = True"
| "is_request_id _ = False"

lemma get_str_object [simp]: "get_str k (JObject m) = Option.bind (m k) as_str"
  by (simp add: get_str_def)

lemma as_str_eq_Some: "as_str v = Some s \<longleftrightarrow> v = JString s"
  by (cases v) simp_all

lemma as_array_eq_Some: "as_array v = Some xs \<longleftrightarrow> v = JArray xs"
  by (cases v) simp_all

end
