(* ===== verification/Approval_Service.thy ===== *)
theory Approval_Service
  imports Json_Value
begin

text \<open>
  The approval service of the web platform
  (\<open>src/apps/web/crates/approval-service/src/lib.rs\<close>): the durable record of every
  approval the Codex runtime asks for, and the handlers that decide it.

  The PostgreSQL tables the service reads and writes are lists of records. Every
  operation of the service is one transaction (a single statement, or a
  \<open>SELECT ... FOR UPDATE\<close> and what follows it), so it is one function from the
  database to a result and the database after it; a transaction that returns an error
  before its commit leaves the database as it was. \<open>now()\<close> and
  \<open>gen_random_uuid()\<close> are arguments, as are \<open>serde_json::to_string\<close> and
  \<open>from_str\<close>. Failures of the database itself are not modelled.
\<close>

section \<open>Tables\<close>

type_synonym uuid = nat
type_synonym timestamp = nat

record profile =
  p_id :: uuid
  p_organization_id :: uuid
  p_owner_user_id :: uuid
  p_runtime_key :: string
  p_status :: string

record run_row =
  r_id :: uuid
  r_organization_id :: uuid
  r_codex_thread_id :: "string option"
  r_created_at :: timestamp

record approval =
  a_id :: uuid
  a_run_id :: uuid
  a_request_type :: string
  a_request_payload :: json
  a_organization_id :: "uuid option"
  a_profile_id :: "uuid option"
  a_thread_id :: "string option"
  a_runtime_instance_id :: "uuid option"
  a_runtime_request_id :: "string option"
  a_state :: string
  a_version :: int
  a_decision :: "string option"
  a_decided_by :: "uuid option"
  a_decided_at :: "timestamp option"
  a_created_at :: timestamp

record audit_entry =
  au_organization_id :: uuid
  au_actor_id :: uuid
  au_target_id :: uuid
  au_decision :: string
  au_outcome :: string

record db =
  profiles :: "profile list"
  runs :: "run_row list"
  approvals :: "approval list"
  audit_log :: "audit_entry list"

section \<open>Requests and results\<close>

record approval_actor =
  user_id :: uuid
  organization_id :: uuid

datatype approval_decision = Accept | AcceptForSession | Decline | Cancel

datatype approval_outcome = Accepted | Declined | Answered | Cancelled

text \<open>
  \<open>PanicNull\<close> is no error of the service: it stands for the panic of
  \<open>row.get\<close> when a column the code reads as \<open>String\<close> is null.
\<close>

datatype approval_error = NotFound | Conflict | Invalid | PanicNull

record approval_dispatch =
  d_approval_id :: uuid
  d_runtime_instance_id :: uuid
  d_runtime_request_id :: json
  d_response :: json
  d_dispatch_version :: int
  d_terminal_state :: string
  d_decision :: string

record resolved_approval =
  ra_approval_id :: uuid
  ra_thread_id :: string
  ra_turn_id :: "string option"
  ra_item_id :: "string option"
  ra_outcome :: approval_outcome

record approval_summary =
  s_id :: uuid
  s_run_id :: uuid
  s_thread_id :: string
  s_request_type :: string
  s_item_id :: "string option"
  s_reason :: "string option"
  s_command :: "string option"
  s_state :: string
  s_version :: int
  s_created_at :: timestamp
  s_decided_at :: "timestamp option"

abbreviation COMMAND_APPROVAL :: string where
  "COMMAND_APPROVAL \<equiv> ''item/commandExecution/requestApproval''"

abbreviation FILE_APPROVAL :: string where
  "FILE_APPROVAL \<equiv> ''item/fileChange/requestApproval''"

abbreviation MCP_ELICITATION_REQUEST :: string where
  "MCP_ELICITATION_REQUEST \<equiv> ''mcpServer/elicitation/request''"

abbreviation PERMISSIONS_APPROVAL :: string where
  "PERMISSIONS_APPROVAL \<equiv> ''item/permissions/requestApproval''"

abbreviation USER_INPUT_REQUEST :: string where
  "USER_INPUT_REQUEST \<equiv> ''item/tool/requestUserInput''"

section \<open>Pure parts\<close>

fun outcome_as_str :: "approval_outcome \<Rightarrow> string" where
  "outcome_as_str Accepted = ''accepted''"
| "outcome_as_str Declined = ''declined''"
| "outcome_as_str Answered = ''answered''"
| "outcome_as_str Cancelled = ''cancelled''"

definition active_state :: "string \<Rightarrow> bool" where
  "active_state s \<longleftrightarrow> s \<in> {''pending'', ''dispatching'', ''delivery_unknown''}"

definition resolved_terminal_state :: "string \<Rightarrow> string option \<Rightarrow> string option" where
  "resolved_terminal_state state decision =
     (if \<not> active_state state then None
      else Some (case decision of
          Some d \<Rightarrow>
            (if d = ''rejected'' then ''rejected''
             else if d = ''answered'' then ''answered''
             else ''approved'')
        | None \<Rightarrow> ''cancelled''))"

definition approval_outcome_of :: "string \<Rightarrow> approval_outcome option" where
  "approval_outcome_of state =
     (if state = ''approved'' then Some Accepted
      else if state = ''rejected'' then Some Declined
      else if state = ''answered'' then Some Answered
      else if state = ''cancelled'' then Some Cancelled
      else None)"

text \<open>\<open>payload.insert(key, params[key].clone())\<close> for each key \<open>params\<close> has.\<close>

fun copy_keys :: "json \<Rightarrow> string list \<Rightarrow> (string \<Rightarrow> json option) \<Rightarrow> (string \<Rightarrow> json option)" where
  "copy_keys params [] m = m"
| "copy_keys params (k # ks) m =
     copy_keys params ks (case json_get k params of Some v \<Rightarrow> m(k \<mapsto> v) | None \<Rightarrow> m)"

definition approval_payload :: "string \<Rightarrow> json \<Rightarrow> json" where
  "approval_payload request_type params =
     (let m0 = copy_keys params
                 [''threadId'', ''turnId'', ''itemId'', ''reason'', ''startedAtMs''] Map.empty;
          m1 = (if request_type = COMMAND_APPROVAL then copy_keys params [''command''] m0 else m0);
          m2 = (if request_type = PERMISSIONS_APPROVAL
                then copy_keys params [''permissions''] m1 else m1);
          m3 = (if request_type = MCP_ELICITATION_REQUEST
                then copy_keys params
                       [''serverName'', ''mode'', ''message'', ''requestedSchema'', ''url''] m2
                else m2);
          m4 = (if request_type = USER_INPUT_REQUEST
                then copy_keys params [''questions'', ''autoResolutionMs''] m3 else m3)
      in JObject m4)"

text \<open>
  The answers of a \<open>RespondUserInputRequest\<close> are a \<open>BTreeMap\<close>, a list of entries
  with distinct keys. The ids of the stored questions are collected in a set.
\<close>

type_synonym answers = "(string \<times> string list) list"

definition question_ids :: "json list \<Rightarrow> string set" where
  "question_ids qs = set (filter (\<lambda>id. id \<noteq> []) (List.map_filter (get_str ''id'') qs))"

fun answer_values_ok :: "string list \<Rightarrow> bool" where
  "answer_values_ok [] = True"
| "answer_values_ok (v # vs) =
     (CHR 0x00 \<notin> set v \<and> length v \<le> 4096 \<and> answer_values_ok vs)"

fun total_bytes :: "nat \<Rightarrow> answers \<Rightarrow> nat" where
  "total_bytes n [] = n"
| "total_bytes n ((k, vs) # rest) =
     total_bytes (fold (\<lambda>v acc. saturating_add acc (length v)) vs n) rest"

definition validate_user_input_answers :: "json \<Rightarrow> answers \<Rightarrow> (approval_error, unit) result" where
  "validate_user_input_answers payload answers =
     bindR (ok_or Invalid (Option.bind (json_get ''questions'' payload) as_array)) (\<lambda>qs.
     let ids = question_ids qs in
     if ids = {} \<or> length answers \<noteq> card ids \<or> \<not> list_all (\<lambda>(k, _). k \<in> ids) answers
     then Err Invalid
     else if \<not> list_all (\<lambda>(_, vs). vs \<noteq> [] \<and> length vs \<le> 20 \<and> answer_values_ok vs) answers
     then Err Invalid
     else if total_bytes 0 answers > 64 * 1024 then Err Invalid
     else Ok ())"

text \<open>The body of the loop over the required fields of an elicitation form.\<close>

definition elicitation_field_value :: "(string \<Rightarrow> json option) \<Rightarrow> (approval_error, json) result" where
  "elicitation_field_value property =
     (case property ''const'' of
        Some v \<Rightarrow> Ok v
      | None \<Rightarrow>
        (case property ''default'' of
           Some v \<Rightarrow> Ok v
         | None \<Rightarrow>
           (if Option.bind (property ''type'') as_str = Some ''boolean'' then Ok (JBool True)
            else (case Option.bind (property ''enum'') as_array of
                    Some vs \<Rightarrow> (if length vs \<noteq> 1 then Err Invalid else Ok (vs ! 0))
                  | None \<Rightarrow> Err Invalid))))"

fun elicitation_content ::
  "(string \<Rightarrow> json option) \<Rightarrow> json list \<Rightarrow> (string \<Rightarrow> json option)
    \<Rightarrow> (approval_error, string \<Rightarrow> json option) result" where
  "elicitation_content properties [] content = Ok content"
| "elicitation_content properties (f # fs) content =
     bindR (ok_or Invalid (as_str f)) (\<lambda>field.
     bindR (ok_or Invalid (Option.bind (properties field) as_object)) (\<lambda>property.
     bindR (elicitation_field_value property) (\<lambda>value.
       elicitation_content properties fs (content(field \<mapsto> value)))))"

definition mcp_elicitation_accept_content :: "json \<Rightarrow> (approval_error, json) result" where
  "mcp_elicitation_accept_content payload =
     bindR (ok_or Invalid (get_str ''mode'' payload)) (\<lambda>mode.
     if mode = ''url'' then Ok JNull
     else if mode \<noteq> ''form'' then Err Invalid
     else
       bindR (ok_or Invalid (Option.bind (json_get ''requestedSchema'' payload) as_object)) (\<lambda>schema.
       bindR (ok_or Invalid (Option.bind (schema ''properties'') as_object)) (\<lambda>properties.
       let required = (case Option.bind (schema ''required'') as_array of
                         Some xs \<Rightarrow> xs | None \<Rightarrow> []) in
       bindR (elicitation_content properties required Map.empty) (\<lambda>content.
       Ok (JObject content)))))"

fun decision_states :: "approval_decision \<Rightarrow> string \<times> string" where
  "decision_states Accept = (''approved'', ''approved'')"
| "decision_states AcceptForSession = (''approved'', ''approved'')"
| "decision_states Decline = (''rejected'', ''rejected'')"
| "decision_states Cancel = (''cancelled'', ''rejected'')"

fun wire_decision :: "approval_decision \<Rightarrow> string" where
  "wire_decision Accept = ''accept''"
| "wire_decision AcceptForSession = ''acceptForSession''"
| "wire_decision Decline = ''decline''"
| "wire_decision Cancel = ''cancel''"

definition permissions_of :: "json \<Rightarrow> json" where
  "permissions_of payload =
     (case json_get ''permissions'' payload of Some v \<Rightarrow> v | None \<Rightarrow> JObject Map.empty)"

definition runtime_response :: "string \<Rightarrow> json \<Rightarrow> approval_decision \<Rightarrow> (approval_error, json) result" where
  "runtime_response request_type payload decision =
     (if request_type = COMMAND_APPROVAL \<or> request_type = FILE_APPROVAL then
        Ok (JObject [''decision'' \<mapsto> JString (wire_decision decision)])
      else if request_type = PERMISSIONS_APPROVAL then
        Ok (JObject
          (case decision of
             Accept \<Rightarrow> [''permissions'' \<mapsto> permissions_of payload, ''scope'' \<mapsto> JString ''turn'']
           | AcceptForSession \<Rightarrow>
               [''permissions'' \<mapsto> permissions_of payload, ''scope'' \<mapsto> JString ''session'']
           | _ \<Rightarrow> [''permissions'' \<mapsto> JObject Map.empty, ''scope'' \<mapsto> JString ''turn'']))
      else if request_type = MCP_ELICITATION_REQUEST then
        (if decision = Accept \<or> decision = AcceptForSession then
           bindR (mcp_elicitation_accept_content payload) (\<lambda>content.
           Ok (JObject [''action'' \<mapsto> JString ''accept'', ''content'' \<mapsto> content, ''_meta'' \<mapsto> JNull]))
         else
           Ok (JObject [''action'' \<mapsto> JString (wire_decision decision),
                        ''content'' \<mapsto> JNull, ''_meta'' \<mapsto> JNull]))
      else Err Invalid)"

definition approval_response ::
  "string \<Rightarrow> json \<Rightarrow> approval_decision \<Rightarrow> (approval_error, json \<times> string \<times> string) result" where
  "approval_response request_type payload decision =
     bindR (runtime_response request_type payload decision) (\<lambda>response.
     Ok (response, decision_states decision))"

section \<open>Statements\<close>

text \<open>
  \<open>UPDATE approvals SET f WHERE P\<close>, the number of rows it touches, and
  \<open>approvals a JOIN profiles p ON p.id = a.profile_id\<close>.
\<close>

definition update_approvals :: "(approval \<Rightarrow> bool) \<Rightarrow> (approval \<Rightarrow> approval) \<Rightarrow> db \<Rightarrow> db" where
  "update_approvals P f s = s\<lparr>approvals := map (\<lambda>a. if P a then f a else a) (approvals s)\<rparr>"

definition count_approvals :: "(approval \<Rightarrow> bool) \<Rightarrow> db \<Rightarrow> nat" where
  "count_approvals P s = length (filter P (approvals s))"

definition join_profiles :: "db \<Rightarrow> (approval \<times> profile) list" where
  "join_profiles s =
     [(a, p). a \<leftarrow> approvals s, p \<leftarrow> profiles s, a_profile_id a = Some (p_id p)]"

text \<open>The row a decision locks: the caller's own approval, of this runtime.\<close>

definition select_owned :: "string \<Rightarrow> db \<Rightarrow> approval_actor \<Rightarrow> uuid \<Rightarrow> approval option" where
  "select_owned key s actor i =
     map_option fst (find (\<lambda>(a, p).
       a_id a = i \<and> a_organization_id a = Some (organization_id actor)
       \<and> p_owner_user_id p = user_id actor \<and> p_runtime_key p = key) (join_profiles s))"

definition insert_audit :: "approval_actor \<Rightarrow> approval_dispatch \<Rightarrow> string \<Rightarrow> db \<Rightarrow> db" where
  "insert_audit actor d outcome s =
     s\<lparr>audit_log := audit_log s @
         [\<lparr>au_organization_id = organization_id actor, au_actor_id = user_id actor,
           au_target_id = d_approval_id d, au_decision = d_decision d, au_outcome = outcome\<rparr>]\<rparr>"

section \<open>Operations\<close>

text \<open>
  \<open>capture_message\<close>. \<open>ORDER BY r.created_at DESC LIMIT 1\<close> takes the newest run of
  the thread; the unique index makes the insertion a no-op when the request is stored.
\<close>

definition newest_run :: "string \<Rightarrow> string \<Rightarrow> db \<Rightarrow> (profile \<times> run_row) option" where
  "newest_run key thread_id s =
     (let rows = [(p, r). p \<leftarrow> profiles s, r \<leftarrow> runs s,
                    r_organization_id r = p_organization_id p
                    \<and> r_codex_thread_id r = Some thread_id
                    \<and> p_runtime_key p = key \<and> p_status p = ''active'']
      in last_opt (sort_key (\<lambda>(p, r). r_created_at r) rows))"

definition same_request :: "uuid \<Rightarrow> uuid \<Rightarrow> string \<Rightarrow> approval \<Rightarrow> bool" where
  "same_request pid inst rid a \<longleftrightarrow>
     a_profile_id a = Some pid \<and> a_runtime_instance_id a = Some inst
     \<and> a_runtime_request_id a = Some rid"

definition insert_approval ::
  "string \<Rightarrow> db \<Rightarrow> timestamp \<Rightarrow> uuid \<Rightarrow> uuid \<Rightarrow> string \<Rightarrow> json \<Rightarrow> string \<Rightarrow> string \<Rightarrow> uuid option \<times> db" where
  "insert_approval key s now new_id inst method payload thread_id rid =
     (case newest_run key thread_id s of
        None \<Rightarrow> (None, s)
      | Some (p, r) \<Rightarrow>
          (if list_ex (same_request (p_id p) inst rid) (approvals s) then (None, s)
           else (Some new_id, s\<lparr>approvals := approvals s @
             [\<lparr>a_id = new_id, a_run_id = r_id r, a_request_type = method,
               a_request_payload = payload,
               a_organization_id = Some (p_organization_id p), a_profile_id = Some (p_id p),
               a_thread_id = Some thread_id, a_runtime_instance_id = Some inst,
               a_runtime_request_id = Some rid, a_state = ''pending'', a_version = 0,
               a_decision = None, a_decided_by = None, a_decided_at = None,
               a_created_at = now\<rparr>]\<rparr>)))"

definition existing_approval :: "string \<Rightarrow> db \<Rightarrow> uuid \<Rightarrow> string \<Rightarrow> uuid option" where
  "existing_approval key s inst rid =
     map_option (a_id \<circ> fst) (find (\<lambda>(a, p).
       p_runtime_key p = key \<and> a_runtime_instance_id a = Some inst
       \<and> a_runtime_request_id a = Some rid) (join_profiles s))"

definition approval_methods :: "string list" where
  "approval_methods =
     [COMMAND_APPROVAL, FILE_APPROVAL, MCP_ELICITATION_REQUEST, PERMISSIONS_APPROVAL,
      USER_INPUT_REQUEST]"

definition capture_message ::
  "(json \<Rightarrow> string) \<Rightarrow> string \<Rightarrow> db \<Rightarrow> timestamp \<Rightarrow> uuid \<Rightarrow> uuid \<Rightarrow> json
    \<Rightarrow> (approval_error, uuid option) result \<times> db" where
  "capture_message to_str key s now new_id inst message =
     (case get_str ''method'' message of
        None \<Rightarrow> (Ok None, s)
      | Some method \<Rightarrow>
        if method \<notin> set approval_methods then (Ok None, s)
        else
        (case json_get ''id'' message of
           None \<Rightarrow> (Err Invalid, s)
         | Some request_id \<Rightarrow>
           if \<not> is_request_id request_id then (Err Invalid, s)
           else
           (case json_get ''params'' message of
              None \<Rightarrow> (Err Invalid, s)
            | Some params \<Rightarrow>
              (case get_str ''threadId'' params of
                 None \<Rightarrow> (Err Invalid, s)
               | Some thread_id \<Rightarrow>
                 if thread_id = [] then (Err Invalid, s)
                 else
                   (let rid = to_str request_id;
                        (inserted, s') = insert_approval key s now new_id inst method
                                           (approval_payload method params) thread_id rid
                    in case inserted of
                         Some i \<Rightarrow> (Ok (Some i), s')
                       | None \<Rightarrow>
                           (case existing_approval key s' inst rid of
                              Some i \<Rightarrow> (Ok (Some i), s')
                            | None \<Rightarrow> (Err NotFound, s')))))))"

text \<open>
  \<open>capture_event_frame\<close>: unwrap a server-sent event. \<open>parse\<close> is
  \<open>serde_json::from_slice\<close>, \<open>parse_uuid\<close> is \<open>Uuid::parse_str\<close>.
\<close>

definition capture_event_frame ::
  "(string \<Rightarrow> json option) \<Rightarrow> (string \<Rightarrow> uuid option) \<Rightarrow> (json \<Rightarrow> string) \<Rightarrow> string \<Rightarrow> db
    \<Rightarrow> timestamp \<Rightarrow> uuid \<Rightarrow> string \<Rightarrow> (approval_error, uuid option) result \<times> db" where
  "capture_event_frame parse parse_uuid to_str key s now new_id frame =
     (case Option.bind (strip_prefix ''data: '' frame) (strip_suffix [nl, nl]) of
        None \<Rightarrow> (Err Invalid, s)
      | Some payload \<Rightarrow>
        (case parse payload of
           None \<Rightarrow> (Err Invalid, s)
         | Some envelope \<Rightarrow>
           (case Option.bind (Option.bind (json_get ''params'' envelope)
                   (get_str ''runtime_instance_id'')) parse_uuid of
              None \<Rightarrow> (Err Invalid, s)
            | Some inst \<Rightarrow>
              (case Option.bind (json_get ''params'' envelope) (json_get ''message'') of
                 None \<Rightarrow> (Err Invalid, s)
               | Some message \<Rightarrow> capture_message to_str key s now new_id inst message))))"

definition cancel_stale_runtime_requests :: "string \<Rightarrow> db \<Rightarrow> timestamp \<Rightarrow> uuid \<Rightarrow> nat \<times> db" where
  "cancel_stale_runtime_requests key s now inst =
     (let P = (\<lambda>a. list_ex (\<lambda>p. a_profile_id a = Some (p_id p) \<and> p_runtime_key p = key) (profiles s)
                   \<and> active_state (a_state a) \<and> a_runtime_instance_id a \<noteq> Some inst)
      in (count_approvals P s,
          update_approvals P (\<lambda>a. a\<lparr>a_state := ''cancelled'',
              a_decided_at := Some (case a_decided_at a of Some t \<Rightarrow> t | None \<Rightarrow> now),
              a_version := a_version a + 1\<rparr>) s))"

definition summary_from_row :: "approval \<Rightarrow> (approval_error, approval_summary) result" where
  "summary_from_row a =
     (case a_thread_id a of
        None \<Rightarrow> Err PanicNull
      | Some t \<Rightarrow> Ok \<lparr>s_id = a_id a, s_run_id = a_run_id a, s_thread_id = t,
          s_request_type = a_request_type a,
          s_item_id = get_str ''itemId'' (a_request_payload a),
          s_reason = get_str ''reason'' (a_request_payload a),
          s_command = get_str ''command'' (a_request_payload a),
          s_state = a_state a, s_version = a_version a,
          s_created_at = a_created_at a, s_decided_at = a_decided_at a\<rparr>)"

definition list_pending ::
  "string \<Rightarrow> db \<Rightarrow> timestamp \<Rightarrow> approval_actor \<Rightarrow> uuid
    \<Rightarrow> (approval_error, approval_summary list) result \<times> db" where
  "list_pending key s now actor inst =
     (let s' = snd (cancel_stale_runtime_requests key s now inst);
          rows = map fst (filter (\<lambda>(a, p).
                   a_organization_id a = Some (organization_id actor)
                   \<and> p_owner_user_id p = user_id actor \<and> p_runtime_key p = key
                   \<and> active_state (a_state a) \<and> a_runtime_instance_id a = Some inst)
                 (join_profiles s'))
      in (collectR summary_from_row (sort_key a_created_at (sort_key a_id rows)), s'))"

definition non_empty :: "string option \<Rightarrow> string option" where
  "non_empty x = (case x of Some v \<Rightarrow> (if v = [] then None else Some v) | None \<Rightarrow> None)"

definition resolve_runtime_request ::
  "(json \<Rightarrow> string) \<Rightarrow> string \<Rightarrow> db \<Rightarrow> timestamp \<Rightarrow> uuid \<Rightarrow> string \<Rightarrow> json
    \<Rightarrow> (approval_error, resolved_approval option) result \<times> db" where
  "resolve_runtime_request to_str key s now inst thread_id request_id =
     (if trim thread_id = [] then (Err Invalid, s)
      else if \<not> is_request_id request_id then (Err Invalid, s)
      else
        (case find (\<lambda>(a, p). p_runtime_key p = key \<and> a_runtime_instance_id a = Some inst
                     \<and> a_thread_id a = Some thread_id
                     \<and> a_runtime_request_id a = Some (to_str request_id)) (join_profiles s) of
           None \<Rightarrow> (Ok None, s)
         | Some (a, _) \<Rightarrow>
           (case non_empty (a_thread_id a) of
              None \<Rightarrow> (Err Invalid, s)
            | Some t \<Rightarrow>
              (let terminal = resolved_terminal_state (a_state a) (a_decision a);
                   resolved = (case terminal of Some st \<Rightarrow> st | None \<Rightarrow> a_state a);
                   s' = (case terminal of
                           None \<Rightarrow> s
                         | Some st \<Rightarrow> update_approvals (\<lambda>r. a_id r = a_id a)
                             (\<lambda>r. r\<lparr>a_state := st,
                                a_decided_at := Some (case a_decided_at r of Some t \<Rightarrow> t | None \<Rightarrow> now),
                                a_version := a_version r + 1\<rparr>) s)
               in case approval_outcome_of resolved of
                    None \<Rightarrow> (Err Invalid, s)
                  | Some outcome \<Rightarrow>
                      (Ok (Some \<lparr>ra_approval_id = a_id a, ra_thread_id = t,
                         ra_turn_id = non_empty (get_str ''turnId'' (a_request_payload a)),
                         ra_item_id = non_empty (get_str ''itemId'' (a_request_payload a)),
                         ra_outcome = outcome\<rparr>), s')))))"

text \<open>
  A decision in two transactions: \<open>begin_decision\<close> locks the row, checks the
  optimistic version and moves it to \<open>dispatching\<close>; after the runtime has been told,
  \<open>complete_decision\<close> or \<open>mark_delivery_unknown\<close> moves it on. The dispatch is
  built after the commit, so a stored request id that does not parse is reported with the
  row already dispatching.
\<close>

definition mark_dispatching ::
  "db \<Rightarrow> timestamp \<Rightarrow> approval_actor \<Rightarrow> uuid \<Rightarrow> string \<Rightarrow> int \<Rightarrow> db" where
  "mark_dispatching s now actor i decision v =
     update_approvals (\<lambda>a. a_id a = i)
       (\<lambda>a. a\<lparr>a_state := ''dispatching'', a_decision := Some decision,
              a_decided_by := Some (user_id actor), a_decided_at := Some now,
              a_version := v\<rparr>) s"

definition make_dispatch ::
  "(string \<Rightarrow> json option) \<Rightarrow> approval \<Rightarrow> uuid \<Rightarrow> json \<Rightarrow> int \<Rightarrow> string \<Rightarrow> string
    \<Rightarrow> (approval_error, approval_dispatch) result" where
  "make_dispatch from_str a inst response v terminal decision =
     (case a_runtime_request_id a of
        None \<Rightarrow> Err PanicNull
      | Some rid \<Rightarrow>
        (case from_str rid of
           None \<Rightarrow> Err Invalid
         | Some request_id \<Rightarrow> Ok \<lparr>d_approval_id = a_id a, d_runtime_instance_id = inst,
             d_runtime_request_id = request_id, d_response = response, d_dispatch_version = v,
             d_terminal_state = terminal, d_decision = decision\<rparr>))"

definition begin_decision ::
  "(string \<Rightarrow> json option) \<Rightarrow> string \<Rightarrow> db \<Rightarrow> timestamp \<Rightarrow> approval_actor \<Rightarrow> uuid \<Rightarrow> uuid
    \<Rightarrow> approval_decision \<Rightarrow> int \<Rightarrow> (approval_error, approval_dispatch) result \<times> db" where
  "begin_decision from_str key s now actor i inst decision version =
     (case select_owned key s actor i of
        None \<Rightarrow> (Err NotFound, s)
      | Some a \<Rightarrow>
        if a_runtime_instance_id a \<noteq> Some inst \<or> a_version a \<noteq> version then (Err Conflict, s)
        else
        (case approval_response (a_request_type a) (a_request_payload a) decision of
           Inl e \<Rightarrow> (Err e, s)
         | Inr (response, terminal, stored) \<Rightarrow>
           if a_state a \<noteq> ''pending''
              \<and> \<not> (a_state a = ''delivery_unknown'' \<and> a_decision a = Some stored)
           then (Err Conflict, s)
           else (make_dispatch from_str a inst response (a_version a + 1) terminal stored,
                 mark_dispatching s now actor i stored (a_version a + 1))))"

definition answers_json :: "answers \<Rightarrow> json" where
  "answers_json ans =
     JObject [''answers'' \<mapsto> JObject (map_of (map (\<lambda>(k, vs).
        (k, JObject [''answers'' \<mapsto> JArray (map JString vs)])) ans))]"

definition begin_user_input_response ::
  "(string \<Rightarrow> json option) \<Rightarrow> string \<Rightarrow> db \<Rightarrow> timestamp \<Rightarrow> approval_actor \<Rightarrow> uuid \<Rightarrow> uuid
    \<Rightarrow> answers \<Rightarrow> int \<Rightarrow> (approval_error, approval_dispatch) result \<times> db" where
  "begin_user_input_response from_str key s now actor i inst ans version =
     (case select_owned key s actor i of
        None \<Rightarrow> (Err NotFound, s)
      | Some a \<Rightarrow>
        if a_runtime_instance_id a \<noteq> Some inst \<or> a_version a \<noteq> version
           \<or> (a_state a \<noteq> ''pending''
              \<and> \<not> (a_state a = ''delivery_unknown'' \<and> a_decision a = Some ''answered''))
        then (Err Conflict, s)
        else if a_request_type a \<noteq> USER_INPUT_REQUEST then (Err Invalid, s)
        else
        (case validate_user_input_answers (a_request_payload a) ans of
           Inl e \<Rightarrow> (Err e, s)
         | Inr _ \<Rightarrow>
             (make_dispatch from_str a inst (answers_json ans) (a_version a + 1)
                ''answered'' ''answered'',
              mark_dispatching s now actor i ''answered'' (a_version a + 1))))"

definition dispatch_row :: "approval_actor \<Rightarrow> approval_dispatch \<Rightarrow> approval \<Rightarrow> bool" where
  "dispatch_row actor d a \<longleftrightarrow>
     a_id a = d_approval_id d \<and> a_organization_id a = Some (organization_id actor)
     \<and> a_state a = ''dispatching'' \<and> a_version a = d_dispatch_version d"

definition complete_decision ::
  "db \<Rightarrow> approval_actor \<Rightarrow> approval_dispatch \<Rightarrow> (approval_error, unit) result \<times> db" where
  "complete_decision s actor d =
     (let updated = count_approvals (dispatch_row actor d) s;
          s1 = update_approvals (dispatch_row actor d)
                 (\<lambda>a. a\<lparr>a_state := d_terminal_state d, a_version := a_version a + 1\<rparr>) s;
          already = list_ex (\<lambda>a. a_id a = d_approval_id d
                      \<and> a_organization_id a = Some (organization_id actor)
                      \<and> a_state a = d_terminal_state d
                      \<and> a_decision a = Some (d_decision d)) (approvals s1)
      in if updated \<noteq> 1 \<and> \<not> already then (Err Conflict, s)
         else (Ok (), insert_audit actor d ''success'' s1))"

definition mark_delivery_unknown ::
  "db \<Rightarrow> approval_actor \<Rightarrow> approval_dispatch \<Rightarrow> (approval_error, unit) result \<times> db" where
  "mark_delivery_unknown s actor d =
     (Ok (), insert_audit actor d ''delivery_unknown''
        (update_approvals (dispatch_row actor d)
          (\<lambda>a. a\<lparr>a_state := ''delivery_unknown'', a_version := a_version a + 1\<rparr>) s))"

section \<open>The routes\<close>

text \<open>
  \<open>decide\<close> and \<open>respond_user_input\<close> of
  \<open>src/apps/web/server/src/routes/approvals.rs\<close>, without other requests in between:
  \<open>delivered\<close> says whether \<open>respond_to_server_request\<close> of the adapter succeeded.
  The result is the HTTP status.
\<close>

fun approval_error_status :: "approval_error \<Rightarrow> nat" where
  "approval_error_status NotFound = 404"
| "approval_error_status Conflict = 409"
| "approval_error_status Invalid = 422"
| "approval_error_status PanicNull = 500"

definition finish_dispatch ::
  "(json \<Rightarrow> json \<Rightarrow> bool) \<Rightarrow> approval_actor
    \<Rightarrow> (approval_error, approval_dispatch) result \<times> db \<Rightarrow> nat \<times> db" where
  "finish_dispatch delivered actor r =
     (case r of
        (Inl e, s) \<Rightarrow> (approval_error_status e, s)
      | (Inr d, s) \<Rightarrow>
          if \<not> delivered (d_runtime_request_id d) (d_response d) then
            (case mark_delivery_unknown s actor d of
               (Inl e, s') \<Rightarrow> (approval_error_status e, s')
             | (Inr _, s') \<Rightarrow> (502, s'))
          else
            (case complete_decision s actor d of
               (Inl e, s') \<Rightarrow> (approval_error_status e, s')
             | (Inr _, s') \<Rightarrow> (204, s')))"

definition decide ::
  "(json \<Rightarrow> json \<Rightarrow> bool) \<Rightarrow> (string \<Rightarrow> json option) \<Rightarrow> string \<Rightarrow> db \<Rightarrow> timestamp
    \<Rightarrow> approval_actor \<Rightarrow> uuid \<Rightarrow> uuid \<Rightarrow> approval_decision \<Rightarrow> int \<Rightarrow> nat \<times> db" where
  "decide delivered from_str key s now actor i inst decision version =
     finish_dispatch delivered actor
       (begin_decision from_str key s now actor i inst decision version)"

definition respond_user_input ::
  "(json \<Rightarrow> json \<Rightarrow> bool) \<Rightarrow> (string \<Rightarrow> json option) \<Rightarrow> string \<Rightarrow> db \<Rightarrow> timestamp
    \<Rightarrow> approval_actor \<Rightarrow> uuid \<Rightarrow> uuid \<Rightarrow> answers \<Rightarrow> int \<Rightarrow> nat \<times> db" where
  "respond_user_input delivered from_str key s now actor i inst ans version =
     finish_dispatch delivered actor
       (begin_user_input_response from_str key s now actor i inst ans version)"

section \<open>Interleavings\<close>

text \<open>
  What the server does over time: every transaction is a step, and between
  \<open>begin_decision\<close> and the transaction that ends it any other step may happen. The
  state is the database and the dispatches that are under way. \<open>gen_random_uuid()\<close>
  gives an id no row has.
\<close>

record approval_sys =
  sdb :: db
  inflight :: "(approval_actor \<times> approval_dispatch) list"

inductive approval_step ::
  "(json \<Rightarrow> string) \<Rightarrow> (string \<Rightarrow> json option) \<Rightarrow> string \<Rightarrow> approval_sys \<Rightarrow> approval_sys \<Rightarrow> bool"
  for to_str from_str key where
  step_capture:
    "new_id \<notin> a_id ` set (approvals (sdb s)) \<Longrightarrow>
     capture_message to_str key (sdb s) now new_id inst message = (r, d') \<Longrightarrow>
     approval_step to_str from_str key s (s\<lparr>sdb := d'\<rparr>)"
| step_list:
    "list_pending key (sdb s) now actor inst = (r, d') \<Longrightarrow>
     approval_step to_str from_str key s (s\<lparr>sdb := d'\<rparr>)"
| step_cancel_stale:
    "cancel_stale_runtime_requests key (sdb s) now inst = (n, d') \<Longrightarrow>
     approval_step to_str from_str key s (s\<lparr>sdb := d'\<rparr>)"
| step_resolve:
    "resolve_runtime_request to_str key (sdb s) now inst thread_id request_id = (r, d') \<Longrightarrow>
     approval_step to_str from_str key s (s\<lparr>sdb := d'\<rparr>)"
| step_begin:
    "begin_decision from_str key (sdb s) now actor i inst decision version = (Inr d, d') \<Longrightarrow>
     approval_step to_str from_str key s
       (s\<lparr>sdb := d', inflight := (actor, d) # inflight s\<rparr>)"
| step_begin_input:
    "begin_user_input_response from_str key (sdb s) now actor i inst ans version = (Inr d, d') \<Longrightarrow>
     approval_step to_str from_str key s
       (s\<lparr>sdb := d', inflight := (actor, d) # inflight s\<rparr>)"
| step_begin_failed:
    "begin_decision from_str key (sdb s) now actor i inst decision version = (Inl e, d') \<or>
     begin_user_input_response from_str key (sdb s) now actor i inst ans version = (Inl e, d') \<Longrightarrow>
     approval_step to_str from_str key s (s\<lparr>sdb := d'\<rparr>)"
| step_complete:
    "(actor, d) \<in> set (inflight s) \<Longrightarrow> complete_decision (sdb s) actor d = (r, d') \<Longrightarrow>
     approval_step to_str from_str key s
       (s\<lparr>sdb := d', inflight := remove1 (actor, d) (inflight s)\<rparr>)"
| step_unknown:
    "(actor, d) \<in> set (inflight s) \<Longrightarrow> mark_delivery_unknown (sdb s) actor d = (r, d') \<Longrightarrow>
     approval_step to_str from_str key s
       (s\<lparr>sdb := d', inflight := remove1 (actor, d) (inflight s)\<rparr>)"

inductive_cases approval_stepE: "approval_step to_str from_str key s t"

end
