(* ===== verification/Approval_Lifecycle.thy ===== *)
theory Approval_Lifecycle
  imports Approval_Service
begin

text \<open>
  The life of one approval, and that every interleaving of the service's transactions
  keeps to it. \<open>row_step\<close> is the specification: the changes a row may undergo. The
  invariant \<open>sys_inv\<close> says how rows and running dispatches agree; under it every
  \<open>approval_step\<close> changes rows by \<open>row_step\<close> only.
\<close>

section \<open>The specification of a row\<close>

definition legal_decision :: "string \<Rightarrow> bool" where
  "legal_decision d \<longleftrightarrow> d \<in> {''approved'', ''rejected'', ''answered''}"

definition legal_outcome :: "string \<Rightarrow> string \<Rightarrow> bool" where
  "legal_outcome st d \<longleftrightarrow>
     (st, d) \<in> {(''approved'', ''approved''), (''rejected'', ''rejected''),
                (''cancelled'', ''rejected''), (''answered'', ''answered'')}"

inductive row_step :: "approval \<Rightarrow> approval \<Rightarrow> bool" where
  row_same: "row_step a a"
| row_dispatch:
    "a_state a = ''pending'' \<or> a_state a = ''delivery_unknown'' \<and> a_decision a = Some d \<Longrightarrow>
     legal_decision d \<Longrightarrow>
     row_step a (a\<lparr>a_state := ''dispatching'', a_decision := Some d, a_decided_by := u,
                   a_decided_at := Some t, a_version := a_version a + 1\<rparr>)"
| row_complete:
    "a_state a = ''dispatching'' \<Longrightarrow> a_decision a = Some d \<Longrightarrow> legal_outcome st d \<Longrightarrow>
     row_step a (a\<lparr>a_state := st, a_version := a_version a + 1\<rparr>)"
| row_unknown:
    "a_state a = ''dispatching'' \<Longrightarrow>
     row_step a (a\<lparr>a_state := ''delivery_unknown'', a_version := a_version a + 1\<rparr>)"
| row_resolve:
    "resolved_terminal_state (a_state a) (a_decision a) = Some st \<Longrightarrow>
     row_step a (a\<lparr>a_state := st, a_decided_at := Some t, a_version := a_version a + 1\<rparr>)"
| row_stale:
    "active_state (a_state a) \<Longrightarrow>
     row_step a (a\<lparr>a_state := ''cancelled'', a_decided_at := Some t,
                   a_version := a_version a + 1\<rparr>)"

definition row_ok :: "approval \<Rightarrow> bool" where
  "row_ok a \<longleftrightarrow>
     0 \<le> a_version a
     \<and> (case a_decision a of None \<Rightarrow> a_state a \<in> {''pending'', ''cancelled''}
        | Some d \<Rightarrow> legal_decision d \<and>
            (a_state a \<in> {''dispatching'', ''delivery_unknown'', ''cancelled''} \<or> a_state a = d))
     \<and> (a_state a = ''pending'' \<or> a_decided_at a \<noteq> None)"

lemma active_state_simps [simp]:
  "active_state ''pending''" "active_state ''dispatching''" "active_state ''delivery_unknown''"
  "\<not> active_state ''approved''" "\<not> active_state ''rejected''" "\<not> active_state ''answered''"
  "\<not> active_state ''cancelled''"
  by (simp_all add: active_state_def)

lemma resolved_terminal_state_SomeD:
  assumes "resolved_terminal_state st dec = Some st'"
  shows "active_state st"
    and "case dec of None \<Rightarrow> st' = ''cancelled''
         | Some d \<Rightarrow> (legal_decision d \<longrightarrow> st' = d) \<and> legal_decision st'"
  using assms by (auto simp: resolved_terminal_state_def legal_decision_def
      split: if_splits option.splits)

lemma row_step_id:
  "row_step a b \<Longrightarrow> a_id b = a_id a \<and> a_organization_id b = a_organization_id a
    \<and> a_profile_id b = a_profile_id a \<and> a_thread_id b = a_thread_id a
    \<and> a_runtime_instance_id b = a_runtime_instance_id a
    \<and> a_runtime_request_id b = a_runtime_request_id a \<and> a_run_id b = a_run_id a
    \<and> a_request_type b = a_request_type a \<and> a_request_payload b = a_request_payload a
    \<and> a_created_at b = a_created_at a"
  by (induction rule: row_step.induct) simp_all

lemma row_step_version:
  "row_step a b \<Longrightarrow> b = a \<or> a_version b = a_version a + 1 \<and> active_state (a_state a)"
  by (induction rule: row_step.induct) (auto dest: resolved_terminal_state_SomeD(1))

lemma row_step_ok: "row_step a b \<Longrightarrow> row_ok a \<Longrightarrow> row_ok b"
proof (induction rule: row_step.induct)
  case (row_resolve a st t)
  then show ?case
    using resolved_terminal_state_SomeD [OF row_resolve.hyps]
    by (auto simp: row_ok_def split: option.splits)
qed (auto simp: row_ok_def legal_outcome_def legal_decision_def split: option.splits)

section \<open>Tables evolve row by row\<close>

definition fresh_row :: "approval list \<Rightarrow> approval \<Rightarrow> bool" where
  "fresh_row as n \<longleftrightarrow>
     a_id n \<notin> a_id ` set as \<and> a_state n = ''pending'' \<and> a_version n = 0 \<and> a_decision n = None
     \<and> (\<exists>pid inst rid. same_request pid inst rid n \<and> \<not> list_ex (same_request pid inst rid) as)"

definition evolves :: "approval list \<Rightarrow> approval list \<Rightarrow> bool" where
  "evolves as bs \<longleftrightarrow>
     (\<exists>f. (\<forall>a \<in> set as. row_step a (f a))
        \<and> (bs = map f as \<or> (\<exists>n. bs = map f as @ [n] \<and> fresh_row as n)))"

lemma evolves_refl: "evolves as as"
  unfolding evolves_def by (rule exI [of _ id]) (simp add: row_same)

lemma evolves_update:
  assumes "\<And>a. a \<in> set (approvals s) \<Longrightarrow> P a \<Longrightarrow> row_step a (f a)"
  shows "evolves (approvals s) (approvals (update_approvals P f s))"
  unfolding evolves_def
  using assms
  by (intro exI [of _ "\<lambda>a. if P a then f a else a"])
    (auto simp: update_approvals_def row_same)

lemma evolves_rowD:
  assumes "evolves as bs" and "a \<in> set as"
  shows "\<exists>b \<in> set bs. row_step a b"
  using assms by (auto simp: evolves_def)

lemma evolves_new_rowD:
  assumes "evolves as bs" and "b \<in> set bs"
  shows "(\<exists>a \<in> set as. row_step a b) \<or> fresh_row as b"
  using assms by (fastforce simp: evolves_def)

lemma evolves_ids:
  assumes "evolves as bs" and "distinct (map a_id as)"
  shows "distinct (map a_id bs)"
proof -
  obtain f where f: "\<forall>a \<in> set as. row_step a (f a)"
    and bs: "bs = map f as \<or> (\<exists>n. bs = map f as @ [n] \<and> fresh_row as n)"
    using assms(1) by (auto simp: evolves_def)
  have ids: "map (a_id \<circ> f) as = map a_id as"
    using f by (simp add: row_step_id)
  from bs show ?thesis
  proof (elim disjE exE conjE)
    assume "bs = map f as"
    then have "map a_id bs = map a_id as" using ids by simp
    then show ?thesis using assms(2) by simp
  next
    fix n assume "bs = map f as @ [n]" and n: "fresh_row as n"
    then have "map a_id bs = map a_id as @ [a_id n]" using ids by simp
    moreover have "a_id n \<notin> set (map a_id as)" using n by (simp add: fresh_row_def)
    ultimately show ?thesis using assms(2) by simp
  qed
qed

text \<open>With distinct ids, the row of an id is unique.\<close>

lemma distinct_id_eq:
  "distinct (map a_id as) \<Longrightarrow> a \<in> set as \<Longrightarrow> b \<in> set as \<Longrightarrow> a_id a = a_id b \<Longrightarrow> a = b"
  by (meson distinct_map inj_onD)

lemma join_profilesD: "(a, p) \<in> set (join_profiles s) \<Longrightarrow>
    a \<in> set (approvals s) \<and> p \<in> set (profiles s) \<and> a_profile_id a = Some (p_id p)"
  by (auto simp: join_profiles_def)

lemma select_ownedD:
  "select_owned key s actor i = Some a \<Longrightarrow>
     a \<in> set (approvals s) \<and> a_id a = i \<and> a_organization_id a = Some (organization_id actor)
     \<and> (\<exists>p \<in> set (profiles s). a_profile_id a = Some (p_id p) \<and>
           p_owner_user_id p = user_id actor \<and> p_runtime_key p = key)"
  by (fastforce simp: select_owned_def dest: find_SomeD join_profilesD)

section \<open>Every operation evolves the table\<close>

lemma insert_evolves:
  assumes "new_id \<notin> a_id ` set (approvals s)"
  shows "evolves (approvals s) (approvals (snd (insert_approval key s now new_id inst m pl t rid)))"
proof (cases "newest_run key t s")
  case None
  then show ?thesis by (simp add: insert_approval_def evolves_refl)
next
  case (Some x)
  obtain p r where x: "x = (p, r)" by (cases x)
  show ?thesis
  proof (cases "list_ex (same_request (p_id p) inst rid) (approvals s)")
    case True
    with Some x show ?thesis by (simp add: insert_approval_def evolves_refl)
  next
    case False
    then obtain n where "approvals (snd (insert_approval key s now new_id inst m pl t rid)) =
        map id (approvals s) @ [n]" and "fresh_row (approvals s) n"
      using Some x assms by (simp add: insert_approval_def fresh_row_def same_request_def)
    then show ?thesis
      unfolding evolves_def by (metis id_apply row_same)
  qed
qed

lemma insert_profiles [simp]:
  "profiles (snd (insert_approval key s now new_id inst m pl t rid)) = profiles s"
  by (simp add: insert_approval_def split: option.splits prod.splits)

lemma capture_messageD:
  assumes "capture_message to_str key s now new_id inst message = (r, s')"
  shows "s' = s \<or> (\<exists>m pl t rid. s' = snd (insert_approval key s now new_id inst m pl t rid))"
  using assms unfolding capture_message_def Let_def
  by (simp add: split_beta split: option.splits if_splits) blast+

lemma capture_evolves:
  assumes "new_id \<notin> a_id ` set (approvals s)"
    and "capture_message to_str key s now new_id inst message = (r, s')"
  shows "evolves (approvals s) (approvals s')"
  using capture_messageD [OF assms(2)] insert_evolves [OF assms(1)] evolves_refl by metis

lemma cancel_stale_evolves:
  "evolves (approvals s) (approvals (snd (cancel_stale_runtime_requests key s now inst)))"
  unfolding cancel_stale_runtime_requests_def Let_def snd_conv
  by (rule evolves_update) (rule row_stale, simp)

definition settle :: "timestamp \<Rightarrow> string \<Rightarrow> approval \<Rightarrow> approval" where
  "settle now st a = a\<lparr>a_state := st,
     a_decided_at := Some (case a_decided_at a of Some t \<Rightarrow> t | None \<Rightarrow> now),
     a_version := a_version a + 1\<rparr>"

lemma resolve_runtime_requestD:
  assumes "resolve_runtime_request to_str key s now inst t rid = (r, s')"
  obtains (unchanged) "s' = s"
  | (settled) a st where "a \<in> set (approvals s)" "a_thread_id a = Some t"
      "a_runtime_instance_id a = Some inst" "a_runtime_request_id a = Some (to_str rid)"
      "resolved_terminal_state (a_state a) (a_decision a) = Some st"
      "s' = update_approvals (\<lambda>r. a_id r = a_id a) (settle now st) s"
proof (cases "find (\<lambda>(a, p). p_runtime_key p = key \<and> a_runtime_instance_id a = Some inst
     \<and> a_thread_id a = Some t
     \<and> a_runtime_request_id a = Some (to_str rid)) (join_profiles s)")
  case None
  with assms show ?thesis
    by (intro unchanged) (auto simp: resolve_runtime_request_def split: if_splits)
next
  case (Some x)
  obtain a p where x: "x = (a, p)" by (cases x)
  have a: "a \<in> set (approvals s)" "a_thread_id a = Some t" "a_runtime_instance_id a = Some inst"
    "a_runtime_request_id a = Some (to_str rid)"
    using find_SomeD [OF Some] by (auto simp: x dest: join_profilesD)
  show ?thesis
  proof (cases "s' = s")
    case False
    with assms Some x obtain st
      where st: "resolved_terminal_state (a_state a) (a_decision a) = Some st"
      by (cases "resolved_terminal_state (a_state a) (a_decision a)")
        (auto simp: resolve_runtime_request_def split: if_splits option.splits)
    with assms Some x False have "s' = update_approvals (\<lambda>r. a_id r = a_id a) (settle now st) s"
      by (simp add: resolve_runtime_request_def settle_def [abs_def] split: if_splits option.splits)
    with a st show ?thesis by (rule settled)
  qed (rule unchanged)
qed

lemma resolve_evolves:
  assumes ids: "distinct (map a_id (approvals s))"
    and "resolve_runtime_request to_str key s now inst t rid = (r, s')"
  shows "evolves (approvals s) (approvals s')"
  using assms(2)
proof (cases rule: resolve_runtime_requestD)
  case unchanged
  then show ?thesis by (simp add: evolves_refl)
next
  case (settled a st)
  have "row_step b (settle now st b)" if "b \<in> set (approvals s)" "a_id b = a_id a" for b
    using distinct_id_eq [OF ids that(1) settled(1) that(2)] row_resolve [OF settled(5)]
    by (simp add: settle_def)
  then show ?thesis
    unfolding settled(6) by (rule evolves_update)
qed

lemma mark_dispatching_evolves:
  assumes ids: "distinct (map a_id (approvals s))"
    and a: "a \<in> set (approvals s)" "a_id a = i"
    and st: "a_state a = ''pending'' \<or> a_state a = ''delivery_unknown'' \<and> a_decision a = Some d"
    and d: "legal_decision d"
  shows "evolves (approvals s)
    (approvals (mark_dispatching s now actor i d (a_version a + 1)))"
proof -
  have "row_step b (b\<lparr>a_state := ''dispatching'', a_decision := Some d,
      a_decided_by := Some (user_id actor), a_decided_at := Some now,
      a_version := a_version a + 1\<rparr>)" if "b \<in> set (approvals s)" "a_id b = i" for b
  proof -
    have "b = a" using distinct_id_eq [OF ids that(1) a(1)] that(2) a(2) by simp
    then show ?thesis using row_dispatch [OF st d] by simp
  qed
  then show ?thesis
    unfolding mark_dispatching_def by (intro evolves_update) simp
qed

lemma approval_response_legal:
  "approval_response ty pl dec = Inr (response, st, d) \<Longrightarrow> legal_outcome st d \<and> legal_decision d"
  by (cases dec) (auto simp: approval_response_def bindR_eq_Inr legal_outcome_def legal_decision_def)

text \<open>What a successful or failed \<open>begin\<close> does to the row it is about.\<close>

definition begun :: "db \<Rightarrow> timestamp \<Rightarrow> approval_actor \<Rightarrow> approval \<Rightarrow> string \<Rightarrow> string \<Rightarrow> db \<Rightarrow> bool" where
  "begun s now actor a st d s' \<longleftrightarrow>
     a \<in> set (approvals s) \<and> a_organization_id a = Some (organization_id actor)
     \<and> (a_state a = ''pending'' \<or> a_state a = ''delivery_unknown'' \<and> a_decision a = Some d)
     \<and> legal_outcome st d \<and> legal_decision d
     \<and> s' = mark_dispatching s now actor (a_id a) d (a_version a + 1)"

lemma begin_decisionD:
  assumes "begin_decision from_str key s now actor i inst dec v = (r, s')"
  obtains (failed) e where "r = Inl e" "s' = s"
  | (begun) a st d resp where "begun s now actor a st d s'" "a_id a = i" "a_version a = v"
      "a_runtime_instance_id a = Some inst"
      "r = make_dispatch from_str a inst resp (a_version a + 1) st d"
proof (cases "select_owned key s actor i")
  case (Some a)
  note a = select_ownedD [OF this]
  show ?thesis
  proof (cases "approval_response (a_request_type a) (a_request_payload a) dec")
    case (Inr x)
    obtain resp st d where x: "x = (resp, st, d)" by (cases x)
    have legal: "legal_outcome st d" "legal_decision d"
      using approval_response_legal [OF Inr [unfolded x]] by simp_all
    show ?thesis
    proof (cases "a_runtime_instance_id a = Some inst \<and> a_version a = v \<and>
        (a_state a = ''pending'' \<or> a_state a = ''delivery_unknown'' \<and> a_decision a = Some d)")
      case True
      with assms Some Inr x have "r = make_dispatch from_str a inst resp (a_version a + 1) st d"
        and "s' = mark_dispatching s now actor i d (a_version a + 1)"
        by (auto simp: begin_decision_def)
      with True a legal show ?thesis
        by (intro begun [of a st d resp]) (auto simp: begun_def)
    next
      case False
      with assms Some Inr x show ?thesis
        by (intro failed [of Conflict]) (auto simp: begin_decision_def split: if_splits)
    qed
  next
    case (Inl e)
    with assms Some show ?thesis
      by (cases r) (auto simp: begin_decision_def intro: failed split: if_splits)
  qed
next
  case None
  with assms show ?thesis
    by (intro failed [of NotFound]) (auto simp: begin_decision_def)
qed

lemma begin_user_input_responseD:
  assumes "begin_user_input_response from_str key s now actor i inst ans v = (r, s')"
  obtains (failed) e where "r = Inl e" "s' = s"
  | (begun) a st d resp where "begun s now actor a st d s'" "a_id a = i" "a_version a = v"
      "a_runtime_instance_id a = Some inst"
      "r = make_dispatch from_str a inst resp (a_version a + 1) st d"
proof (cases "select_owned key s actor i")
  case (Some a)
  note a = select_ownedD [OF this]
  have legal: "legal_outcome ''answered'' ''answered''" "legal_decision ''answered''"
    by (simp_all add: legal_outcome_def legal_decision_def)
  show ?thesis
  proof (cases "\<exists>e. r = Inl e \<and> s' = s")
    case True
    then show ?thesis using failed by blast
  next
    case False
    with assms Some have "a_runtime_instance_id a = Some inst" "a_version a = v"
      "a_state a = ''pending'' \<or> a_state a = ''delivery_unknown'' \<and> a_decision a = Some ''answered''"
      "r = make_dispatch from_str a inst (answers_json ans) (a_version a + 1) ''answered'' ''answered''"
      "s' = mark_dispatching s now actor i ''answered'' (a_version a + 1)"
      by (auto simp: begin_user_input_response_def split: if_splits sum.splits)
    with a legal show ?thesis
      by (intro begun [of a "''answered''" "''answered''" "answers_json ans"]) (auto simp: begun_def)
  qed
next
  case None
  with assms show ?thesis
    by (intro failed [of NotFound]) (auto simp: begin_user_input_response_def)
qed

section \<open>The invariant\<close>

definition request_key :: "approval \<Rightarrow> (uuid \<times> uuid \<times> string) option" where
  "request_key a =
     (case (a_profile_id a, a_runtime_instance_id a, a_runtime_request_id a) of
        (Some p, Some i, Some r) \<Rightarrow> Some (p, i, r) | _ \<Rightarrow> None)"

text \<open>A dispatch under way and the row it is for.\<close>

definition dispatch_ok :: "approval list \<Rightarrow> approval_actor \<times> approval_dispatch \<Rightarrow> bool" where
  "dispatch_ok as ad \<longleftrightarrow>
     (case ad of (actor, d) \<Rightarrow>
        legal_outcome (d_terminal_state d) (d_decision d)
        \<and> (\<exists>a \<in> set as. a_id a = d_approval_id d
              \<and> d_dispatch_version d \<le> a_version a
              \<and> (a_version a = d_dispatch_version d \<longrightarrow>
                   a_state a = ''dispatching'' \<and> a_decision a = Some (d_decision d))))"

definition sys_inv :: "approval_sys \<Rightarrow> bool" where
  "sys_inv s \<longleftrightarrow>
     (let as = approvals (sdb s) in
        distinct (map a_id as) \<and> list_all row_ok as
        \<and> distinct (filter (\<lambda>k. k \<noteq> None) (map request_key as))
        \<and> list_all (dispatch_ok as) (inflight s))"

lemma row_step_request_key: "row_step a b \<Longrightarrow> request_key b = request_key a"
  by (simp add: request_key_def row_step_id)

lemma evolves_row_ok: "evolves as bs \<Longrightarrow> list_all row_ok as \<Longrightarrow> list_all row_ok bs"
  unfolding list_all_iff
proof
  fix b assume e: "evolves as bs" and ok: "\<forall>a \<in> set as. row_ok a" and b: "b \<in> set bs"
  from evolves_new_rowD [OF e b] show "row_ok b"
  proof
    assume "fresh_row as b"
    then show ?thesis by (auto simp: fresh_row_def row_ok_def)
  qed (use ok row_step_ok in blast)
qed

lemma distinct_filter_snoc: "distinct (filter P xs) \<Longrightarrow> y \<notin> set xs \<Longrightarrow> distinct (filter P (xs @ [y]))"
  by simp

lemma evolves_keys:
  assumes e: "evolves as bs" and d: "distinct (filter (\<lambda>k. k \<noteq> None) (map request_key as))"
  shows "distinct (filter (\<lambda>k. k \<noteq> None) (map request_key bs))"
proof -
  obtain f where f: "\<forall>a \<in> set as. row_step a (f a)"
    and bs: "bs = map f as \<or> (\<exists>n. bs = map f as @ [n] \<and> fresh_row as n)"
    using e by (auto simp: evolves_def)
  have keys: "map request_key (map f as) = map request_key as"
    using f by (simp add: row_step_request_key)
  from bs show ?thesis
  proof (elim disjE exE conjE)
    assume "bs = map f as"
    with keys have "map request_key bs = map request_key as" by simp
    then show ?thesis using d by metis
  next
    fix n assume n: "bs = map f as @ [n]" "fresh_row as n"
    then have bs': "map request_key bs = map request_key as @ [request_key n]"
      using keys by simp
    from n(2) obtain p i r where k: "same_request p i r n"
      and new: "\<not> list_ex (same_request p i r) as"
      by (auto simp: fresh_row_def)
    have "request_key n = Some (p, i, r)"
      using k by (simp add: request_key_def same_request_def)
    moreover have "request_key a \<noteq> Some (p, i, r)" if "a \<in> set as" for a
      using new that
      by (auto simp: list_ex_iff request_key_def same_request_def split: option.splits)
    ultimately have "request_key n \<notin> set (map request_key as)" by (metis imageE set_map)
    then show ?thesis
      unfolding bs' by (rule distinct_filter_snoc [OF d])
  qed
qed

lemma evolves_dispatch_ok:
  assumes e: "evolves as bs" and d: "dispatch_ok as ad"
  shows "dispatch_ok bs ad"
proof -
  obtain actor dd where ad: "ad = (actor, dd)" by (cases ad)
  from d obtain a where a: "a \<in> set as" "a_id a = d_approval_id dd"
    and v: "d_dispatch_version dd \<le> a_version a"
    and eq: "a_version a = d_dispatch_version dd \<longrightarrow>
        a_state a = ''dispatching'' \<and> a_decision a = Some (d_decision dd)"
    by (auto simp: dispatch_ok_def ad)
  from evolves_rowD [OF e a(1)] obtain b where b: "b \<in> set bs" "row_step a b" by blast
  from row_step_version [OF b(2)] row_step_id [OF b(2)] a(2) v eq b(1) d show ?thesis
    by (auto simp: dispatch_ok_def ad intro!: bexI [of _ b])
qed

lemma sys_inv_evolves:
  assumes inv: "sys_inv s" and e: "evolves (approvals (sdb s)) (approvals d')"
    and sub: "set ds \<subseteq> set (inflight s)"
  shows "sys_inv \<lparr>sdb = d', inflight = ds\<rparr>"
proof -
  have "list_all (dispatch_ok (approvals d')) ds"
    using inv sub evolves_dispatch_ok [OF e]
    by (auto simp: sys_inv_def Let_def list_all_iff)
  then show ?thesis
    using inv evolves_ids [OF e] evolves_row_ok [OF e] evolves_keys [OF e]
    by (simp add: sys_inv_def Let_def)
qed

lemma begun_evolves:
  assumes "sys_inv s" and "begun (sdb s) now actor a st d d'"
  shows "evolves (approvals (sdb s)) (approvals d')"
  using assms mark_dispatching_evolves [of "sdb s" a "a_id a" d now actor]
  by (auto simp: sys_inv_def Let_def begun_def)

lemma begun_row:
  assumes "begun s now actor a st d s'"
  obtains b where "b \<in> set (approvals s')" "a_id b = a_id a" "a_version b = a_version a + 1"
    "a_state b = ''dispatching''" "a_decision b = Some d" "a_decided_by b = Some (user_id actor)"
    "a_organization_id b = a_organization_id a"
proof (rule that)
  let ?b = "a\<lparr>a_state := ''dispatching'', a_decision := Some d,
    a_decided_by := Some (user_id actor), a_decided_at := Some now, a_version := a_version a + 1\<rparr>"
  have "a \<in> set (approvals s)"
    and "s' = mark_dispatching s now actor (a_id a) d (a_version a + 1)"
    using assms by (simp_all add: begun_def)
  then show "?b \<in> set (approvals s')"
    by (force simp: mark_dispatching_def update_approvals_def)
qed simp_all

lemma make_dispatchD:
  "make_dispatch from_str a inst resp v st d = Inr x \<Longrightarrow>
     d_approval_id x = a_id a \<and> d_dispatch_version x = v \<and> d_terminal_state x = st
     \<and> d_decision x = d \<and> d_response x = resp \<and> d_runtime_instance_id x = inst"
  by (auto simp: make_dispatch_def split: option.splits)

lemma sys_inv_begun:
  assumes inv: "sys_inv s" and b: "begun (sdb s) now actor a st d d'"
    and x: "make_dispatch from_str a inst resp (a_version a + 1) st d = Inr x"
  shows "sys_inv \<lparr>sdb = d', inflight = (actor, x) # inflight s\<rparr>"
proof -
  have "dispatch_ok (approvals d') (actor, x)"
  proof -
    obtain b where "b \<in> set (approvals d')" "a_id b = a_id a" "a_version b = a_version a + 1"
      "a_state b = ''dispatching''" "a_decision b = Some d"
      using begun_row [OF b] by metis
    then show ?thesis
      using make_dispatchD [OF x] b by (auto simp: dispatch_ok_def begun_def intro!: bexI [of _ b])
  qed
  with sys_inv_evolves [OF inv begun_evolves [OF inv b] subset_refl] show ?thesis
    by (simp add: sys_inv_def Let_def)
qed

section \<open>Every step keeps the invariant\<close>

lemma dispatch_row_settles:
  assumes inv: "sys_inv s" and d: "(actor, d) \<in> set (inflight s)"
    and row: "a \<in> set (approvals (sdb s))" "dispatch_row actor d a"
  shows "a_decision a = Some (d_decision d) \<and> legal_outcome (d_terminal_state d) (d_decision d)"
proof -
  from inv d have ok: "dispatch_ok (approvals (sdb s)) (actor, d)"
    and ids: "distinct (map a_id (approvals (sdb s)))"
    by (auto simp: sys_inv_def Let_def list_all_iff)
  from ok obtain b where b: "b \<in> set (approvals (sdb s))" "a_id b = d_approval_id d"
    "a_version b = d_dispatch_version d \<longrightarrow> a_decision b = Some (d_decision d)"
    by (auto simp: dispatch_ok_def)
  have "a = b"
    using distinct_id_eq [OF ids row(1) b(1)] row(2) b(2) by (simp add: dispatch_row_def)
  with b row(2) ok show ?thesis by (auto simp: dispatch_row_def dispatch_ok_def)
qed

lemma complete_evolves:
  assumes inv: "sys_inv s" and d: "(actor, d) \<in> set (inflight s)"
    and c: "complete_decision (sdb s) actor d = (r, d')"
  shows "evolves (approvals (sdb s)) (approvals d')"
proof -
  have "row_step a (a\<lparr>a_state := d_terminal_state d, a_version := a_version a + 1\<rparr>)"
    if "a \<in> set (approvals (sdb s))" "dispatch_row actor d a" for a
    using dispatch_row_settles [OF inv d that] that(2)
    by (intro row_complete [of a "d_decision d"]) (auto simp: dispatch_row_def)
  then have "evolves (approvals (sdb s)) (approvals (update_approvals (dispatch_row actor d)
      (\<lambda>a. a\<lparr>a_state := d_terminal_state d, a_version := a_version a + 1\<rparr>) (sdb s)))"
    by (rule evolves_update)
  with c show ?thesis
    by (auto simp: complete_decision_def Let_def insert_audit_def evolves_refl split: if_splits)
qed

lemma unknown_evolves:
  assumes "mark_delivery_unknown (sdb s) actor d = (r, d')"
  shows "evolves (approvals (sdb s)) (approvals d')"
proof -
  have "evolves (approvals (sdb s)) (approvals (update_approvals (dispatch_row actor d)
      (\<lambda>a. a\<lparr>a_state := ''delivery_unknown'', a_version := a_version a + 1\<rparr>) (sdb s)))"
    by (rule evolves_update, rule row_unknown) (simp add: dispatch_row_def)
  with assms show ?thesis
    by (auto simp: mark_delivery_unknown_def insert_audit_def)
qed

theorem approval_step_evolves:
  assumes "approval_step to_str from_str key s t" and inv: "sys_inv s"
  shows "evolves (approvals (sdb s)) (approvals (sdb t)) \<and> sys_inv t"
  using assms(1)
proof (cases rule: approval_step.cases)
  case (step_capture new_id now inst message r d')
  then have "evolves (approvals (sdb s)) (approvals d')"
    using inv capture_evolves by (auto simp: sys_inv_def Let_def)
  with sys_inv_evolves [OF inv this subset_refl] step_capture show ?thesis by (cases s) simp
next
  case (step_list now actor inst r d')
  then have "evolves (approvals (sdb s)) (approvals d')"
    using cancel_stale_evolves
    by (auto simp: list_pending_def Let_def split: prod.splits)
  with sys_inv_evolves [OF inv this subset_refl] step_list show ?thesis by (cases s) simp
next
  case (step_cancel_stale now inst n d')
  then have "evolves (approvals (sdb s)) (approvals d')"
    using cancel_stale_evolves [of "sdb s" key now inst] by simp
  with sys_inv_evolves [OF inv this subset_refl] step_cancel_stale show ?thesis by (cases s) simp
next
  case (step_resolve now inst thread_id request_id r d')
  then have "evolves (approvals (sdb s)) (approvals d')"
    using inv resolve_evolves by (auto simp: sys_inv_def Let_def)
  with sys_inv_evolves [OF inv this subset_refl] step_resolve show ?thesis by (cases s) simp
next
  case (step_begin now actor i inst decision version d d')
  from step_begin(2) show ?thesis
  proof (cases rule: begin_decisionD)
    case (begun a st dd resp)
    from begun_evolves [OF inv begun(1)] sys_inv_begun [OF inv begun(1) begun(5) [symmetric]]
    show ?thesis using step_begin(1) by (cases s) simp
  qed simp
next
  case (step_begin_input now actor i inst ans version d d')
  from step_begin_input(2) show ?thesis
  proof (cases rule: begin_user_input_responseD)
    case (begun a st dd resp)
    from begun_evolves [OF inv begun(1)] sys_inv_begun [OF inv begun(1) begun(5) [symmetric]]
    show ?thesis using step_begin_input(1) by (cases s) simp
  qed simp
next
  case (step_begin_failed now actor i inst decision version e d' ans)
  from step_begin_failed(2) have "evolves (approvals (sdb s)) (approvals d')"
  proof
    assume "begin_decision from_str key (sdb s) now actor i inst decision version = (Inl e, d')"
    then show ?thesis
      by (cases rule: begin_decisionD) (auto intro: evolves_refl begun_evolves [OF inv])
  next
    assume "begin_user_input_response from_str key (sdb s) now actor i inst ans version = (Inl e, d')"
    then show ?thesis
      by (cases rule: begin_user_input_responseD) (auto intro: evolves_refl begun_evolves [OF inv])
  qed
  with sys_inv_evolves [OF inv this subset_refl] step_begin_failed show ?thesis by (cases s) simp
next
  case (step_complete actor d r d')
  then have "evolves (approvals (sdb s)) (approvals d')"
    using complete_evolves [OF inv] by blast
  with sys_inv_evolves [OF inv this set_remove1_subset] step_complete show ?thesis by (cases s) simp
next
  case (step_unknown actor d r d')
  then have "evolves (approvals (sdb s)) (approvals d')"
    using unknown_evolves by blast
  with sys_inv_evolves [OF inv this set_remove1_subset] step_unknown show ?thesis by (cases s) simp
qed

section \<open>Optimistic locking as an interface\<close>

text \<open>
  What the clients of the table rely on: rows have a key and a version, a step leaves a
  row alone or is allowed to change it (\<open>live\<close>) and then counts its version up.
\<close>

locale versioned_rows =
  fixes step :: "'s \<Rightarrow> 's \<Rightarrow> bool" and inv :: "'s \<Rightarrow> bool" and rows :: "'s \<Rightarrow> 'r set"
    and rid :: "'r \<Rightarrow> 'k" and ver :: "'r \<Rightarrow> int" and live :: "'r \<Rightarrow> bool"
  assumes inv_step: "inv s \<Longrightarrow> step s t \<Longrightarrow> inv t"
    and unique: "inv s \<Longrightarrow> r \<in> rows s \<Longrightarrow> r' \<in> rows s \<Longrightarrow> rid r = rid r' \<Longrightarrow> r = r'"
    and row_moves: "inv s \<Longrightarrow> step s t \<Longrightarrow> r \<in> rows s \<Longrightarrow>
      \<exists>r' \<in> rows t. rid r' = rid r \<and> (r' = r \<or> live r \<and> ver r' = ver r + 1)"
begin

lemma inv_steps: "step\<^sup>*\<^sup>* s t \<Longrightarrow> inv s \<Longrightarrow> inv t"
  by (induction rule: rtranclp_induct) (auto intro: inv_step)

lemma row_persists:
  "step\<^sup>*\<^sup>* s t \<Longrightarrow> inv s \<Longrightarrow> r \<in> rows s \<Longrightarrow>
     \<exists>r' \<in> rows t. rid r' = rid r \<and> (r' = r \<or> live r \<and> ver r < ver r')"
proof (induction rule: rtranclp_induct)
  case (step t u)
  then obtain r' where r': "r' \<in> rows t" "rid r' = rid r" "r' = r \<or> live r \<and> ver r < ver r'"
    by blast
  from row_moves [OF inv_steps [OF step(1) step(4)] step(2) r'(1)] r'(2,3) show ?case
    by force
qed blast

lemma version_decides:
  assumes "step\<^sup>*\<^sup>* s t" "inv s" "r \<in> rows s" "r' \<in> rows t" "rid r' = rid r"
  shows "ver r \<le> ver r'" and "ver r' = ver r \<Longrightarrow> r' = r"
proof -
  obtain q where "q \<in> rows t" "rid q = rid r" "q = r \<or> live r \<and> ver r < ver q"
    using row_persists [OF assms(1-3)] by blast
  with unique [OF inv_steps [OF assms(1,2)], of q r'] assms(4,5)
  have "r' = r \<or> live r \<and> ver r < ver r'" by metis
  then show "ver r \<le> ver r'" and "ver r' = ver r \<Longrightarrow> r' = r" by auto
qed

lemma settled_stays: "step\<^sup>*\<^sup>* s t \<Longrightarrow> inv s \<Longrightarrow> r \<in> rows s \<Longrightarrow> \<not> live r \<Longrightarrow> r \<in> rows t"
  using row_persists by blast

end

lemma sys_inv_rows:
  "sys_inv s \<Longrightarrow> distinct (map a_id (approvals (sdb s))) \<and> list_all row_ok (approvals (sdb s))"
  by (simp add: sys_inv_def Let_def)

interpretation approval_rows: versioned_rows "approval_step to_str from_str key" sys_inv
  "\<lambda>s. set (approvals (sdb s))" a_id a_version "\<lambda>a. active_state (a_state a)"
  for to_str from_str key
proof unfold_locales
  fix s t assume s: "sys_inv s" "approval_step to_str from_str key s t"
  from approval_step_evolves [OF s(2,1)] show "sys_inv t" by simp
next
  fix s r r' assume "sys_inv s" "r \<in> set (approvals (sdb s))" "r' \<in> set (approvals (sdb s))"
    "a_id r = a_id r'"
  then show "r = r'" using distinct_id_eq sys_inv_rows by blast
next
  fix s t r assume s: "sys_inv s" "approval_step to_str from_str key s t" "r \<in> set (approvals (sdb s))"
  from approval_step_evolves [OF s(2,1)] evolves_rowD [OF _ s(3)]
  obtain b where b: "b \<in> set (approvals (sdb t))" "row_step r b" by blast
  from row_step_version [OF b(2)] row_step_id [OF b(2)] b(1)
  show "\<exists>r' \<in> set (approvals (sdb t)). a_id r' = a_id r \<and>
      (r' = r \<or> active_state (a_state r) \<and> a_version r' = a_version r + 1)"
    by auto
qed

end
