(* ===== verification/Approval_Properties.thy ===== *)
theory Approval_Properties
  imports Approval_Lifecycle
begin

text \<open>
  What the approval service promises: the optimistic lock, the immutability of decisions and
  outcomes, who may decide, the race with the runtime's own resolution, and the two filters
  on data that crosses the service (the stored payload and the answers of a user).
\<close>

section \<open>A small database\<close>

text \<open>One user, one run and one command approval, for evaluating the operations.\<close>

definition demo_to_str :: "json \<Rightarrow> string" where
  "demo_to_str j = (case j of JString s \<Rightarrow> CHR 0x22 # s @ [CHR 0x22] | _ \<Rightarrow> ''7'')"

definition demo_from_str :: "string \<Rightarrow> json option" where
  "demo_from_str s = (if s = ''7'' then Some (JNumber (PosInt 7)) else None)"

definition demo_actor :: approval_actor where
  "demo_actor = \<lparr>user_id = 1, organization_id = 2\<rparr>"

definition demo_message :: json where
  "demo_message = JObject [''method'' \<mapsto> JString COMMAND_APPROVAL, ''id'' \<mapsto> JNumber (PosInt 7),
     ''params'' \<mapsto> JObject [''threadId'' \<mapsto> JString ''t'', ''command'' \<mapsto> JString ''ls'']]"

definition demo_sys0 :: approval_sys where
  "demo_sys0 = \<lparr>sdb = \<lparr>
       profiles = [\<lparr>p_id = 3, p_organization_id = 2, p_owner_user_id = 1, p_runtime_key = ''k'',
                    p_status = ''active''\<rparr>],
       runs = [\<lparr>r_id = 4, r_organization_id = 2, r_codex_thread_id = Some ''t'', r_created_at = 0\<rparr>],
       approvals = [], audit_log = []\<rparr>, inflight = []\<rparr>"

definition demo_row :: approval where
  "demo_row = \<lparr>a_id = 5, a_run_id = 4, a_request_type = COMMAND_APPROVAL,
     a_request_payload = JObject [''threadId'' \<mapsto> JString ''t'', ''command'' \<mapsto> JString ''ls''],
     a_organization_id = Some 2, a_profile_id = Some 3, a_thread_id = Some ''t'',
     a_runtime_instance_id = Some 6, a_runtime_request_id = Some ''7'', a_state = ''pending'',
     a_version = 0, a_decision = None, a_decided_by = None, a_decided_at = None,
     a_created_at = 10\<rparr>"

definition demo_dispatch :: "approval_decision \<Rightarrow> approval_dispatch" where
  "demo_dispatch dec = \<lparr>d_approval_id = 5, d_runtime_instance_id = 6,
     d_runtime_request_id = JNumber (PosInt 7),
     d_response = JObject [''decision'' \<mapsto> JString (wire_decision dec)], d_dispatch_version = 1,
     d_terminal_state = fst (decision_states dec), d_decision = snd (decision_states dec)\<rparr>"

definition demo_sys1 :: approval_sys where
  "demo_sys1 = demo_sys0\<lparr>sdb := (sdb demo_sys0)\<lparr>approvals := [demo_row]\<rparr>\<rparr>"

definition demo_sys2 :: "approval_decision \<Rightarrow> approval_sys" where
  "demo_sys2 dec = demo_sys1\<lparr>sdb := (sdb demo_sys1)\<lparr>approvals := [demo_row\<lparr>
     a_state := ''dispatching'', a_decision := Some (snd (decision_states dec)),
     a_decided_by := Some 1, a_decided_at := Some 11, a_version := 1\<rparr>]\<rparr>,
     inflight := [(demo_actor, demo_dispatch dec)]\<rparr>"

definition demo_sys3 :: "approval_decision \<Rightarrow> approval_sys" where
  "demo_sys3 dec = \<lparr>sdb = snd (complete_decision (sdb (demo_sys2 dec)) demo_actor (demo_dispatch dec)),
     inflight = []\<rparr>"

lemmas demo_defs = demo_to_str_def demo_from_str_def demo_actor_def demo_message_def demo_sys0_def
  demo_row_def demo_dispatch_def demo_sys1_def demo_sys2_def demo_sys3_def

lemma demo_capture:
  "capture_message demo_to_str ''k'' (sdb demo_sys0) 10 5 6 demo_message =
     (Inr (Some 5), sdb demo_sys1)"
  by (simp add: demo_defs capture_message_def get_str_def approval_methods_def
      insert_approval_def newest_run_def last_opt_def approval_payload_def fun_eq_iff)

lemma demo_begin:
  "begin_decision demo_from_str ''k'' (sdb demo_sys1) 11 demo_actor 5 6 dec 0 =
     (Inr (demo_dispatch dec), sdb (demo_sys2 dec))"
  by (cases dec) (simp_all add: demo_defs begin_decision_def select_owned_def join_profiles_def
      approval_response_def runtime_response_def make_dispatch_def mark_dispatching_def
      update_approvals_def)

lemma demo_complete:
  "complete_decision (sdb (demo_sys2 dec)) demo_actor (demo_dispatch dec) = (Inr (), sdb (demo_sys3 dec))"
  by (simp add: demo_defs complete_decision_def count_approvals_def dispatch_row_def)

lemma demo_steps:
  "approval_step demo_to_str demo_from_str ''k'' demo_sys0 demo_sys1"
  "approval_step demo_to_str demo_from_str ''k'' demo_sys1 (demo_sys2 dec)"
  "approval_step demo_to_str demo_from_str ''k'' (demo_sys2 dec) (demo_sys3 dec)"
proof -
  have "demo_sys1 = demo_sys0\<lparr>sdb := sdb demo_sys1\<rparr>" by (simp add: demo_sys1_def)
  then show "approval_step demo_to_str demo_from_str ''k'' demo_sys0 demo_sys1"
    using step_capture [OF _ demo_capture, of demo_from_str] by (simp add: demo_sys0_def)
next
  have "demo_sys2 dec = demo_sys1\<lparr>sdb := sdb (demo_sys2 dec),
      inflight := (demo_actor, demo_dispatch dec) # inflight demo_sys1\<rparr>"
    by (simp add: demo_sys2_def demo_sys1_def demo_sys0_def)
  then show "approval_step demo_to_str demo_from_str ''k'' demo_sys1 (demo_sys2 dec)"
    using step_begin [OF demo_begin [of dec], of demo_to_str] by simp
next
  have "demo_sys3 dec = (demo_sys2 dec)\<lparr>sdb := sdb (demo_sys3 dec),
      inflight := remove1 (demo_actor, demo_dispatch dec) (inflight (demo_sys2 dec))\<rparr>"
    by (simp add: demo_sys3_def demo_sys2_def)
  moreover have "(demo_actor, demo_dispatch dec) \<in> set (inflight (demo_sys2 dec))"
    by (simp add: demo_sys2_def)
  ultimately show "approval_step demo_to_str demo_from_str ''k'' (demo_sys2 dec) (demo_sys3 dec)"
    using step_complete [OF _ demo_complete] by metis
qed

lemma approvals_update:
  "approvals (update_approvals P f s) = map (\<lambda>a. if P a then f a else a) (approvals s)"
  by (simp add: update_approvals_def)

lemma sys_inv_init: "approvals (sdb s) = [] \<Longrightarrow> inflight s = [] \<Longrightarrow> sys_inv s"
  by (simp add: sys_inv_def)

lemma demo_inv: "sys_inv demo_sys0" "sys_inv demo_sys1" "sys_inv (demo_sys2 dec)" "sys_inv (demo_sys3 dec)"
proof -
  show "sys_inv demo_sys0" by (rule sys_inv_init) (simp_all add: demo_sys0_def)
  with demo_steps(1) show "sys_inv demo_sys1" using approval_step_evolves by blast
  with demo_steps(2) show "sys_inv (demo_sys2 dec)" using approval_step_evolves by blast
  with demo_steps(3) show "sys_inv (demo_sys3 dec)" using approval_step_evolves by blast
qed

section \<open>Claims on interleavings\<close>

text \<open>
  C4. Whatever the order in which captures, listings, cancellations, resolutions, decisions
  and completions of many users are interleaved, from an empty table on: approval ids stay
  distinct, a runtime request is stored at most once, every row's state agrees with its
  decision, and every dispatch under way still matches its row or was overtaken by a later
  version of it.
\<close>

theorem approval_table_invariant:
  assumes "approvals (sdb s) = []" and "inflight s = []"
    and "(approval_step to_str from_str key)\<^sup>*\<^sup>* s t"
  shows "sys_inv t"
  using approval_rows.inv_steps [OF assms(3)] sys_inv_init [OF assms(1,2)] by blast

theorem approval_table_invariant_witness:
  "approvals (sdb demo_sys0) = [] \<and> inflight demo_sys0 = []
    \<and> (approval_step demo_to_str demo_from_str ''k'')\<^sup>*\<^sup>* demo_sys0 (demo_sys2 Cancel)
    \<and> sys_inv (demo_sys2 Cancel)"
proof -
  have "(approval_step demo_to_str demo_from_str ''k'')\<^sup>*\<^sup>* demo_sys0 (demo_sys2 Cancel)"
    using demo_steps(1,2) by (meson r_into_rtranclp rtranclp.rtrancl_into_rtrancl)
  with approval_table_invariant [of demo_sys0, OF _ _ this] show ?thesis by (simp add: demo_sys0_def)
qed

text \<open>
  C20. An approval that reached a terminal state (approved, rejected, answered or cancelled)
  is never changed again, by no operation and in no interleaving.
\<close>

theorem settled_approval_final:
  assumes "sys_inv s" and "(approval_step to_str from_str key)\<^sup>*\<^sup>* s t"
    and "a \<in> set (approvals (sdb s))" and "\<not> active_state (a_state a)"
  shows "a \<in> set (approvals (sdb t))"
  using approval_rows.settled_stays [OF assms(2,1,3,4)] .

lemma demo_steps_23: "(approval_step demo_to_str demo_from_str ''k'')\<^sup>*\<^sup>* (demo_sys2 dec) (demo_sys3 dec)"
  using demo_steps(3) by blast

lemma stale_step: "approval_step to_str from_str key s
    (s\<lparr>sdb := snd (cancel_stale_runtime_requests key (sdb s) now inst)\<rparr>)"
  by (rule step_cancel_stale [of key s now inst]) (rule surjective_pairing)

theorem settled_approval_final_witness:
  "demo_row\<lparr>a_state := ''approved'', a_decision := Some ''approved'', a_decided_by := Some 1,
      a_decided_at := Some 11, a_version := 2\<rparr>
    \<in> set (approvals (snd (cancel_stale_runtime_requests ''k'' (sdb (demo_sys3 Accept)) 20 99)))"
proof -
  let ?t = "(demo_sys3 Accept)\<lparr>sdb :=
    snd (cancel_stale_runtime_requests ''k'' (sdb (demo_sys3 Accept)) 20 99)\<rparr>"
  have "(approval_step demo_to_str demo_from_str ''k'')\<^sup>*\<^sup>* (demo_sys3 Accept) ?t"
    using stale_step by blast
  from settled_approval_final [OF demo_inv(4) this, of "demo_row\<lparr>a_state := ''approved'',
      a_decision := Some ''approved'', a_decided_by := Some 1, a_decided_at := Some 11,
      a_version := 2\<rparr>"] show ?thesis
    by (simp add: demo_defs complete_decision_def dispatch_row_def update_approvals_def
      count_approvals_def insert_audit_def)
qed

lemma row_ok_pending: "row_ok a \<Longrightarrow> a_state a = ''pending'' \<Longrightarrow> a_decision a = None"
  by (cases "a_decision a") (auto simp: row_ok_def legal_decision_def)

lemma row_step_decision: "row_step a b \<Longrightarrow> row_ok a \<Longrightarrow> a_decision a = Some d \<Longrightarrow> a_decision b = Some d"
  by (induction rule: row_step.induct) (auto dest: row_ok_pending)

lemma decision_kept_step:
  assumes "sys_inv s" "approval_step to_str from_str key s t"
    and "a \<in> set (approvals (sdb s))" "a_decision a = Some d"
  shows "\<exists>b \<in> set (approvals (sdb t)). a_id b = a_id a \<and> a_decision b = Some d"
proof -
  from approval_step_evolves [OF assms(2,1)] evolves_rowD [OF _ assms(3)]
  obtain b where b: "b \<in> set (approvals (sdb t))" "row_step a b" by blast
  moreover have "row_ok a" using assms(1,3) sys_inv_rows by (auto simp: list_all_iff)
  ultimately show ?thesis
    using row_step_decision [OF b(2) _ assms(4)] row_step_id [OF b(2)] by blast
qed

text \<open>
  C9. The recorded decision of an approval never changes: a delivery that has to be retried
  is retried with the decision first taken.
\<close>

theorem decision_immutable:
  assumes "(approval_step to_str from_str key)\<^sup>*\<^sup>* s t" and "sys_inv s"
    and "a \<in> set (approvals (sdb s))" and "a_decision a = Some d"
  shows "\<exists>b \<in> set (approvals (sdb t)). a_id b = a_id a \<and> a_decision b = Some d"
  using assms(1)
proof (induction rule: rtranclp_induct)
  case (step t u)
  then obtain b where "b \<in> set (approvals (sdb t))" "a_id b = a_id a" "a_decision b = Some d"
    by blast
  with decision_kept_step [OF approval_rows.inv_steps [OF step(1) assms(2)] step(2)]
  show ?case by metis
qed (use assms in blast)

theorem decision_immutable_witness:
  "\<exists>b \<in> set (approvals (sdb (demo_sys3 Decline))). a_id b = 5 \<and> a_decision b = Some ''rejected''"
  using decision_immutable [OF demo_steps_23 [of Decline] demo_inv(3),
      of "hd (approvals (sdb (demo_sys2 Decline)))" "''rejected''"]
  by (simp add: demo_sys2_def demo_row_def)

text \<open>
  C13. A version of an approval is decided at most once: after a decision with expected
  version \<open>v\<close> has been accepted, every later decision or answer that expects \<open>v\<close>, of
  whatever user and content and however many transactions later, is refused and leaves
  the database as it is.
\<close>

theorem version_decided_once:
  assumes inv: "sys_inv s"
    and first: "begin_decision from_str key (sdb s) now actor i inst dec v = (Inr d, d')"
    and later: "(approval_step to_str from_str key)\<^sup>*\<^sup>*
      (s\<lparr>sdb := d', inflight := (actor, d) # inflight s\<rparr>) t"
  shows "(\<exists>e. begin_decision from_str key (sdb t) now2 actor2 i inst2 dec2 v = (Inl e, sdb t))
    \<and> (\<exists>e. begin_user_input_response from_str key (sdb t) now2 actor2 i inst2 ans v = (Inl e, sdb t))"
proof -
  let ?s1 = "s\<lparr>sdb := d', inflight := (actor, d) # inflight s\<rparr>"
  have inv1: "sys_inv ?s1"
    using approval_step_evolves [OF step_begin [OF first] inv] by simp
  obtain a st dd where begun: "begun (sdb s) now actor a st dd d'" "a_id a = i" "a_version a = v"
    using first by (cases rule: begin_decisionD) auto
  obtain b where b: "b \<in> set (approvals d')" "a_id b = i" "a_version b = v + 1"
    using begun_row [OF begun(1)] begun(2,3) by metis
  have newer: "a_version c \<noteq> v" if "c \<in> set (approvals (sdb t))" "a_id c = i" for c
    using approval_rows.version_decides(1) [OF later inv1, of b c] b that by simp
  show ?thesis
  proof (cases "select_owned key (sdb t) actor2 i")
    case None
    then show ?thesis by (simp add: begin_decision_def begin_user_input_response_def)
  next
    case (Some c)
    from select_ownedD [OF this] newer have "a_version c \<noteq> v" by blast
    with Some show ?thesis by (simp add: begin_decision_def begin_user_input_response_def)
  qed
qed

theorem version_decided_once_witness:
  "begin_decision demo_from_str ''k'' (sdb demo_sys1) 11 demo_actor 5 6 Accept 0 =
      (Inr (demo_dispatch Accept), sdb (demo_sys2 Accept))
    \<and> (\<exists>e. begin_decision demo_from_str ''k'' (sdb (demo_sys3 Accept)) 12 demo_actor 5 6 Decline 0
          = (Inl e, sdb (demo_sys3 Accept)))"
proof -
  have "demo_sys1\<lparr>sdb := sdb (demo_sys2 Accept),
      inflight := (demo_actor, demo_dispatch Accept) # inflight demo_sys1\<rparr> = demo_sys2 Accept"
    by (simp add: demo_sys2_def demo_sys1_def demo_sys0_def)
  with version_decided_once [OF demo_inv(2) demo_begin [of Accept], of demo_to_str "demo_sys3 Accept"]
    demo_steps_23 [of Accept] demo_begin [of Accept] show ?thesis by simp
qed

section \<open>Claims on single operations\<close>

text \<open>The row a decision is about, before and after \<open>begin_decision\<close>.\<close>

definition decided_row :: "approval_actor \<Rightarrow> timestamp \<Rightarrow> approval_dispatch \<Rightarrow> approval \<Rightarrow> approval" where
  "decided_row actor now d b = b\<lparr>a_state := ''dispatching'', a_decision := Some (d_decision d),
     a_decided_by := Some (user_id actor), a_decided_at := Some now,
     a_version := d_dispatch_version d\<rparr>"

lemma begin_decision_effect:
  assumes "begin_decision from_str key s now actor i inst dec v = (Inr d, s')"
  obtains a p where "a \<in> set (approvals s)" "p \<in> set (profiles s)" "a_id a = i"
    "a_profile_id a = Some (p_id p)" "p_owner_user_id p = user_id actor" "p_runtime_key p = key"
    "a_organization_id a = Some (organization_id actor)"
    "a_runtime_instance_id a = Some inst" "a_version a = v"
    "approval_response (a_request_type a) (a_request_payload a) dec
        = Inr (d_response d, d_terminal_state d, d_decision d)"
    "d_approval_id d = i" "d_dispatch_version d = v + 1"
    "s' = update_approvals (\<lambda>b. a_id b = i) (decided_row actor now d) s"
proof (cases "select_owned key s actor i")
  case None
  with assms show ?thesis by (simp add: begin_decision_def)
next
  case (Some a)
  from assms Some obtain resp st dd where
    chk: "a_runtime_instance_id a = Some inst" "a_version a = v"
      "approval_response (a_request_type a) (a_request_payload a) dec = Inr (resp, st, dd)"
    and d: "make_dispatch from_str a inst resp (v + 1) st dd = Inr d"
    and s': "s' = mark_dispatching s now actor i dd (v + 1)"
    by (auto simp: begin_decision_def split: if_splits sum.splits prod.splits)
  note a = select_ownedD [OF Some]
  note d = make_dispatchD [OF d]
  from a obtain p where p: "p \<in> set (profiles s)" "a_profile_id a = Some (p_id p)"
    "p_owner_user_id p = user_id actor" "p_runtime_key p = key" by blast
  have "s' = update_approvals (\<lambda>b. a_id b = i) (decided_row actor now d) s"
    unfolding s' mark_dispatching_def decided_row_def using d by simp
  with a d chk p show ?thesis by (intro that [of a p]) simp_all
qed

lemma begin_decision_states:
  assumes "begin_decision from_str key s now actor i inst dec v = (Inr d, s')"
  shows "decision_states dec = (d_terminal_state d, d_decision d)"
  by (rule begin_decision_effect [OF assms]) (simp add: approval_response_def bindR_eq_Inr)



lemma map_if_twice:
  "(\<And>x. x \<in> set xs \<Longrightarrow> P x \<Longrightarrow> Q (f x)) \<Longrightarrow> (\<And>x. x \<in> set xs \<Longrightarrow> \<not> P x \<Longrightarrow> \<not> Q x) \<Longrightarrow>
     map (\<lambda>x. if Q x then g x else x) (map (\<lambda>x. if P x then f x else x) xs) =
     map (\<lambda>x. if P x then g (f x) else x) xs"
  by (induction xs) auto

lemma count_id:
  "distinct (map a_id as) \<Longrightarrow> a \<in> set as \<Longrightarrow> length (filter (\<lambda>x. a_id x = a_id a) as) = 1"
proof (induction as)
  case (Cons b as)
  then show ?case
    by (cases "a_id b = a_id a") (auto simp: filter_empty_conv image_iff)
qed simp

lemma dispatch_row_begun:
  assumes ids: "distinct (map a_id (approvals s))"
    and b: "begin_decision from_str key s now actor i inst dec v = (Inr d, s1)"
  shows "count_approvals (dispatch_row actor d) s1 = 1"
    and "approvals (update_approvals (dispatch_row actor d)
        (\<lambda>a. a\<lparr>a_state := st, a_version := a_version a + 1\<rparr>) s1) =
      map (\<lambda>a. if a_id a = i then (decided_row actor now d a)\<lparr>a_state := st, a_version := v + 2\<rparr>
        else a) (approvals s)"
proof -
  let ?f = "decided_row actor now d"
  obtain a where a: "a \<in> set (approvals s)" "a_id a = i"
      "a_organization_id a = Some (organization_id actor)"
    and d: "d_approval_id d = i" "d_dispatch_version d = v + 1"
    and s1: "s1 = update_approvals (\<lambda>b. a_id b = i) ?f s"
    by (rule begin_decision_effect [OF b]) (rule that)
  have row: "dispatch_row actor d (?f x)" if "x \<in> set (approvals s)" "a_id x = i" for x
    using distinct_id_eq [OF ids that(1) a(1)] that(2) a d
    by (simp add: dispatch_row_def decided_row_def)
  have other: "\<not> dispatch_row actor d x" if "a_id x \<noteq> i" for x
    using that d by (simp add: dispatch_row_def)
  have "filter (dispatch_row actor d) (map (\<lambda>b. if a_id b = i then ?f b else b) as) =
      map ?f (filter (\<lambda>x. a_id x = i) as)" if "set as \<subseteq> set (approvals s)" for as
    using that by (induction as) (simp_all add: row other)
  then show "count_approvals (dispatch_row actor d) s1 = 1"
    using count_id [OF ids a(1)] a(2) by (simp add: count_approvals_def s1 update_approvals_def)
  have twice: "map (\<lambda>x. if dispatch_row actor d x then g x else x)
      (map (\<lambda>x. if a_id x = i then ?f x else x) (approvals s)) =
      map (\<lambda>x. if a_id x = i then g (?f x) else x) (approvals s)" for g
    by (rule map_if_twice) (simp_all add: row other)
  have version: "a_version (?f x) = v + 1" for x by (simp add: decided_row_def d)
  show "approvals (update_approvals (dispatch_row actor d)
        (\<lambda>a. a\<lparr>a_state := st, a_version := a_version a + 1\<rparr>) s1) =
      map (\<lambda>a. if a_id a = i then (?f a)\<lparr>a_state := st, a_version := v + 2\<rparr>
        else a) (approvals s)"
    unfolding update_approvals_def s1 by (simp add: twice version del: map_map)
qed

text \<open>
  C31. A decision that nothing interferes with: when the runtime took the response the caller
  gets 204, the row is in the decision's terminal state and one success entry is in the audit
  log; when delivery failed the caller gets 502, the row is \<open>delivery_unknown\<close> (so the same
  decision can be sent again) and the log says so. No other row changes.
\<close>

theorem decide_uninterrupted:
  assumes ids: "distinct (map a_id (approvals s))"
    and b: "begin_decision from_str key s now actor i inst dec v = (Inr d, s1)"
    and dec: "decide delivered from_str key s now actor i inst dec v = (status, s')"
  shows "let ok = delivered (d_runtime_request_id d) (d_response d);
             st = (if ok then fst (decision_states dec) else ''delivery_unknown'') in
    status = (if ok then 204 else 502)
    \<and> audit_log s' = audit_log s @ [\<lparr>au_organization_id = organization_id actor,
        au_actor_id = user_id actor, au_target_id = i, au_decision = snd (decision_states dec),
        au_outcome = (if ok then ''success'' else ''delivery_unknown'')\<rparr>]
    \<and> approvals s' = map (\<lambda>a. if a_id a = i then
        (decided_row actor now d a)\<lparr>a_state := st, a_version := v + 2\<rparr> else a) (approvals s)"
proof -
  have d: "d_approval_id d = i" "audit_log s1 = audit_log s"
    by (rule begin_decision_effect [OF b], simp add: update_approvals_def)+
  note simps = decide_def finish_dispatch_def mark_delivery_unknown_def complete_decision_def
    Let_def insert_audit_def dispatch_row_begun [OF ids b] d begin_decision_states [OF b] b
  show ?thesis
  proof (cases "delivered (d_runtime_request_id d) (d_response d)")
    case True
    with dec show ?thesis by (auto simp: simps) (simp_all add: update_approvals_def d)
  next
    case False
    with dec show ?thesis by (auto simp: simps) (simp_all add: update_approvals_def d)
  qed
qed

theorem decide_uninterrupted_witness:
  "decide (\<lambda>_ _. True) demo_from_str ''k'' (sdb demo_sys1) 11 demo_actor 5 6 Accept 0 =
      (204, sdb (demo_sys3 Accept))
    \<and> length (audit_log (sdb (demo_sys3 Accept))) = 1"
proof -
  have run: "decide (\<lambda>_ _. True) demo_from_str ''k'' (sdb demo_sys1) 11 demo_actor 5 6 Accept 0 =
      (204, sdb (demo_sys3 Accept))"
    by (simp add: decide_def finish_dispatch_def demo_begin demo_complete)
  have "distinct (map a_id (approvals (sdb demo_sys1)))" by (simp add: demo_sys1_def)
  from decide_uninterrupted [OF this demo_begin run] run show ?thesis
    by (simp add: demo_sys1_def demo_sys0_def)
qed

lemma resolve_SomeD:
  assumes "resolve_runtime_request to_str key s now inst t rid = (Inr (Some r), s')"
  obtains a where "a \<in> set (approvals s)" "a_id a = ra_approval_id r"
    "\<And>st. resolved_terminal_state (a_state a) (a_decision a) = Some st \<Longrightarrow>
       s' = update_approvals (\<lambda>r. a_id r = a_id a) (settle now st) s"
proof (cases "find (\<lambda>(a, p). p_runtime_key p = key \<and> a_runtime_instance_id a = Some inst
     \<and> a_thread_id a = Some t
     \<and> a_runtime_request_id a = Some (to_str rid)) (join_profiles s)")
  case None
  with assms show ?thesis by (simp add: resolve_runtime_request_def split: if_splits)
next
  case (Some x)
  obtain a p where x: "x = (a, p)" by (cases x)
  have a: "a \<in> set (approvals s)" using find_SomeD [OF Some] x join_profilesD by blast
  note res = assms [unfolded resolve_runtime_request_def Let_def Some x, simplified]
  show ?thesis
  proof (rule that [OF a])
    show "a_id a = ra_approval_id r"
      using res by (auto split: if_splits option.splits)
    show "s' = update_approvals (\<lambda>r. a_id r = a_id a) (settle now st) s"
      if "resolved_terminal_state (a_state a) (a_decision a) = Some st" for st
      using res that by (simp add: settle_def [abs_def] split: if_splits option.splits)
  qed
qed

lemma begun_decision_legal:
  assumes "begin_decision from_str key s now actor i inst dec v = (Inr d, s')"
  shows "d_decision d \<in> {''approved'', ''rejected''}"
    and "d_terminal_state d = d_decision d \<longleftrightarrow> dec \<noteq> Cancel"
proof -
  have "d_terminal_state d = fst (decision_states dec)" "d_decision d = snd (decision_states dec)"
    using begin_decision_states [OF assms] by simp_all
  then show "d_decision d \<in> {''approved'', ''rejected''}"
    and "d_terminal_state d = d_decision d \<longleftrightarrow> dec \<noteq> Cancel"
    by (cases dec, simp_all)+
qed

text \<open>The table when the runtime resolves a request whose decision is on its way.\<close>

lemma resolve_dispatching:
  assumes b: "begin_decision from_str key s now actor i inst dec v = (Inr d, s1)"
    and r: "resolve_runtime_request to_str key s1 now2 inst t rid = (Inr (Some x), s2)"
      "ra_approval_id x = i"
  shows "approvals s2 =
    map (\<lambda>b. if a_id b = i then settle now2 (d_decision d) (decided_row actor now d b) else b)
      (approvals s)"
proof -
  let ?f = "decided_row actor now d"
  have s1: "s1 = update_approvals (\<lambda>b. a_id b = i) ?f s"
    by (rule begin_decision_effect [OF b])
  obtain c where c: "c \<in> set (approvals s1)" "a_id c = ra_approval_id x"
    and "\<And>st. resolved_terminal_state (a_state c) (a_decision c) = Some st \<Longrightarrow>
       s2 = update_approvals (\<lambda>r. a_id r = a_id c) (settle now2 st) s1"
    by (rule resolve_SomeD [OF r(1)]) (rule that)
  with r(2) have s2: "\<And>st. resolved_terminal_state (a_state c) (a_decision c) = Some st \<Longrightarrow>
       s2 = update_approvals (\<lambda>r. a_id r = i) (settle now2 st) s1"
    by simp
  have "a_state c = ''dispatching'' \<and> a_decision c = Some (d_decision d)"
  proof -
    from c(1) obtain p where "c = (if a_id p = i then ?f p else p)"
      unfolding s1 approvals_update set_map by (rule imageE)
    then show ?thesis using c(2) r(2) by (cases "a_id p = i") (simp_all add: decided_row_def)
  qed
  then have s2': "s2 = update_approvals (\<lambda>r. a_id r = i) (settle now2 (d_decision d)) s1"
    using begun_decision_legal(1) [OF b] by (intro s2) (auto simp: resolved_terminal_state_def)
  show ?thesis
    unfolding s2' s1 approvals_update by (rule map_if_twice) (simp_all add: decided_row_def)
qed

text \<open>
  C32. The runtime may report a request as resolved between the moment a decision was sent and
  the moment its completion is recorded. For every decision but \<open>Cancel\<close> the completion still
  succeeds; for \<open>Cancel\<close> it is answered with \<open>Conflict\<close>, although the runtime took the
  decision: the resolution stores \<open>rejected\<close> (the recorded decision) where the completion
  expects \<open>cancelled\<close>.
\<close>

theorem resolution_overtakes_completion:
  assumes b: "begin_decision from_str key s now actor i inst dec v = (Inr d, s1)"
    and r: "resolve_runtime_request to_str key s1 now2 inst t rid = (Inr (Some x), s2)"
      "ra_approval_id x = i"
  shows "fst (complete_decision s2 actor d) = (if dec = Cancel then Inl Conflict else Inr ())"
proof -
  let ?f = "decided_row actor now d"
  obtain a where a: "a \<in> set (approvals s)" "a_id a = i"
      "a_organization_id a = Some (organization_id actor)"
    and d: "d_approval_id d = i"
    by (rule begin_decision_effect [OF b]) (rule that)
  note leg = begun_decision_legal [OF b] and map2 = resolve_dispatching [OF b r]
  have rows: "a_state q = d_decision d \<and> a_decision q = Some (d_decision d)"
    if q: "q \<in> set (approvals s2)" "a_id q = i" for q
  proof -
    from q(1) obtain p where p: "q = (if a_id p = i then settle now2 (d_decision d) (?f p) else p)"
      unfolding map2 set_map by (rule imageE)
    then show ?thesis using q(2) by (cases "a_id p = i") (simp_all add: settle_def decided_row_def)
  qed
  have none: "\<not> dispatch_row actor d q" if "q \<in> set (approvals s2)" for q
    using rows [OF that] leg(1) d by (auto simp: dispatch_row_def)
  have "settle now2 (d_decision d) (?f a) \<in> set (approvals s2)"
    unfolding map2 set_map using a(2) by (intro image_eqI [OF _ a(1)]) simp
  moreover have "a_id (settle now2 (d_decision d) (?f a)) = i"
    "a_organization_id (settle now2 (d_decision d) (?f a)) = Some (organization_id actor)"
    using a(2,3) by (simp_all add: settle_def decided_row_def)
  ultimately have orgs: "\<exists>q \<in> set (approvals s2). a_id q = i
      \<and> a_organization_id q = Some (organization_id actor)" by blast
  have "map (\<lambda>a. if dispatch_row actor d a then g a else a) (approvals s2) = approvals s2" for g
    using none by (simp add: map_idI)
  moreover have "filter (dispatch_row actor d) (approvals s2) = []"
    using none by (simp add: filter_empty_conv)
  moreover have "list_ex (\<lambda>q. a_id q = i \<and> a_organization_id q = Some (organization_id actor)
      \<and> a_state q = d_terminal_state d \<and> a_decision q = Some (d_decision d)) (approvals s2)
      = (d_terminal_state d = d_decision d)"
    unfolding list_ex_iff using rows orgs by metis
  ultimately show ?thesis
    by (simp add: complete_decision_def Let_def count_approvals_def update_approvals_def d leg(2))
qed

theorem resolution_overtakes_completion_witness:
  "fst (complete_decision (snd (resolve_runtime_request demo_to_str ''k'' (sdb (demo_sys2 Cancel)) 12 6
      ''t'' (JNumber (PosInt 7)))) demo_actor (demo_dispatch Cancel)) = Inl Conflict"
proof -
  have "trim ''t'' = ''t''" by code_simp
  then obtain x s2 where "resolve_runtime_request demo_to_str ''k'' (sdb (demo_sys2 Cancel)) 12 6
      ''t'' (JNumber (PosInt 7)) = (Inr (Some x), s2)" and "ra_approval_id x = 5"
    by (simp add: demo_defs resolve_runtime_request_def join_profiles_def non_empty_def
        resolved_terminal_state_def approval_outcome_of_def active_state_def Let_def)
  from resolution_overtakes_completion [OF demo_begin this] this show ?thesis by simp
qed

definition payload_keys :: "string \<Rightarrow> string list" where
  "payload_keys ty =
     [''threadId'', ''turnId'', ''itemId'', ''reason'', ''startedAtMs'']
     @ (if ty = COMMAND_APPROVAL then [''command''] else [])
     @ (if ty = PERMISSIONS_APPROVAL then [''permissions''] else [])
     @ (if ty = MCP_ELICITATION_REQUEST
        then [''serverName'', ''mode'', ''message'', ''requestedSchema'', ''url''] else [])
     @ (if ty = USER_INPUT_REQUEST then [''questions'', ''autoResolutionMs''] else [])"

lemma copy_keys_apply:
  "copy_keys params ks m k =
     (if k \<in> set ks \<and> json_get k params \<noteq> None then json_get k params else m k)"
  by (induction ks arbitrary: m) (auto split: option.splits)

lemma copy_keys_append: "copy_keys params (ks @ ls) m = copy_keys params ls (copy_keys params ks m)"
  by (induction ks arbitrary: m) simp_all

lemma approval_payload_keys: "approval_payload ty params = JObject (copy_keys params (payload_keys ty) Map.empty)"
  unfolding approval_payload_def payload_keys_def Let_def copy_keys_append by simp

text \<open>
  The payload stored with an approval is a whitelist: a field of the runtime's parameters
  is stored, unchanged, exactly when the kind of request allows it, and everything else the
  runtime sent is dropped.
\<close>

lemma approval_payload_whitelist:
  "json_get k (approval_payload ty params) = (if k \<in> set (payload_keys ty) then json_get k params else None)"
  unfolding approval_payload_keys by (simp add: copy_keys_apply)

definition answers_within_limits :: "string set \<Rightarrow> answers \<Rightarrow> bool" where
  "answers_within_limits ids ans \<longleftrightarrow>
     ids \<noteq> {} \<and> set (map fst ans) = ids
     \<and> (\<forall>(k, vs) \<in> set ans. 1 \<le> length vs \<and> length vs \<le> 20
          \<and> (\<forall>v \<in> set vs. CHR 0x00 \<notin> set v \<and> length v \<le> 4096))
     \<and> sum_list (map (\<lambda>(k, vs). sum_list (map length vs)) ans) \<le> 64 * 1024"

lemma answer_values_ok_iff:
  "answer_values_ok vs \<longleftrightarrow> (\<forall>v \<in> set vs. CHR 0x00 \<notin> set v \<and> length v \<le> 4096)"
  by (induction vs) auto

lemma fold_saturating:
  "n \<le> usize_max \<Longrightarrow>
     fold (\<lambda>v acc. saturating_add acc (length v)) vs n = saturating_add n (sum_list (map length vs))"
  by (induction vs arbitrary: n) (simp_all add: saturating_add_le saturating_add_assoc)

lemma total_bytes_saturating:
  "n \<le> usize_max \<Longrightarrow>
     total_bytes n ans = saturating_add n (sum_list (map (\<lambda>(k, vs). sum_list (map length vs)) ans))"
  by (induction n ans rule: total_bytes.induct)
    (simp_all add: fold_saturating saturating_add_le saturating_add_assoc)

lemma saturating_add_limit: "n \<le> usize_max \<Longrightarrow> saturating_add 0 m \<le> n \<longleftrightarrow> m \<le> n \<or> n = usize_max"
  by (auto simp: saturating_add_def min_def)

lemma keys_cover:
  assumes "finite ids" and "distinct (map fst ans)"
  shows "length ans = card ids \<and> list_all (\<lambda>(k, vs). k \<in> ids) ans \<longleftrightarrow> set (map fst ans) = ids"
proof -
  have card: "card (set (map fst ans)) = length ans"
    using distinct_card [OF assms(2)] by simp
  have sub: "list_all (\<lambda>(k, vs). k \<in> ids) ans \<longleftrightarrow> set (map fst ans) \<subseteq> ids"
    by (auto simp: list_all_iff)
  show ?thesis
  proof
    assume "length ans = card ids \<and> list_all (\<lambda>(k, vs). k \<in> ids) ans"
    with card sub show "set (map fst ans) = ids" by (intro card_subset_eq [OF assms(1)]) simp_all
  next
    assume "set (map fst ans) = ids"
    with card sub show "length ans = card ids \<and> list_all (\<lambda>(k, vs). k \<in> ids) ans" by simp
  qed
qed

text \<open>
  C34. The answers of a user are accepted exactly when they answer every question of the stored
  request and nothing else, with one to twenty values each, no value longer than 4096 bytes or
  holding a NUL byte, and no more than 64 KiB in all; the saturating byte count never hides an
  overflow.
\<close>

theorem validate_user_input_answers_exact:
  assumes "distinct (map fst ans)"
  shows "validate_user_input_answers payload ans = Inr () \<longleftrightarrow>
    (\<exists>qs. Option.bind (json_get ''questions'' payload) as_array = Some qs
       \<and> answers_within_limits (question_ids qs) ans)"
proof (cases "Option.bind (json_get ''questions'' payload) as_array")
  case None
  then show ?thesis by (simp add: validate_user_input_answers_def ok_or_def)
next
  case (Some qs)
  have fin: "finite (question_ids qs)" by (simp add: question_ids_def)
  have big: "total_bytes 0 ans \<le> 65536 \<longleftrightarrow>
      sum_list (map (\<lambda>(k, vs). sum_list (map length vs)) ans) \<le> 65536"
    using total_bytes_saturating [of 0 ans] saturating_add_limit [of 65536]
    by (simp add: usize_max_def)
  have vals: "list_all (\<lambda>(_, vs). vs \<noteq> [] \<and> length vs \<le> 20 \<and> answer_values_ok vs) ans \<longleftrightarrow>
      (\<forall>(k, vs) \<in> set ans. 1 \<le> length vs \<and> length vs \<le> 20
          \<and> (\<forall>v \<in> set vs. CHR 0x00 \<notin> set v \<and> length v \<le> 4096))"
    by (simp add: list_all_iff answer_values_ok_iff Suc_le_eq)
  have "validate_user_input_answers payload ans = Inr () \<longleftrightarrow> question_ids qs \<noteq> {}
      \<and> (length ans = card (question_ids qs) \<and> list_all (\<lambda>(k, vs). k \<in> question_ids qs) ans)
      \<and> list_all (\<lambda>(_, vs). vs \<noteq> [] \<and> length vs \<le> 20 \<and> answer_values_ok vs) ans
      \<and> total_bytes 0 ans \<le> 65536"
    using Some by (auto simp: validate_user_input_answers_def ok_or_def Let_def not_less)
  then show ?thesis
    unfolding keys_cover [OF fin assms] vals big using Some by (simp add: answers_within_limits_def)
qed

theorem validate_user_input_answers_exact_witness:
  "validate_user_input_answers
     (JObject [''questions'' \<mapsto> JArray [JObject [''id'' \<mapsto> JString ''q'']]]) [(''q'', [''yes''])] = Inr ()"
  using validate_user_input_answers_exact [of "[(''q'', [''yes''])]"
      "JObject [''questions'' \<mapsto> JArray [JObject [''id'' \<mapsto> JString ''q'']]]"]
  by (auto simp: answers_within_limits_def question_ids_def get_str_def map_filter_simps)

lemma existing_unique:
  assumes inv: "distinct (filter (\<lambda>k. k \<noteq> None) (map request_key as))"
    and "a \<in> set as" "b \<in> set as" "same_request p i r a" "same_request p i r b"
  shows "a = b"
proof -
  have "request_key a = Some (p, i, r)" "request_key b = Some (p, i, r)"
    using assms(4,5) by (simp_all add: same_request_def request_key_def)
  with assms(1-3) show ?thesis
  proof (induction as)
    case (Cons c as)
    then show ?case by (auto split: if_splits) (metis image_eqI option.distinct(1))+
  qed simp
qed

lemma newest_run_approvals [simp]: "newest_run key t (s\<lparr>approvals := as\<rparr>) = newest_run key t s"
  by (simp add: newest_run_def)

lemma last_opt_in_set: "last_opt xs = Some x \<Longrightarrow> x \<in> set xs"
  by (auto simp: last_opt_def split: if_splits)

lemma newest_runD:
  assumes "newest_run key t s = Some (p, r)"
  shows "p \<in> set (profiles s) \<and> p_runtime_key p = key"
  using last_opt_in_set [OF assms [unfolded newest_run_def Let_def]] by (auto split: if_splits)

lemma capture_messageE:
  assumes "capture_message to_str key s now new_id inst message = (Inr (Some i), s')"
  obtains meth request_id params thread_id where
    "get_str ''method'' message = Some meth" "meth \<in> set approval_methods"
    "json_get ''id'' message = Some request_id" "is_request_id request_id"
    "json_get ''params'' message = Some params" "get_str ''threadId'' params = Some thread_id"
    "thread_id \<noteq> []"
proof -
  from assms show ?thesis
    unfolding capture_message_def Let_def
    by (auto split: option.splits if_splits intro: that)
qed

lemma capture_message_eq:
  assumes "get_str ''method'' message = Some meth" "meth \<in> set approval_methods"
    "json_get ''id'' message = Some request_id" "is_request_id request_id"
    "json_get ''params'' message = Some params" "get_str ''threadId'' params = Some thread_id"
    "thread_id \<noteq> []"
  shows "capture_message to_str key s now new_id inst message =
    (case insert_approval key s now new_id inst meth (approval_payload meth params) thread_id
            (to_str request_id) of
       (Some i, s') \<Rightarrow> (Inr (Some i), s')
     | (None, s') \<Rightarrow> (case existing_approval key s' inst (to_str request_id) of
          Some i \<Rightarrow> (Inr (Some i), s') | None \<Rightarrow> (Inl NotFound, s')))"
  using assms by (auto simp: capture_message_def Let_def split: option.splits prod.splits)

lemma existing_approval_eq:
  assumes keys: "distinct (filter (\<lambda>k. k \<noteq> None) (map request_key (approvals s)))"
    and profs: "distinct (map p_runtime_key (profiles s))"
    and p: "p \<in> set (profiles s)" "p_runtime_key p = key"
    and a: "a \<in> set (approvals s)" "same_request (p_id p) inst rid a"
  shows "existing_approval key s inst rid = Some (a_id a)"
proof -
  let ?P = "\<lambda>(a, p). p_runtime_key p = key \<and> a_runtime_instance_id a = Some inst
       \<and> a_runtime_request_id a = Some rid"
  have "(a, p) \<in> set (join_profiles s)"
    using a p(1) by (force simp: join_profiles_def same_request_def)
  with p(2) a(2) obtain b q where f: "find ?P (join_profiles s) = Some (b, q)"
    by (cases "find ?P (join_profiles s)") (auto simp: find_None_iff same_request_def)
  have bq: "b \<in> set (approvals s)" "q \<in> set (profiles s)" "a_profile_id b = Some (p_id q)"
    "p_runtime_key q = key" "a_runtime_instance_id b = Some inst" "a_runtime_request_id b = Some rid"
    using find_SomeD [OF f] join_profilesD by auto
  have "q = p" using profs p bq(2,4) by (metis distinct_map inj_onD)
  with bq have "same_request (p_id p) inst rid b" by (simp add: same_request_def)
  with existing_unique [OF keys a(1) bq(1) a(2)] f show ?thesis
    by (simp add: existing_approval_def)
qed

lemma insert_approval_None:
  assumes "insert_approval key s now n inst m pl t rid = (None, s')"
  shows "s' = s" and "insert_approval key s now2 n2 inst m pl t rid = (None, s)"
  using assms by (auto simp: insert_approval_def split: option.splits prod.splits if_splits)

lemma insert_approval_again:
  assumes "insert_approval key s now n inst m pl t rid = (Some i, s')"
  shows "insert_approval key s' now2 n2 inst m pl t rid = (None, s')"
    and "\<exists>p a. newest_run key t s = Some p \<and> a \<in> set (approvals s') \<and> a_id a = i
      \<and> same_request (p_id (fst p)) inst rid a \<and> profiles s' = profiles s"
  using assms
  by (auto simp: insert_approval_def same_request_def split: option.splits prod.splits if_splits)

text \<open>
  C33. A request the runtime sends again (after a reconnect, say) is not stored twice: the
  second capture returns the same approval and leaves the database as it is, provided
  profiles have distinct ids and runtime keys.
\<close>

theorem capture_idempotent:
  assumes inv: "sys_inv s" and new: "new_id \<notin> a_id ` set (approvals (sdb s))"
    and profs: "distinct (map p_runtime_key (profiles (sdb s)))"
    and c: "capture_message to_str key (sdb s) now new_id inst message = (Inr (Some i), s')"
  shows "capture_message to_str key s' now2 new_id2 inst message = (Inr (Some i), s')"
proof -
  obtain meth request_id params thread_id where m:
    "get_str ''method'' message = Some meth" "meth \<in> set approval_methods"
    "json_get ''id'' message = Some request_id" "is_request_id request_id"
    "json_get ''params'' message = Some params" "get_str ''threadId'' params = Some thread_id"
    "thread_id \<noteq> []"
    by (rule capture_messageE [OF c])
  note eq = capture_message_eq [OF m]
  let ?ins = "\<lambda>s now n. insert_approval key s now n inst meth (approval_payload meth params)
    thread_id (to_str request_id)"
  have inv': "sys_inv (s\<lparr>sdb := s'\<rparr>)"
    using approval_step_evolves [OF step_capture [OF new c] inv] by simp
  show ?thesis
  proof (cases "?ins (sdb s) now new_id")
    case (Pair r s1)
    show ?thesis
    proof (cases r)
      case None
      note again = insert_approval_None [OF Pair [unfolded None]]
      from c Pair None again have "s' = sdb s" "existing_approval key s' inst (to_str request_id) = Some i"
        unfolding eq by (simp_all split: option.splits)
      with again show ?thesis unfolding eq by simp
    next
      case (Some j)
      then have s': "s1 = s'" "j = i" using c Pair unfolding eq by simp_all
      from insert_approval_again [OF Pair [unfolded Some s']]
      obtain p a where p: "newest_run key thread_id (sdb s) = Some p" "a \<in> set (approvals s')"
        "a_id a = i" "same_request (p_id (fst p)) inst (to_str request_id) a"
        "profiles s' = profiles (sdb s)" and again: "?ins s' now2 new_id2 = (None, s')"
        by blast
      have "existing_approval key s' inst (to_str request_id) = Some (a_id a)"
        using inv' profs p newest_runD [of key thread_id "sdb s" "fst p" "snd p"]
        by (intro existing_approval_eq [of _ "fst p"]) (auto simp: sys_inv_def Let_def)
      then show ?thesis unfolding eq by (simp add: again p(3))
    qed
  qed
qed

theorem capture_idempotent_witness:
  "capture_message demo_to_str ''k'' (sdb demo_sys1) 77 78 6 demo_message = (Inr (Some 5), sdb demo_sys1)"
  using capture_idempotent [OF demo_inv(1) _ _ demo_capture] by (simp add: demo_sys0_def)

lemma cancel_stale_active:
  assumes "a \<in> set (approvals (snd (cancel_stale_runtime_requests key s now inst)))"
    and "p \<in> set (profiles s)" "a_profile_id a = Some (p_id p)" "p_runtime_key p = key"
    and "active_state (a_state a)"
  shows "a_runtime_instance_id a = Some inst"
proof -
  from assms(1) obtain b where b: "b \<in> set (approvals s)" and a: "a = (if
      (list_ex (\<lambda>p. a_profile_id b = Some (p_id p) \<and> p_runtime_key p = key) (profiles s)
                   \<and> active_state (a_state b) \<and> a_runtime_instance_id b \<noteq> Some inst)
      then b\<lparr>a_state := ''cancelled'',
              a_decided_at := Some (case a_decided_at b of Some t \<Rightarrow> t | None \<Rightarrow> now),
              a_version := a_version b + 1\<rparr> else b)"
    unfolding cancel_stale_runtime_requests_def Let_def snd_conv approvals_update by auto
  show ?thesis
  proof (rule ccontr)
    assume n: "a_runtime_instance_id a \<noteq> Some inst"
    with a assms(2-5) show False by (auto simp: list_ex_iff split: if_splits)
  qed
qed

lemma collect_summaries:
  assumes "collectR summary_from_row rows = Inr ys"
  shows "map s_id ys = map a_id rows" and "map s_created_at ys = map a_created_at rows"
  using assms unfolding collectR_eq_Inr
  by (induction rule: list_all2_induct) (auto simp: summary_from_row_def split: option.splits)

text \<open>
  Listing the pending approvals first cancels what earlier runtime instances left open:
  afterwards no active approval of this runtime belongs to another instance, and the list
  holds exactly the caller's own active approvals of the current instance, oldest first.
\<close>

lemma list_pending_exact:
  assumes "list_pending key s now actor inst = (Inr ys, s')"
  shows "\<not> list_ex (\<lambda>(a, p). p_runtime_key p = key \<and> active_state (a_state a)
        \<and> a_runtime_instance_id a \<noteq> Some inst) (join_profiles s')
    \<and> set (map s_id ys) = {a_id a | a p. (a, p) \<in> set (join_profiles s')
        \<and> a_organization_id a = Some (organization_id actor) \<and> p_owner_user_id p = user_id actor
        \<and> p_runtime_key p = key \<and> active_state (a_state a) \<and> a_runtime_instance_id a = Some inst}
    \<and> sorted (map s_created_at ys)"
proof -
  have s': "s' = snd (cancel_stale_runtime_requests key s now inst)"
    using assms by (simp add: list_pending_def Let_def)
  then have "profiles s' = profiles s"
    by (simp add: cancel_stale_runtime_requests_def Let_def update_approvals_def)
  then have stale: "\<not> list_ex (\<lambda>(a, p). p_runtime_key p = key \<and> active_state (a_state a)
        \<and> a_runtime_instance_id a \<noteq> Some inst) (join_profiles s')"
    using cancel_stale_active [of _ key s now inst] by (auto simp: list_ex_iff s' dest!: join_profilesD)
  let ?rows = "map fst (filter (\<lambda>(a, p).
                   a_organization_id a = Some (organization_id actor)
                   \<and> p_owner_user_id p = user_id actor \<and> p_runtime_key p = key
                   \<and> active_state (a_state a) \<and> a_runtime_instance_id a = Some inst)
                 (join_profiles s'))"
  have "collectR summary_from_row (sort_key a_created_at (sort_key a_id ?rows)) = Inr ys"
    using assms by (simp add: list_pending_def Let_def s')
  note ys = collect_summaries [OF this]
  have "set (map s_id ys) = a_id ` set ?rows" unfolding ys(1) by simp
  also have "\<dots> = {a_id a | a p. (a, p) \<in> set (join_profiles s')
        \<and> a_organization_id a = Some (organization_id actor) \<and> p_owner_user_id p = user_id actor
        \<and> p_runtime_key p = key \<and> active_state (a_state a) \<and> a_runtime_instance_id a = Some inst}"
    by force
  finally show ?thesis
    using stale unfolding ys(2) by simp
qed

end
