(* ===== verification/Head_Tail_Buffer.thy ===== *)
theory Head_Tail_Buffer
  imports Codex_Prelude
begin

text \<open>
  The buffer a running command's output is collected in
  (\<open>src/codex/codex-rs/core/src/unified_exec/head_tail_buffer.rs\<close>): it keeps the first
  and the last bytes and counts what it drops in between. A byte is a \<^typ>\<open>char\<close>.
\<close>

section \<open>The buffer\<close>

type_synonym bytes = "char list"

record head_tail_buffer =
  max_bytes :: nat
  head_budget :: nat
  tail_budget :: nat
  head :: bytes
  tail :: bytes
  omitted_bytes :: nat

definition UNIFIED_EXEC_OUTPUT_MAX_BYTES :: nat where
  "UNIFIED_EXEC_OUTPUT_MAX_BYTES = 1024 * 1024"

definition new_buffer :: "nat \<Rightarrow> head_tail_buffer" where
  "new_buffer m = \<lparr>max_bytes = m, head_budget = m div 2, tail_budget = m - m div 2,
     head = [], tail = [], omitted_bytes = 0\<rparr>"

definition default_buffer :: head_tail_buffer where
  "default_buffer = new_buffer UNIFIED_EXEC_OUTPUT_MAX_BYTES"

definition retained_bytes :: "head_tail_buffer \<Rightarrow> nat" where
  "retained_bytes b = saturating_add (length (head b)) (length (tail b))"

definition buffer_total_bytes :: "head_tail_buffer \<Rightarrow> nat" where
  "buffer_total_bytes b = saturating_add (retained_bytes b) (omitted_bytes b)"

definition trim_tail_to_budget :: "head_tail_buffer \<Rightarrow> head_tail_buffer" where
  "trim_tail_to_budget b =
     (let excess = length (tail b) - tail_budget b in
      if excess > 0
      then b\<lparr>tail := drop excess (tail b), omitted_bytes := saturating_add (omitted_bytes b) excess\<rparr>
      else b)"

definition push_to_tail :: "bytes \<Rightarrow> head_tail_buffer \<Rightarrow> head_tail_buffer" where
  "push_to_tail chunk b =
     (if chunk = [] then b
      else if tail_budget b = 0
      then b\<lparr>omitted_bytes := saturating_add (omitted_bytes b) (length chunk)\<rparr>
      else if length chunk \<ge> tail_budget b then
        (let start = length chunk - tail_budget b;
             kept = drop start chunk;
             dropped = length chunk - length kept
         in b\<lparr>omitted_bytes := saturating_add (saturating_add (omitted_bytes b) (length (tail b))) dropped,
              tail := kept\<rparr>)
      else trim_tail_to_budget (b\<lparr>tail := tail b @ chunk\<rparr>))"

definition push_chunk :: "bytes \<Rightarrow> head_tail_buffer \<Rightarrow> head_tail_buffer" where
  "push_chunk chunk b =
     (if chunk = [] then b
      else if max_bytes b = 0
      then b\<lparr>omitted_bytes := saturating_add (omitted_bytes b) (length chunk)\<rparr>
      else
        (let remaining_head = head_budget b - length (head b);
             head_len = min remaining_head (length chunk);
             b' = (if head_len > 0 then b\<lparr>head := head b @ take head_len chunk\<rparr> else b)
         in push_to_tail (drop head_len chunk) b'))"

definition snapshot_chunks :: "head_tail_buffer \<Rightarrow> bytes list" where
  "snapshot_chunks b =
     (if head b \<noteq> [] then [head b] else []) @ (if tail b \<noteq> [] then [tail b] else [])"

definition to_bytes :: "head_tail_buffer \<Rightarrow> bytes" where
  "to_bytes b = head b @ tail b"

definition format_output_omission_marker :: "nat \<Rightarrow> string" where
  "format_output_omission_marker n = ''... '' @ display_usize n @ '' bytes omitted ...''"

definition to_bytes_with_omission_marker :: "head_tail_buffer \<Rightarrow> bytes" where
  "to_bytes_with_omission_marker b =
     (if omitted_bytes b = 0 then to_bytes b
      else head b @ [nl] @ format_output_omission_marker (omitted_bytes b) @ [nl] @ tail b)"

text \<open>\<open>drain\<close> returns the contents and leaves the emptied buffer behind.\<close>

definition drain :: "head_tail_buffer \<Rightarrow> head_tail_buffer \<times> head_tail_buffer" where
  "drain b = (b, b\<lparr>head := [], tail := [], omitted_bytes := 0\<rparr>)"

definition push_buffer :: "head_tail_buffer \<Rightarrow> head_tail_buffer \<Rightarrow> head_tail_buffer" where
  "push_buffer other b =
     (let b' = push_chunk (tail other) (push_chunk (head other) b)
      in b'\<lparr>omitted_bytes := saturating_add (omitted_bytes b') (omitted_bytes other)\<rparr>)"

section \<open>What the buffer holds of a stream\<close>

text \<open>
  The specification: the buffer of capacity \<open>m\<close> that has seen \<open>s\<close> keeps the first
  \<open>m div 2\<close> bytes of it and the last bytes of what follows, as many as fit, and has counted
  the rest.
\<close>

definition buffer_of :: "nat \<Rightarrow> nat \<Rightarrow> nat \<Rightarrow> bytes \<Rightarrow> head_tail_buffer" where
  "buffer_of m h t s =
     (let rest = drop h s; dropped = length rest - t
      in \<lparr>max_bytes = m, head_budget = h, tail_budget = t,
          head = take h s, tail = drop dropped rest, omitted_bytes = dropped\<rparr>)"

definition buffer_spec :: "nat \<Rightarrow> bytes \<Rightarrow> head_tail_buffer" where
  "buffer_spec m s = buffer_of m (m div 2) (m - m div 2) s"

lemma buffer_spec_Nil: "buffer_spec m [] = new_buffer m"
  by (simp add: buffer_spec_def buffer_of_def new_buffer_def Let_def)

lemma push_to_tail_spec:
  assumes "length rest + length c \<le> usize_max"
    and "tail b = drop (length rest - tail_budget b) rest"
    and "omitted_bytes b = length rest - tail_budget b"
  shows "push_to_tail c b =
    (let d = length rest + length c - tail_budget b
     in b\<lparr>tail := drop d (rest @ c), omitted_bytes := d\<rparr>)"
proof -
  have sat: "saturating_add (length rest - tail_budget b) n = length rest - tail_budget b + n"
    if "n \<le> length rest + length c - (length rest - tail_budget b)" for n
    using that assms(1) by (intro saturating_add_exact) linarith
  consider "c = []" | "c \<noteq> []" "tail_budget b = 0"
    | "c \<noteq> []" "tail_budget b > 0" "length c \<ge> tail_budget b"
    | "c \<noteq> []" "tail_budget b > 0" "length c < tail_budget b" by fastforce
  then show ?thesis
  proof cases
    case 3
    then show ?thesis
      using assms sat
      by (auto simp: push_to_tail_def Let_def saturating_add_assoc saturating_add_exact)
  next
    case 4
    show ?thesis
    proof (cases "length rest + length c \<le> tail_budget b")
      case True
      with 4 assms show ?thesis by (simp add: push_to_tail_def trim_tail_to_budget_def)
    next
      case False
      with 4 assms show ?thesis
        by (cases "length rest \<le> tail_budget b")
          (simp_all add: push_to_tail_def Let_def trim_tail_to_budget_def saturating_add_exact add.commute)
    qed
  qed (use assms sat in \<open>auto simp: push_to_tail_def Let_def\<close>)
qed

lemma push_chunk_of:
  assumes "length (s @ c) \<le> usize_max" and "m = 0 \<Longrightarrow> h = 0 \<and> t = 0"
  shows "push_chunk c (buffer_of m h t s) = buffer_of m h t (s @ c)"
proof -
  let ?hl = "min (h - length s) (length c)" and ?b = "buffer_of m h t s"
  consider "c = []" | "c \<noteq> []" "m = 0" | "c \<noteq> []" "m > 0" by blast
  then show ?thesis
  proof cases
    case 1
    then show ?thesis by (simp add: push_chunk_def)
  next
    case 2
    then show ?thesis using assms by (simp add: push_chunk_def buffer_of_def saturating_add_exact)
  next
    case 3
    have "head_budget ?b - length (head ?b) = h - length s"
      by (auto simp: buffer_of_def Let_def)
    then have "push_chunk c ?b = push_to_tail (drop ?hl c) (?b\<lparr>head := head ?b @ take ?hl c\<rparr>)"
      using 3 by (auto simp: push_chunk_def Let_def buffer_of_def)
    also have "\<dots> = (let d = length (drop h s) + length (drop ?hl c) - t
        in ?b\<lparr>head := head ?b @ take ?hl c,
             tail := drop d (drop h s @ drop ?hl c), omitted_bytes := d\<rparr>)"
      using assms by (subst push_to_tail_spec [of "drop h s"]) (auto simp: buffer_of_def Let_def)
    also have "\<dots> = buffer_of m h t (s @ c)"
    proof -
      have "take h (s @ c) = take h s @ take ?hl c" "drop h (s @ c) = drop h s @ drop ?hl c"
        by (cases "length s \<le> h", auto simp: min_def)+
      then show ?thesis
        by (simp only: buffer_of_def Let_def length_append head_tail_buffer.simps)
    qed
    finally show ?thesis .
  qed
qed

lemma push_chunk_spec:
  "length (s @ c) \<le> usize_max \<Longrightarrow> push_chunk c (buffer_spec m s) = buffer_spec m (s @ c)"
  unfolding buffer_spec_def by (rule push_chunk_of) simp_all

section \<open>Capped logs\<close>

text \<open>
  What a collector of output relies on: a log of what was pushed so far is a function of the
  bytes alone, not of how they were cut into chunks.
\<close>

locale capped_log =
  fixes empty :: 'b and push :: "'a list \<Rightarrow> 'b \<Rightarrow> 'b" and log_of :: "'a list \<Rightarrow> 'b"
    and fits :: "'a list \<Rightarrow> bool"
  assumes log_empty: "log_of [] = empty"
    and log_push: "fits (s @ c) \<Longrightarrow> push c (log_of s) = log_of (s @ c)"
    and fits_prefix: "fits (s @ c) \<Longrightarrow> fits s"
begin

lemma fold_push_log: "fits (s @ concat cs) \<Longrightarrow> fold push cs (log_of s) = log_of (s @ concat cs)"
proof (induction cs arbitrary: s)
  case (Cons c cs)
  then have "fits (s @ c)" using fits_prefix [of "s @ c" "concat cs"] by simp
  with Cons show ?case by (simp add: log_push)
qed simp

lemma fold_push: "fits (concat cs) \<Longrightarrow> fold push cs empty = log_of (concat cs)"
  using fold_push_log [of "[]" cs] by (simp add: log_empty)

lemma chunking_irrelevant:
  "fits (concat cs) \<Longrightarrow> concat cs = concat ds \<Longrightarrow> fold push cs empty = fold push ds empty"
  by (simp add: fold_push)

end

interpretation output_log: capped_log "new_buffer m" push_chunk "buffer_spec m"
    "\<lambda>s. length s \<le> usize_max" for m
  by unfold_locales (simp_all add: buffer_spec_Nil push_chunk_spec)

section \<open>Claims\<close>

text \<open>
  C14. However the output of a command arrives in chunks, the buffer ends up holding exactly
  the first half of its capacity of the output and the last bytes of what follows that fit,
  and the omitted count is the number of bytes between them.
\<close>

theorem buffer_holds_head_and_tail:
  assumes "length (concat cs) \<le> usize_max"
  shows "fold push_chunk cs (new_buffer m) = buffer_spec m (concat cs)"
  using output_log.fold_push [OF assms] .

theorem buffer_holds_head_and_tail_witness:
  "fold push_chunk [''ab'', ''cdefg'', ''h''] (new_buffer 4) =
     \<lparr>max_bytes = 4, head_budget = 2, tail_budget = 2, head = ''ab'', tail = ''gh'', omitted_bytes = 4\<rparr>"
  using buffer_holds_head_and_tail [of "[''ab'', ''cdefg'', ''h'']" 4]
  by (simp add: usize_max_def buffer_spec_def buffer_of_def)

lemma buffer_spec_bounds:
  "length (head (buffer_spec m s)) + length (tail (buffer_spec m s)) \<le> m
   \<and> length (head (buffer_spec m s)) + length (tail (buffer_spec m s)) + omitted_bytes (buffer_spec m s)
       = length s"
proof -
  have "length (head (buffer_of m h t s)) + length (tail (buffer_of m h t s)) \<le> h + t
    \<and> length (head (buffer_of m h t s)) + length (tail (buffer_of m h t s))
        + omitted_bytes (buffer_of m h t s) = length s" for h t
    by (auto simp: buffer_of_def Let_def min_def)
  from this [of "m div 2" "m - m div 2"] show ?thesis by (simp add: buffer_spec_def)
qed

lemma head_spec: "head (buffer_spec m s) = take (m div 2) s"
  by (simp add: buffer_spec_def buffer_of_def Let_def)

text \<open>
  Merging one buffer into another loses no count: the merged buffer reports the bytes seen
  by both, stays within its capacity, and keeps the head it already had.
\<close>

lemma push_buffer_accounting:
  assumes "length s + length t \<le> usize_max"
  shows "buffer_total_bytes (push_buffer (buffer_spec n t) (buffer_spec m s)) = length s + length t
    \<and> retained_bytes (push_buffer (buffer_spec n t) (buffer_spec m s)) \<le> m
    \<and> prefix (head (buffer_spec m s)) (head (push_buffer (buffer_spec n t) (buffer_spec m s)))"
proof -
  let ?h = "head (buffer_spec n t)" and ?t = "tail (buffer_spec n t)"
  note n = buffer_spec_bounds [of n t] and m = buffer_spec_bounds [of m "s @ ?h @ ?t"]
  have "push_chunk ?t (push_chunk ?h (buffer_spec m s)) = buffer_spec m (s @ ?h @ ?t)"
    using assms n by (simp add: push_chunk_spec)
  then have eq: "push_buffer (buffer_spec n t) (buffer_spec m s) = (buffer_spec m (s @ ?h @ ?t))
      \<lparr>omitted_bytes := omitted_bytes (buffer_spec m (s @ ?h @ ?t)) + omitted_bytes (buffer_spec n t)\<rparr>"
    using assms n m by (simp add: push_buffer_def saturating_add_exact Let_def)
  show ?thesis
    using assms n m unfolding eq buffer_total_bytes_def retained_bytes_def
    by (simp add: saturating_add_exact head_spec take_is_prefix)
qed

lemma shown_of:
  "to_bytes_with_omission_marker (buffer_of m h t s) =
    (if length s \<le> h + t then s
     else take h s @ [nl] @ format_output_omission_marker (length s - (h + t)) @ [nl]
          @ drop (length s - t) s)"
  by (auto simp: to_bytes_with_omission_marker_def buffer_of_def Let_def to_bytes_def)

text \<open>
  What the model is shown of a command's output: all of it while it fits the capacity, and
  otherwise its beginning and its end around a marker with the exact number of bytes missing.
\<close>

lemma shown_output:
  assumes "length (concat cs) \<le> usize_max" and "s = concat cs"
  shows "to_bytes_with_omission_marker (fold push_chunk cs (new_buffer m)) =
    (if length s \<le> m then s
     else take (m div 2) s @ [nl] @ format_output_omission_marker (length s - m) @ [nl]
          @ drop (length s - (m - m div 2)) s)"
  using output_log.fold_push [OF assms(1), of m] assms(2) shown_of [of m "m div 2" "m - m div 2" s]
  by (simp add: buffer_spec_def)

end
