(* ===== verification/Noise_Relay.thy ===== *)
theory Noise_Relay
  imports Codex_Prelude "HOL-Library.Word"
begin

text \<open>
  Message boundaries and record order on the encrypted relay
  (\<open>message_framing.rs\<close> and \<open>ordered_ciphertext.rs\<close> under
  \<open>src/codex/codex-rs/exec-server/src/noise_relay\<close>). A byte is an \<^typ>\<open>8 word\<close>;
  \<open>to_json\<close> and \<open>from_json\<close> stand for \<open>serde_json::to_writer\<close> and
  \<open>serde_json::from_slice\<close> on \<open>JSONRPCMessage\<close>.
\<close>

unbundle bit_operations_syntax

type_synonym octets = "8 word list"

datatype exec_server_error = Protocol string | Json

section \<open>Framing\<close>

definition LENGTH_PREFIX_BYTES :: nat where
  "LENGTH_PREFIX_BYTES = 4"

definition MAX_NOISE_JSONRPC_MESSAGE_LEN :: nat where
  "MAX_NOISE_JSONRPC_MESSAGE_LEN = 64 * 1024 * 1024"

definition NOISE_RECORD_PLAINTEXT_LEN :: nat where
  "NOISE_RECORD_PLAINTEXT_LEN = 60 * 1024"

text \<open>\<open>u32::to_be_bytes\<close> and \<open>u32::from_be_bytes\<close>.\<close>

definition to_be_bytes :: "32 word \<Rightarrow> octets" where
  "to_be_bytes w =
     [ucast (drop_bit 24 w), ucast (drop_bit 16 w), ucast (drop_bit 8 w), ucast w]"

definition from_be_bytes :: "octets \<Rightarrow> 32 word" where
  "from_be_bytes p =
     push_bit 24 (ucast (p ! 0)) OR push_bit 16 (ucast (p ! 1))
     OR push_bit 8 (ucast (p ! 2)) OR ucast (p ! 3)"

definition frame_jsonrpc_message ::
  "('m \<Rightarrow> octets) \<Rightarrow> 'm \<Rightarrow> (exec_server_error, octets) result" where
  "frame_jsonrpc_message to_json message =
     (let body = to_json message; message_len = length body in
      if message_len > MAX_NOISE_JSONRPC_MESSAGE_LEN
      then Err (Protocol ''Noise relay JSON-RPC message exceeds maximum length'')
      else Ok (to_be_bytes (word_of_nat message_len) @ body))"

text \<open>
  The loop of \<open>JsonRpcMessageDecoder::push\<close>: the result and what is left of the buffer.
  Every round drops a prefix of the buffer.
\<close>

function take_messages ::
  "(octets \<Rightarrow> 'm option) \<Rightarrow> octets \<Rightarrow> 'm list \<Rightarrow> (exec_server_error, 'm list) result \<times> octets" where
  "take_messages from_json buffered messages =
     (if length buffered < LENGTH_PREFIX_BYTES then (Ok messages, buffered)
      else
        let message_len = unat (from_be_bytes (take LENGTH_PREFIX_BYTES buffered));
            framed_len = LENGTH_PREFIX_BYTES + message_len
        in if message_len = 0 \<or> message_len > MAX_NOISE_JSONRPC_MESSAGE_LEN
           then (Err (Protocol ''Noise relay JSON-RPC message has invalid length''), buffered)
           else if length buffered < framed_len then (Ok messages, buffered)
           else (case from_json (drop LENGTH_PREFIX_BYTES (take framed_len buffered)) of
                   None \<Rightarrow> (Err Json, buffered)
                 | Some m \<Rightarrow> take_messages from_json (drop framed_len buffered) (messages @ [m])))"
  by pat_completeness auto
termination
  by (relation "measure (\<lambda>(_, buffered, _). length buffered)") (auto simp: LENGTH_PREFIX_BYTES_def)

declare take_messages.simps [simp del]

definition decoder_push ::
  "(octets \<Rightarrow> 'm option) \<Rightarrow> octets \<Rightarrow> octets \<Rightarrow> (exec_server_error, 'm list) result \<times> octets" where
  "decoder_push from_json buffered plaintext_record =
     (if length plaintext_record > NOISE_RECORD_PLAINTEXT_LEN
      then (Err (Protocol ''Noise relay plaintext record exceeds maximum length''), buffered)
      else
        (case take_messages from_json (buffered @ plaintext_record) [] of
           (Inl e, rest) \<Rightarrow> (Err e, rest)
         | (Inr messages, rest) \<Rightarrow>
             if length rest > LENGTH_PREFIX_BYTES + MAX_NOISE_JSONRPC_MESSAGE_LEN
             then (Err (Protocol ''Noise relay JSON-RPC reassembly buffer exceeds maximum length''), rest)
             else (Ok messages, rest)))"

text \<open>A receiver pushes one decrypted record after the other and stops at the first error.\<close>

fun decode_records ::
  "(octets \<Rightarrow> 'm option) \<Rightarrow> octets \<Rightarrow> octets list \<Rightarrow> (exec_server_error, 'm list \<times> octets) result" where
  "decode_records from_json buffered [] = Ok ([], buffered)"
| "decode_records from_json buffered (r # rs) =
     (case decoder_push from_json buffered r of
        (Inl e, _) \<Rightarrow> Err e
      | (Inr ms, rest) \<Rightarrow>
          bindR (decode_records from_json rest rs) (\<lambda>(ms', rest'). Ok (ms @ ms', rest')))"

section \<open>Reordering\<close>

definition MAX_REORDER_DISTANCE :: "32 word" where
  "MAX_REORDER_DISTANCE = 64"

definition MAX_PENDING_BYTES :: nat where
  "MAX_PENDING_BYTES = 1024 * 1024"

text \<open>\<open>pending\<close> is a \<open>BTreeMap\<close>: entries with distinct keys.\<close>

record ordered_frames =
  next_seq :: "32 word"
  pending :: "(32 word \<times> octets) list"
  pending_bytes :: nat

definition empty_frames :: ordered_frames where
  "empty_frames = \<lparr>next_seq = 0, pending = [], pending_bytes = 0\<rparr>"

definition advance :: "ordered_frames \<Rightarrow> (exec_server_error, unit) result \<times> ordered_frames" where
  "advance f =
     (if next_seq f = - 1 then (Err (Protocol ''Noise relay sequence number exhausted''), f)
      else (Ok (), f\<lparr>next_seq := next_seq f + 1\<rparr>))"

definition remove_pending :: "32 word \<Rightarrow> ordered_frames \<Rightarrow> ordered_frames" where
  "remove_pending k f = f\<lparr>pending := filter (\<lambda>(j, _). j \<noteq> k) (pending f)\<rparr>"

lemma filter_key_less: "map_of xs k = Some v \<Longrightarrow> length (filter (\<lambda>(j, _). j \<noteq> k) xs) < length xs"
  by (induction xs) (auto split: if_splits intro: le_imp_less_Suc length_filter_le)

function release ::
  "ordered_frames \<Rightarrow> octets list \<Rightarrow> (exec_server_error, octets list) result \<times> ordered_frames" where
  "release f ready =
     (case map_of (pending f) (next_seq f) of
        None \<Rightarrow> (Ok ready, f)
      | Some payload \<Rightarrow>
          let f1 = remove_pending (next_seq f) f;
              f2 = f1\<lparr>pending_bytes := pending_bytes f1 - length payload\<rparr>
          in (case advance f2 of
                (Inl e, f3) \<Rightarrow> (Err e, f3)
              | (Inr _, f3) \<Rightarrow> release f3 (ready @ [payload])))"
  by pat_completeness auto
termination
  by (relation "measure (\<lambda>(f, _). length (pending f))")
    (auto simp: remove_pending_def advance_def Let_def split: if_splits intro!: filter_key_less)

declare release.simps [simp del]

definition ordered_push ::
  "ordered_frames \<Rightarrow> 32 word \<Rightarrow> octets \<Rightarrow> (exec_server_error, octets list) result \<times> ordered_frames" where
  "ordered_push f seq payload =
     (if seq < next_seq f \<or> map_of (pending f) seq \<noteq> None then (Ok [], f)
      else if seq > next_seq f then
        (if seq - next_seq f > MAX_REORDER_DISTANCE
         then (Err (Protocol ''Noise relay ciphertext exceeds reorder window''), f)
         else
           (let bytes = pending_bytes f + length payload in
            if bytes > MAX_PENDING_BYTES
            then (Err (Protocol ''Noise relay pending ciphertext buffer is full''), f)
            else (Ok [], f\<lparr>pending := (seq, payload) # pending f, pending_bytes := bytes\<rparr>)))
      else
        (case advance f of
           (Inl e, f1) \<Rightarrow> (Err e, f1)
         | (Inr _, f1) \<Rightarrow> release f1 [payload]))"

text \<open>The records of a connection, in the order they arrive.\<close>

fun receive_records ::
  "ordered_frames \<Rightarrow> (32 word \<times> octets) list \<Rightarrow> (exec_server_error, octets list \<times> ordered_frames) result" where
  "receive_records f [] = Ok ([], f)"
| "receive_records f ((seq, payload) # rs) =
     (case ordered_push f seq payload of
        (Inl e, _) \<Rightarrow> Err e
      | (Inr out, f1) \<Rightarrow> bindR (receive_records f1 rs) (\<lambda>(out', f2). Ok (out @ out', f2)))"

section \<open>Decoding is independent of the cut into records\<close>

lemma from_to_be_bytes [simp]: "from_be_bytes (to_be_bytes w) = w"
proof (rule bit_word_eqI)
  fix n :: nat
  assume "n < LENGTH(32)"
  then consider "n < 8" | "8 \<le> n" "n < 16" | "16 \<le> n" "n < 24" | "24 \<le> n" "n < 32"
    by fastforce
  then show "bit (from_be_bytes (to_be_bytes w)) n = bit w n"
    by cases (auto simp: from_be_bytes_def to_be_bytes_def bit_simps)
qed

lemma length_to_be_bytes [simp]: "length (to_be_bytes w) = 4"
  by (simp add: to_be_bytes_def)

text \<open>One round of the loop.\<close>

definition message_len :: "octets \<Rightarrow> nat" where
  "message_len b = unat (from_be_bytes (take LENGTH_PREFIX_BYTES b))"

lemma take_messages_cases:
  obtains (short) "length b < LENGTH_PREFIX_BYTES" "\<And>acc. take_messages fj b acc = (Inr acc, b)"
  | (bad) e where "e \<in> {Json, Protocol ''Noise relay JSON-RPC message has invalid length''}"
      "\<And>acc x. take_messages fj (b @ x) acc = (Inl e, b @ x)"
  | (partial) "LENGTH_PREFIX_BYTES \<le> length b" "message_len b \<noteq> 0"
      "message_len b \<le> MAX_NOISE_JSONRPC_MESSAGE_LEN"
      "length b < LENGTH_PREFIX_BYTES + message_len b" "\<And>acc. take_messages fj b acc = (Inr acc, b)"
  | (message) m n where "n \<le> length b" "0 < n"
      "\<And>acc x. take_messages fj (b @ x) acc = take_messages fj (drop n b @ x) (acc @ [m])"
proof -
  let ?n = "message_len b" and ?k = "LENGTH_PREFIX_BYTES + message_len b"
  have ext: "message_len (b @ x) = message_len b" if "LENGTH_PREFIX_BYTES \<le> length b" for x
    using that by (simp add: message_len_def)
  note unf = take_messages.simps [folded message_len_def]
  consider "length b < LENGTH_PREFIX_BYTES"
    | "LENGTH_PREFIX_BYTES \<le> length b" "?n = 0 \<or> ?n > MAX_NOISE_JSONRPC_MESSAGE_LEN"
    | "LENGTH_PREFIX_BYTES \<le> length b" "\<not> (?n = 0 \<or> ?n > MAX_NOISE_JSONRPC_MESSAGE_LEN)" "length b < ?k"
    | "?k \<le> length b" "\<not> (?n = 0 \<or> ?n > MAX_NOISE_JSONRPC_MESSAGE_LEN)"
    by linarith
  then show ?thesis
  proof cases
    case 1
    have "take_messages fj b acc = (Inr acc, b)" for acc using 1 by (subst unf) simp
    with 1 show ?thesis by (intro short)
  next
    case 2
    have "take_messages fj (b @ x) acc =
        (Inl (Protocol ''Noise relay JSON-RPC message has invalid length''), b @ x)" for acc x
      using 2 by (subst unf) (simp add: ext Let_def)
    then show ?thesis by (intro bad) simp_all
  next
    case 3
    have "take_messages fj b acc = (Inr acc, b)" for acc
      using 3 by (subst unf) (simp add: Let_def)
    with 3 show ?thesis by (intro partial) simp_all
  next
    case 4
    show ?thesis
    proof (cases "fj (drop LENGTH_PREFIX_BYTES (take ?k b))")
      case None
      have "take_messages fj (b @ x) acc = (Inl Json, b @ x)" for acc x
        using 4 None by (subst unf) (simp add: ext Let_def)
      then show ?thesis by (intro bad) simp_all
    next
      case (Some m)
      have "take_messages fj (b @ x) acc = take_messages fj (drop ?k b @ x) (acc @ [m])" for acc x
        using 4 Some by (subst unf) (simp add: ext Let_def)
      with 4 show ?thesis by (intro message [of ?k m]) simp_all
    qed
  qed
qed

lemma take_messages_acc:
  "take_messages fj b acc =
     (case take_messages fj b [] of (Inl e, r) \<Rightarrow> (Inl e, r) | (Inr ms, r) \<Rightarrow> (Inr (acc @ ms), r))"
proof (induction "length b" arbitrary: b acc rule: less_induct)
  case less
  show ?case
  proof (cases fj b rule: take_messages_cases)
    case (bad e)
    from bad(2) [of "[]"] show ?thesis by simp
  next
    case (message m n)
    let ?r = "take_messages fj (drop n b)"
    have step: "take_messages fj b acc' = ?r (acc' @ [m])" for acc'
      using message(3) [of "[]" acc'] by simp
    have "length (drop n b) < length b" using message by simp
    from less [OF this, of "acc @ [m]"] less [OF this, of "[m]"] show ?thesis
      unfolding step by (auto split: prod.splits sum.splits)
  qed simp_all
qed

text \<open>What the loop leaves behind is an incomplete message, and the loop has nothing to do there.\<close>

lemma take_messages_rest:
  assumes "take_messages fj b acc = (Inr ms, r)"
  shows "take_messages fj r [] = (Inr [], r)
    \<and> length r < LENGTH_PREFIX_BYTES + MAX_NOISE_JSONRPC_MESSAGE_LEN"
  using assms
proof (induction "length b" arbitrary: b acc rule: less_induct)
  case less
  show ?case
  proof (cases fj b rule: take_messages_cases)
    case short
    with less.prems show ?thesis by (simp add: MAX_NOISE_JSONRPC_MESSAGE_LEN_def)
  next
    case (bad e)
    with less.prems bad(2) [of "[]"] show ?thesis by simp
  next
    case partial
    with less.prems show ?thesis by simp
  next
    case (message m n)
    then have "length (drop n b) < length b" by simp
    from less.hyps [OF this] less.prems message(3) [of "[]" acc] show ?thesis by simp
  qed
qed

lemma take_messages_error:
  "take_messages fj b acc = (Inl e, r) \<Longrightarrow>
     e \<in> {Json, Protocol ''Noise relay JSON-RPC message has invalid length''}"
proof (induction "length b" arbitrary: b acc rule: less_induct)
  case less
  show ?case
  proof (cases fj b rule: take_messages_cases)
    case (bad e')
    with less.prems bad(2) [of "[]"] show ?thesis by simp
  next
    case (message m n)
    then have "length (drop n b) < length b" by simp
    from less.hyps [OF this] less.prems message(3) [of "[]" acc] show ?thesis by simp
  qed (use less.prems in simp_all)
qed

lemma take_messages_append:
  "take_messages fj (b @ x) acc =
     (case take_messages fj b acc of
        (Inl e, r) \<Rightarrow> (Inl e, r @ x) | (Inr ms, r) \<Rightarrow> take_messages fj (r @ x) ms)"
proof (induction "length b" arbitrary: b acc rule: less_induct)
  case less
  show ?case
  proof (cases fj b rule: take_messages_cases)
    case (bad e)
    with bad(2) [of "[]"] show ?thesis by simp
  next
    case (message m n)
    then have "length (drop n b) < length b" by simp
    from less.hyps [OF this] message(3) [of "[]" acc] message(3) [of x acc] show ?thesis by simp
  qed simp_all
qed

lemma decode_records_eq:
  assumes "list_all (\<lambda>r. length r \<le> NOISE_RECORD_PLAINTEXT_LEN) rs"
    and "take_messages fj b [] = (Inr [], b)"
  shows "decode_records fj b rs =
    (case take_messages fj (b @ concat rs) [] of (Inl e, _) \<Rightarrow> Inl e | (Inr ms, r) \<Rightarrow> Inr (ms, r))"
  using assms
proof (induction rs arbitrary: b)
  case (Cons r rs)
  obtain res rest where t: "take_messages fj (b @ r) [] = (res, rest)" by fastforce
  show ?case
  proof (cases res)
    case (Inl e)
    with Cons.prems t take_messages_append [of fj "b @ r" "concat rs" "[]"] show ?thesis
      by (simp add: decoder_push_def)
  next
    case (Inr ms)
    note rest = take_messages_rest [OF t [unfolded Inr]]
    have "take_messages fj (b @ r @ concat rs) [] =
        (case take_messages fj (rest @ concat rs) [] of
           (Inl e, q) \<Rightarrow> (Inl e, q) | (Inr ms', q) \<Rightarrow> (Inr (ms @ ms'), q))"
      using take_messages_append [of fj "b @ r" "concat rs" "[]"] t Inr
        take_messages_acc [of fj "rest @ concat rs" ms] by simp
    with Cons t Inr rest show ?thesis
      by (auto simp: decoder_push_def split: prod.splits sum.splits)
  qed
qed simp

lemma take_messages_Nil: "take_messages fj [] acc = (Inr acc, [])"
  by (subst take_messages.simps) (simp add: LENGTH_PREFIX_BYTES_def)

lemma take_framed:
  assumes "frame_jsonrpc_message to_json m = Inr f" and "fj (to_json m) = Some m"
    and "to_json m \<noteq> []"
  shows "take_messages fj (f @ x) acc = take_messages fj x (acc @ [m])"
proof -
  let ?b = "to_json m"
  have f: "f = to_be_bytes (word_of_nat (length ?b)) @ ?b"
    and len: "length ?b \<le> MAX_NOISE_JSONRPC_MESSAGE_LEN"
    using assms(1) by (auto simp: frame_jsonrpc_message_def Let_def split: if_splits)
  have "unat (word_of_nat (length ?b) :: 32 word) = length ?b"
    using len by (simp add: unat_of_nat take_bit_nat_eq_self MAX_NOISE_JSONRPC_MESSAGE_LEN_def)
  with len assms(2,3) show ?thesis
    unfolding f by (subst take_messages.simps) (simp add: LENGTH_PREFIX_BYTES_def)
qed

lemma take_all_framed:
  assumes "list_all2 (\<lambda>m f. frame_jsonrpc_message to_json m = Inr f) ms fs"
    and "\<And>m. m \<in> set ms \<Longrightarrow> fj (to_json m) = Some m \<and> to_json m \<noteq> []"
  shows "take_messages fj (concat fs) acc = (Inr (acc @ ms), [])"
  using assms
  by (induction arbitrary: acc rule: list_all2_induct) (simp_all add: take_messages_Nil take_framed)

section \<open>Claims on framing\<close>

text \<open>
  Round trip: messages framed by the sender and cut into records in any way are decoded
  into the same messages, in order, with nothing left over.
\<close>

lemma framing_roundtrip:
  assumes "collectR (frame_jsonrpc_message to_json) ms = Inr fs"
    and "\<And>m. m \<in> set ms \<Longrightarrow> from_json (to_json m) = Some m \<and> to_json m \<noteq> []"
    and "concat rs = concat fs" and "list_all (\<lambda>r. length r \<le> NOISE_RECORD_PLAINTEXT_LEN) rs"
  shows "decode_records from_json [] rs = Inr (ms, [])"
proof -
  have "list_all2 (\<lambda>m f. frame_jsonrpc_message to_json m = Inr f) ms fs"
    using assms(1) by (simp add: collectR_eq_Inr)
  from take_all_framed [OF this assms(2)] have "take_messages from_json (concat fs) [] = (Inr ms, [])"
    by simp
  with decode_records_eq [OF assms(4) take_messages_Nil, of from_json] assms(3) show ?thesis by simp
qed



section \<open>Reordering releases the longest run\<close>

text \<open>
  \<open>seen\<close> is the set of sequence numbers pushed so far and \<open>sent\<close> the records the peer
  numbered: what is pending is exactly what was seen and not yet released.
\<close>

definition frames_inv :: "(32 word \<Rightarrow> octets) \<Rightarrow> 32 word set \<Rightarrow> ordered_frames \<Rightarrow> bool" where
  "frames_inv sent seen f \<longleftrightarrow>
     distinct (map fst (pending f))
     \<and> (\<forall>(k, v) \<in> set (pending f). v = sent k)
     \<and> fst ` set (pending f) = {k \<in> seen. next_seq f \<le> k}
     \<and> (\<forall>k < next_seq f. k \<in> seen)
     \<and> (\<forall>k \<in> seen. unat k \<le> unat (next_seq f) + 64)
     \<and> pending_bytes f = sum_list (map (length \<circ> snd) (pending f))
     \<and> pending_bytes f \<le> MAX_PENDING_BYTES"

lemma frames_invD:
  assumes "frames_inv sent seen f"
  shows "distinct (map fst (pending f))" and "\<And>k v. (k, v) \<in> set (pending f) \<Longrightarrow> v = sent k"
    and "fst ` set (pending f) = {k \<in> seen. next_seq f \<le> k}"
    and "\<And>k. k < next_seq f \<Longrightarrow> k \<in> seen"
    and "\<And>k. k \<in> seen \<Longrightarrow> unat k \<le> unat (next_seq f) + 64"
    and "pending_bytes f = sum_list (map (length \<circ> snd) (pending f))"
    and "pending_bytes f \<le> MAX_PENDING_BYTES"
  using assms unfolding frames_inv_def by blast+

lemma map_of_inv:
  assumes inv: "frames_inv sent seen f"
  shows "map_of (pending f) k = (if k \<in> seen \<and> next_seq f \<le> k then Some (sent k) else None)"
proof (cases "map_of (pending f) k")
  case None
  then have "k \<notin> fst ` set (pending f)" by (simp add: map_of_eq_None_iff)
  with None show ?thesis unfolding frames_invD(3) [OF inv] by simp
next
  case (Some v)
  then have kv: "(k, v) \<in> set (pending f)" by (rule map_of_SomeD)
  then have "k \<in> fst ` set (pending f)" by force
  with Some frames_invD(2) [OF inv kv] show ?thesis unfolding frames_invD(3) [OF inv] by simp
qed

lemma sum_filter_key:
  assumes "distinct (map fst xs)" and "(k, v) \<in> set xs"
  shows "sum_list (map (length \<circ> snd) (filter (\<lambda>(j, _). j \<noteq> k) xs)) + length v
    = sum_list (map (length \<circ> snd) xs)"
  using assms
proof (induction xs)
  case (Cons x xs)
  show ?case
  proof (cases "fst x = k")
    case True
    with Cons.prems have "x = (k, v)" "k \<notin> fst ` set xs" by (auto simp: image_iff)
    moreover from this have "filter (\<lambda>(j, _). j \<noteq> k) xs = xs"
      by (auto simp: filter_id_conv image_iff)
    ultimately show ?thesis by simp
  next
    case False
    with Cons show ?thesis by (auto simp: case_prod_beta)
  qed
qed simp

lemma word_inc_le_iff: "n \<noteq> - 1 \<Longrightarrow> (n + 1 \<le> k) = (n < (k :: 32 word))"
  by (metis inc_less_eq_iff)

lemma word_less_inc_iff: "n \<noteq> - 1 \<Longrightarrow> (k < n + 1) = (k \<le> (n :: 32 word))"
  by (meson less_inc_imp_less_eq linorder_not_less word_inc_le_iff)

lemma unat_inc: "n \<noteq> - 1 \<Longrightarrow> unat (n + 1 :: 32 word) = Suc (unat n)"
  using unatSuc [of n] by (simp add: add.commute add_eq_0_iff)

lemma frames_invI:
  assumes "distinct (map fst (pending f))" and "\<And>k v. (k, v) \<in> set (pending f) \<Longrightarrow> v = sent k"
    and "fst ` set (pending f) = {k \<in> seen. next_seq f \<le> k}"
    and "\<And>k. k < next_seq f \<Longrightarrow> k \<in> seen"
    and "\<And>k. k \<in> seen \<Longrightarrow> unat k \<le> unat (next_seq f) + 64"
    and "pending_bytes f = sum_list (map (length \<circ> snd) (pending f))"
    and "pending_bytes f \<le> MAX_PENDING_BYTES"
  shows "frames_inv sent seen f"
  using assms unfolding frames_inv_def by auto

lemma inv_release_step:
  assumes inv: "frames_inv sent seen f" and n: "next_seq f \<in> seen" "next_seq f \<noteq> - 1"
  shows "frames_inv sent seen ((remove_pending (next_seq f) f)
    \<lparr>pending_bytes := pending_bytes f - length (sent (next_seq f)), next_seq := next_seq f + 1\<rparr>)"
proof (rule frames_invI, goal_cases)
  case 1
  then show ?case using frames_invD(1) [OF inv] by (simp add: remove_pending_def distinct_map_filter)
next
  case (2 k v)
  then show ?case using frames_invD(2) [OF inv] by (simp add: remove_pending_def)
next
  case 3
  have "fst ` set (filter (\<lambda>(j, _). j \<noteq> next_seq f) (pending f)) = fst ` set (pending f) - {next_seq f}"
    by force
  then show ?case
    unfolding frames_invD(3) [OF inv] using n(2)
    by (auto simp: remove_pending_def word_inc_le_iff)
next
  case (4 k)
  then show ?case
    using frames_invD(4) [OF inv, of k] n by (auto simp: word_less_inc_iff order_le_less)
next
  case (5 k)
  then show ?case using frames_invD(5) [OF inv, of k] n(2) by (simp add: unat_inc)
next
  case 6
  have "(next_seq f, sent (next_seq f)) \<in> set (pending f)"
    using map_of_inv [OF inv, of "next_seq f"] n(1) by (auto intro: map_of_SomeD)
  from sum_filter_key [OF frames_invD(1) [OF inv] this] show ?case
    using frames_invD(6) [OF inv] by (simp add: remove_pending_def)
next
  case 7
  then show ?case using frames_invD(7) [OF inv] by simp
qed

lemma release_run:
  assumes "frames_inv sent seen f" and "release f ready = (Inr out, f')"
  shows "frames_inv sent seen f' \<and> next_seq f' \<notin> seen \<and> unat (next_seq f) \<le> unat (next_seq f')
    \<and> out = ready @ map (sent \<circ> word_of_nat) [unat (next_seq f) ..< unat (next_seq f')]"
  using assms
proof (induction "length (pending f)" arbitrary: f ready rule: less_induct)
  case less
  let ?n = "next_seq f"
  show ?case
  proof (cases "?n \<in> seen")
    case False
    then have "map_of (pending f) ?n = None" using map_of_inv [OF less.prems(1)] by simp
    with less.prems False show ?thesis by (subst (asm) release.simps) simp
  next
    case True
    let ?f = "(remove_pending ?n f)\<lparr>pending_bytes := pending_bytes f - length (sent ?n), next_seq := ?n + 1\<rparr>"
    have some: "map_of (pending f) ?n = Some (sent ?n)"
      using map_of_inv [OF less.prems(1)] True by simp
    have n: "?n \<noteq> - 1" and rel: "release ?f (ready @ [sent ?n]) = (Inr out, f')"
      using less.prems(2) some
      by (subst (asm) release.simps; simp add: Let_def advance_def remove_pending_def split: if_splits)+
    have "length (pending ?f) < length (pending f)"
      using filter_key_less [OF some] by (simp add: remove_pending_def)
    from less.hyps [OF this inv_release_step [OF less.prems(1) True n] rel]
    have IH: "frames_inv sent seen f' \<and> next_seq f' \<notin> seen \<and> Suc (unat ?n) \<le> unat (next_seq f')
        \<and> out = (ready @ [sent ?n]) @ map (sent \<circ> word_of_nat) [Suc (unat ?n) ..< unat (next_seq f')]"
      using n by (simp add: unat_inc)
    then show ?thesis by (simp add: upt_conv_Cons)
  qed
qed

lemma inv_advance:
  assumes inv: "frames_inv sent seen f" and gap: "next_seq f \<notin> seen" and n: "next_seq f \<noteq> - 1"
  shows "frames_inv (sent(next_seq f := p)) (insert (next_seq f) seen) (f\<lparr>next_seq := next_seq f + 1\<rparr>)"
proof (rule frames_invI, goal_cases)
  case (2 k v)
  then have "k \<in> fst ` set (pending f)" by force
  then have "k \<noteq> next_seq f" using frames_invD(3) [OF inv] gap by auto
  with 2 frames_invD(2) [OF inv] show ?case by simp
next
  case 3
  have "next_seq f < x \<longleftrightarrow> next_seq f \<le> x" if "x \<in> seen" for x
    using gap that by (metis order_le_less)
  then show ?case using frames_invD(3) [OF inv] n by (auto simp: word_inc_le_iff)
next
  case (4 k)
  then show ?case using frames_invD(4) [OF inv, of k] n
    by (auto simp: word_less_inc_iff order_le_less)
next
  case (5 k)
  then show ?case using frames_invD(5) [OF inv, of k] n by (auto simp: unat_inc)
qed (use frames_invD [OF inv] in simp_all)

text \<open>
  Between two pushes the next number is one that was not seen: every run that can be released
  has been.
\<close>

lemma ordered_push_run:
  assumes inv: "frames_inv sent seen f" and gap: "next_seq f \<notin> seen"
    and p: "ordered_push f seq (sent seq) = (Inr out, f')"
  shows "frames_inv sent (insert seq seen) f' \<and> next_seq f' \<notin> insert seq seen
    \<and> unat (next_seq f) \<le> unat (next_seq f')
    \<and> out = map (sent \<circ> word_of_nat) [unat (next_seq f) ..< unat (next_seq f')]"
proof -
  note push = p [unfolded ordered_push_def]
  have found: "map_of (pending f) seq \<noteq> None \<longleftrightarrow> seq \<in> seen \<and> next_seq f \<le> seq"
    using map_of_inv [OF inv, of seq] by simp
  consider (dup) "seq \<in> seen" | (later) "seq \<notin> seen" "next_seq f < seq" | (now) "seq \<notin> seen" "seq = next_seq f"
    using frames_invD(4) [OF inv, of seq] by (metis linorder_neqE)
  then show ?thesis
  proof cases
    case dup
    then have "seq < next_seq f \<or> map_of (pending f) seq \<noteq> None" using found by auto
    with push have "out = []" "f' = f" by simp_all
    with dup inv gap show ?thesis by (simp add: insert_absorb)
  next
    case later
    with found push have dist: "\<not> seq - next_seq f > MAX_REORDER_DISTANCE"
      and bytes: "pending_bytes f + length (sent seq) \<le> MAX_PENDING_BYTES"
      and out: "out = []" "f' = f\<lparr>pending := (seq, sent seq) # pending f,
        pending_bytes := pending_bytes f + length (sent seq)\<rparr>"
      by (auto simp: Let_def split: if_splits)
    have "unat (seq - next_seq f) = unat seq - unat (next_seq f)"
      using later(2) by (simp add: unat_sub order_less_imp_le)
    with dist have "unat seq \<le> unat (next_seq f) + 64"
      by (simp add: MAX_REORDER_DISTANCE_def word_less_nat_alt)
    moreover have "seq \<notin> fst ` set (pending f)" using later frames_invD(3) [OF inv] by simp
    ultimately have "frames_inv sent (insert seq seen) f'"
      using frames_invD [OF inv] later bytes unfolding out
      by (intro frames_invI) auto
    with later gap out show ?thesis by simp
  next
    case now
    then have "map_of (pending f) seq = None" using found by simp
    with push now have n: "next_seq f \<noteq> - 1"
      and rel: "release (f\<lparr>next_seq := next_seq f + 1\<rparr>) [sent seq] = (Inr out, f')"
      by (auto simp: advance_def split: if_splits)
    have "frames_inv sent (insert seq seen) (f\<lparr>next_seq := next_seq f + 1\<rparr>)"
      using inv_advance [OF inv gap n, of "sent seq"] now by simp
    from release_run [OF this rel] n now show ?thesis
      by (auto simp: unat_inc upt_conv_Cons)
  qed
qed

lemma receive_records_run:
  assumes "frames_inv sent seen f" and "next_seq f \<notin> seen"
    and "receive_records f (map (\<lambda>k. (k, sent k)) ks) = Inr (out, f')"
  shows "frames_inv sent (set ks \<union> seen) f' \<and> next_seq f' \<notin> set ks \<union> seen
    \<and> unat (next_seq f) \<le> unat (next_seq f')
    \<and> out = map (sent \<circ> word_of_nat) [unat (next_seq f) ..< unat (next_seq f')]"
  using assms
proof (induction ks arbitrary: seen f out)
  case (Cons k ks)
  from Cons.prems(3) obtain o1 f1 o2 where p: "ordered_push f k (sent k) = (Inr o1, f1)"
    and r: "receive_records f1 (map (\<lambda>k. (k, sent k)) ks) = Inr (o2, f')" and out: "out = o1 @ o2"
    by (auto simp: bindR_eq_Inr split: prod.splits sum.splits)
  note a = ordered_push_run [OF Cons.prems(1,2) p]
  from Cons.IH [OF _ _ r, of "insert k seen"] a
  have b: "frames_inv sent (set ks \<union> insert k seen) f' \<and> next_seq f' \<notin> set ks \<union> insert k seen
    \<and> unat (next_seq f1) \<le> unat (next_seq f')
    \<and> o2 = map (sent \<circ> word_of_nat) [unat (next_seq f1) ..< unat (next_seq f')]" by blast
  have "[unat (next_seq f) ..< unat (next_seq f')] =
      [unat (next_seq f) ..< unat (next_seq f1)] @ [unat (next_seq f1) ..< unat (next_seq f')]"
    using a b by (metis le_add_diff_inverse upt_add_eq_append)
  with a b out show ?case by simp
qed simp

lemma empty_frames_inv: "frames_inv sent {} empty_frames"
  by (rule frames_invI) (simp_all add: empty_frames_def MAX_PENDING_BYTES_def)

section \<open>Claims on reordering\<close>

text \<open>
  C10. In whatever order and however often the peer's numbered records arrive, as long as no
  error is reported the records handed on are exactly records 0, 1, 2, ... in order and once
  each, up to the first number that has not arrived; nothing that could be handed on is held
  back, and no more than one mebibyte is ever held.
\<close>

theorem ordered_delivery:
  assumes "receive_records empty_frames (map (\<lambda>k. (k, sent k)) ks) = Inr (out, f)"
  shows "out = map (sent \<circ> word_of_nat) [0 ..< unat (next_seq f)]
    \<and> next_seq f \<notin> set ks \<and> {k. k < next_seq f} \<subseteq> set ks
    \<and> fst ` set (pending f) = {k \<in> set ks. next_seq f < k}
    \<and> pending_bytes f = sum_list (map (length \<circ> snd) (pending f))
    \<and> pending_bytes f \<le> MAX_PENDING_BYTES"
proof -
  have run: "frames_inv sent (set ks) f" "next_seq f \<notin> set ks"
    "out = map (sent \<circ> word_of_nat) [0 ..< unat (next_seq f)]"
    using receive_records_run [OF empty_frames_inv _ assms] by (simp_all add: empty_frames_def)
  then have "{k \<in> set ks. next_seq f \<le> k} = {k \<in> set ks. next_seq f < k}"
    by (auto simp: order_le_less)
  with run frames_invD [OF run(1)] show ?thesis by auto
qed

lemma release_in_window:
  assumes "frames_inv sent seen f" and "- 1 \<notin> seen"
  shows "\<exists>out f'. release f ready = (Inr out, f')"
  using assms(1)
proof (induction "length (pending f)" arbitrary: f ready rule: less_induct)
  case less
  let ?n = "next_seq f"
  show ?case
  proof (cases "?n \<in> seen")
    case False
    then have "map_of (pending f) ?n = None" using map_of_inv [OF less.prems] by simp
    then show ?thesis by (subst release.simps) simp
  next
    case True
    let ?f = "(remove_pending ?n f)\<lparr>pending_bytes := pending_bytes f - length (sent ?n), next_seq := ?n + 1\<rparr>"
    have some: "map_of (pending f) ?n = Some (sent ?n)"
      using map_of_inv [OF less.prems] True by simp
    have n: "?n \<noteq> - 1" using True assms(2) by metis
    have "length (pending ?f) < length (pending f)"
      using filter_key_less [OF some] by (simp add: remove_pending_def)
    from less.hyps [OF this inv_release_step [OF less.prems True n], of "ready @ [sent ?n]"]
    show ?thesis
      using some n by (subst release.simps) (simp add: Let_def advance_def remove_pending_def)
  qed
qed

lemma unat_distance: "n < (k :: 32 word) \<Longrightarrow> k - n > MAX_REORDER_DISTANCE \<longleftrightarrow> unat k > unat n + 64"
  by (auto simp: MAX_REORDER_DISTANCE_def word_less_nat_alt unat_sub order_less_imp_le)

text \<open>
  When a record is refused: if it lies more than 64 ahead, if it would make the pending
  bytes exceed their limit, or if the last sequence number was used up. Records of the window
  are never refused for another reason, and a refused record leaves the state as it was.
\<close>

lemma refused_records:
  assumes "receive_records empty_frames (map (\<lambda>k. (k, sent k)) ks) = Inr (out, f)"
    and fresh: "- 1 \<notin> set ks"
  shows "(\<exists>e. ordered_push f seq payload = (Inl e, f)) \<longleftrightarrow>
      seq \<notin> set ks
      \<and> (next_seq f < seq \<and> (unat seq > unat (next_seq f) + 64
                            \<or> pending_bytes f + length payload > MAX_PENDING_BYTES)
         \<or> seq = next_seq f \<and> seq = - 1)"
    (is "?refused \<longleftrightarrow> ?cond")
proof -
  have inv: "frames_inv sent (set ks) f" and gap: "next_seq f \<notin> set ks"
    using receive_records_run [OF empty_frames_inv _ assms(1)] by (simp_all add: empty_frames_def)
  have found: "map_of (pending f) seq \<noteq> None \<longleftrightarrow> seq \<in> set ks \<and> next_seq f \<le> seq"
    using map_of_inv [OF inv, of seq] by simp
  consider (dup) "seq \<in> set ks" | (later) "seq \<notin> set ks" "next_seq f < seq"
    | (now) "seq \<notin> set ks" "seq = next_seq f"
    using frames_invD(4) [OF inv, of seq] by (metis linorder_neqE)
  then show ?thesis
  proof cases
    case dup
    then have "seq < next_seq f \<or> map_of (pending f) seq \<noteq> None" using found by auto
    with dup show ?thesis by (simp add: ordered_push_def)
  next
    case later
    with found unat_distance [OF later(2)] show ?thesis
      by (auto simp: ordered_push_def Let_def)
  next
    case now
    then have none: "map_of (pending f) seq = None" using found by simp
    show ?thesis
    proof (cases "seq = - 1")
      case True
      with now none show ?thesis by (auto simp: ordered_push_def advance_def)
    next
      case False
      have "- 1 \<notin> insert (next_seq f) (set ks)" using False now fresh by auto
      with release_in_window [OF inv_advance [OF inv gap, of payload]] False now
      obtain o1 f1 where "release (f\<lparr>next_seq := next_seq f + 1\<rparr>) [payload] = (Inr o1, f1)" by blast
      with now none False show ?thesis by (simp add: ordered_push_def advance_def)
    qed
  qed
qed

lemma receive_three:
  "receive_records empty_frames (map (\<lambda>k. (k, [ucast k])) [1, 0, 1]) =
     Inr ([[0], [1]], \<lparr>next_seq = 2, pending = [], pending_bytes = 0\<rparr>)"
  by (simp add: empty_frames_def ordered_push_def MAX_REORDER_DISTANCE_def MAX_PENDING_BYTES_def
      advance_def release.simps remove_pending_def)

theorem ordered_delivery_witness:
  "receive_records empty_frames (map (\<lambda>k. (k, [ucast k])) [1, 0, 1]) =
     Inr (map ((\<lambda>k. [ucast k]) \<circ> (word_of_nat :: nat \<Rightarrow> 32 word)) [0 ..< 2],
          \<lparr>next_seq = 2, pending = [], pending_bytes = 0\<rparr>)"
  using ordered_delivery [OF receive_three] receive_three by simp

section \<open>The two together\<close>

text \<open>
  C16. End to end: the sender frames messages, cuts the bytes into numbered records and encrypts
  each; the relay may reorder and repeat records. If every record arrives and none is refused,
  then putting the records in order, decrypting them and decoding gives exactly the messages.
\<close>

theorem relay_end_to_end:
  assumes frames: "collectR (frame_jsonrpc_message to_json) ms = Inr fs"
    and json: "\<And>m. m \<in> set ms \<Longrightarrow> from_json (to_json m) = Some m \<and> to_json m \<noteq> []"
    and cut: "concat rs = concat fs" "list_all (\<lambda>r. length r \<le> NOISE_RECORD_PLAINTEXT_LEN) rs"
    and noise: "\<And>k r. decrypt k (encrypt k r) = r"
    and count: "length rs < 2 ^ 32"
    and arrived: "set ks = {k. unat k < length rs}"
    and received: "receive_records empty_frames
      (map (\<lambda>k. (k, encrypt k (rs ! unat k))) ks) = Inr (out, f)"
  shows "decode_records from_json []
    (map (\<lambda>i. decrypt (word_of_nat i) (out ! i)) [0 ..< length out]) = Inr (ms, [])"
proof -
  let ?sent = "\<lambda>k. encrypt k (rs ! unat k)"
  have run: "frames_inv ?sent (set ks) f" "next_seq f \<notin> set ks"
    "out = map (?sent \<circ> word_of_nat) [0 ..< unat (next_seq f)]"
    using receive_records_run [OF empty_frames_inv _ received] by (simp_all add: empty_frames_def)
  have small: "unat (word_of_nat i :: 32 word) = i" if "i < length rs" for i
    using that count by (simp add: unat_of_nat take_bit_nat_eq_self)
  have "unat (next_seq f) = length rs"
  proof (rule antisym)
    show "length rs \<le> unat (next_seq f)" using run(2) arrived by simp
    show "unat (next_seq f) \<le> length rs"
    proof (rule ccontr)
      assume "\<not> ?thesis"
      moreover have "unat (word_of_nat (length rs) :: 32 word) = length rs"
        using count by (simp add: unat_of_nat take_bit_nat_eq_self)
      ultimately have "word_of_nat (length rs) \<in> set ks"
        using frames_invD(4) [OF run(1), of "word_of_nat (length rs)"] by (simp add: word_less_nat_alt)
      with arrived \<open>unat (word_of_nat (length rs) :: 32 word) = length rs\<close> show False by simp
    qed
  qed
  then have "map (\<lambda>i. decrypt (word_of_nat i) (out ! i)) [0 ..< length out] = rs"
    using run(3) by (intro nth_equalityI) (simp_all add: small noise)
  moreover have "list_all2 (\<lambda>m f. frame_jsonrpc_message to_json m = Inr f) ms fs"
    using frames by (simp add: collectR_eq_Inr)
  from take_all_framed [OF this json] have "take_messages from_json (concat fs) [] = (Inr ms, [])"
    by simp
  ultimately show ?thesis
    using decode_records_eq [OF cut(2) take_messages_Nil, of from_json] cut(1) by simp
qed

theorem relay_end_to_end_witness:
  "decode_records (\<lambda>b. Some b) [] [[0, 0, 0], [2, 7, 8]] = Inr ([[7, 8]], [])"
proof -
  have frames: "collectR (frame_jsonrpc_message id) [[7, 8]] = Inr [[0, 0, 0, 2, 7, 8]]"
    by (simp add: frame_jsonrpc_message_def MAX_NOISE_JSONRPC_MESSAGE_LEN_def to_be_bytes_def)
  have received: "receive_records empty_frames
      (map (\<lambda>k. (k, ucast k # ([[0, 0, 0], [2, 7, 8]] ! unat k))) [1, 0]) =
      Inr ([[0, 0, 0, 0], [1, 2, 7, 8]], \<lparr>next_seq = 2, pending = [], pending_bytes = 0\<rparr>)"
    by (simp add: empty_frames_def ordered_push_def MAX_REORDER_DISTANCE_def MAX_PENDING_BYTES_def
      advance_def release.simps remove_pending_def)
  have arrived: "set [1, 0] = {k :: 32 word. unat k < length [[0, 0, 0 :: 8 word], [2, 7, 8]]}"
    by (auto simp: word_unat_eq_iff less_Suc_eq)
  from relay_end_to_end [where encrypt = "\<lambda>k r. ucast k # r" and decrypt = "\<lambda>k r. tl r"
      and from_json = "\<lambda>b. Some b", OF frames _ _ _ _ _ arrived received]
  show ?thesis by (simp add: NOISE_RECORD_PLAINTEXT_LEN_def del: decode_records.simps)
qed

end
