(* ===== verification/Exec_Policy.thy ===== *)
theory Exec_Policy
  imports Codex_Prelude "HOL-Library.Char_ord" "HOL-Library.List_Lexorder"
begin

text \<open>
  The command policy (\<open>decision.rs\<close>, \<open>rule.rs\<close>, \<open>policy.rs\<close>, \<open>executable_name.rs\<close>,
  \<open>parser.rs\<close> and \<open>amend.rs\<close> under \<open>src/codex/codex-rs/execpolicy/src\<close>): rules on the first
  words of a command, their evaluation, the builtins a policy file is made of, and how a rule
  is appended to such a file. Unix paths; \<open>abs_path\<close> stands for \<open>AbsolutePathBuf::try_from\<close>
  (which reads the home and the working directory), \<open>shlex\<close> for \<open>shlex::split\<close>.
\<close>

section \<open>Decisions\<close>

datatype decision = Allow | Prompt | Forbidden

fun decision_rank :: "decision \<Rightarrow> nat" where
  "decision_rank Allow = 0"
| "decision_rank Prompt = 1"
| "decision_rank Forbidden = 2"

lemma decision_rank_inj: "decision_rank a = decision_rank b \<Longrightarrow> a = b"
  by (cases a; cases b) simp_all

instantiation decision :: linorder
begin

definition less_eq_decision :: "decision \<Rightarrow> decision \<Rightarrow> bool" where
  "less_eq_decision a b \<longleftrightarrow> decision_rank a \<le> decision_rank b"

definition less_decision :: "decision \<Rightarrow> decision \<Rightarrow> bool" where
  "less_decision a b \<longleftrightarrow> decision_rank a < decision_rank b"

instance
  by standard (auto simp: less_eq_decision_def less_decision_def intro: decision_rank_inj)

end

record text_range =
  start_line :: nat
  start_column :: nat
  end_line :: nat
  end_column :: nat

record error_location =
  el_path :: string
  el_range :: text_range

section \<open>Rules\<close>

datatype pattern_token = Single string | Alts "string list"

fun token_matches :: "pattern_token \<Rightarrow> string \<Rightarrow> bool" where
  "token_matches (Single expected) token = (expected = token)"
| "token_matches (Alts alternatives) token = list_ex (\<lambda>alt. alt = token) alternatives"

fun alternatives_of :: "pattern_token \<Rightarrow> string list" where
  "alternatives_of (Single expected) = [expected]"
| "alternatives_of (Alts alternatives) = alternatives"

record prefix_pattern =
  first_token :: string
  rest_tokens :: "pattern_token list"

definition matches_prefix :: "prefix_pattern \<Rightarrow> string list \<Rightarrow> string list option" where
  "matches_prefix p cmd =
     (let pattern_length = length (rest_tokens p) + 1 in
      if length cmd < pattern_length \<or> hd cmd \<noteq> first_token p then None
      else if list_all (\<lambda>(t, c). token_matches t c)
                (zip (rest_tokens p) (drop 1 (take pattern_length cmd)))
      then Some (take pattern_length cmd)
      else None)"

datatype rule_match =
  PrefixRuleMatch (matched_prefix: "string list") (pm_decision: decision)
    (resolved_program: "string option") (pm_justification: "string option")
| HeuristicsRuleMatch (hm_command: "string list") (hm_decision: decision)

fun match_decision :: "rule_match \<Rightarrow> decision" where
  "match_decision (PrefixRuleMatch _ d _ _) = d"
| "match_decision (HeuristicsRuleMatch _ d) = d"

fun with_resolved_program :: "string \<Rightarrow> rule_match \<Rightarrow> rule_match" where
  "with_resolved_program path (PrefixRuleMatch pre d _ j) = PrefixRuleMatch pre d (Some path) j"
| "with_resolved_program path other = other"

record prefix_rule =
  rule_pattern :: prefix_pattern
  rule_decision :: decision
  rule_justification :: "string option"

definition rule_program :: "prefix_rule \<Rightarrow> string" where
  "rule_program r = first_token (rule_pattern r)"

definition rule_matches :: "prefix_rule \<Rightarrow> string list \<Rightarrow> rule_match option" where
  "rule_matches r cmd =
     map_option (\<lambda>pre. PrefixRuleMatch pre (rule_decision r) None (rule_justification r))
       (matches_prefix (rule_pattern r) cmd)"

datatype network_rule_protocol = Http | Https | Socks5Tcp | Socks5Udp

record network_rule =
  nr_host :: string
  nr_protocol :: network_rule_protocol
  nr_decision :: decision
  nr_justification :: "string option"

text \<open>
  The errors of the crate. Where the code renders rules and examples into the message the
  model keeps them as they are.
\<close>

datatype policy_error =
  InvalidDecision string
| InvalidPattern string
| InvalidExample string
| InvalidRule string
| ExampleDidNotMatch "prefix_rule list" "string list list" "error_location option"
| ExampleDidMatch rule_match "string list" "error_location option"

fun with_location :: "error_location \<Rightarrow> policy_error \<Rightarrow> policy_error" where
  "with_location l (ExampleDidNotMatch rs es None) = ExampleDidNotMatch rs es (Some l)"
| "with_location l (ExampleDidMatch r e None) = ExampleDidMatch r e (Some l)"
| "with_location l other = other"

definition decision_parse :: "string \<Rightarrow> (policy_error, decision) result" where
  "decision_parse raw =
     (if raw = ''allow'' then Ok Allow
      else if raw = ''prompt'' then Ok Prompt
      else if raw = ''forbidden'' then Ok Forbidden
      else Err (InvalidDecision raw))"

definition protocol_parse :: "string \<Rightarrow> (policy_error, network_rule_protocol) result" where
  "protocol_parse raw =
     (if raw = ''http'' then Ok Http
      else if raw \<in> {''https'', ''https_connect'', ''http-connect''} then Ok Https
      else if raw = ''socks5_tcp'' then Ok Socks5Tcp
      else if raw = ''socks5_udp'' then Ok Socks5Udp
      else Err (InvalidRule (''network_rule protocol must be one of http, https, socks5_tcp, socks5_udp (got ''
             @ raw @ '')'')))"

fun as_policy_string :: "network_rule_protocol \<Rightarrow> string" where
  "as_policy_string Http = ''http''"
| "as_policy_string Https = ''https''"
| "as_policy_string Socks5Tcp = ''socks5_tcp''"
| "as_policy_string Socks5Udp = ''socks5_udp''"

definition rsplit_once :: "char \<Rightarrow> string \<Rightarrow> (string \<times> string) option" where
  "rsplit_once c s = map_option (\<lambda>(a, b). (rev b, rev a)) (split_once c (rev s))"

definition trim_end_matches :: "char \<Rightarrow> string \<Rightarrow> string" where
  "trim_end_matches c s = rev (dropWhile (\<lambda>d. d = c) (rev s))"

definition is_port :: "string \<Rightarrow> bool" where
  "is_port port \<longleftrightarrow> port \<noteq> [] \<and> list_all is_ascii_digit port"

text \<open>The host without its brackets or port.\<close>

definition strip_host_port :: "string \<Rightarrow> string \<Rightarrow> (policy_error, string) result" where
  "strip_host_port raw host =
     (case strip_prefix ''['' host of
        Some stripped \<Rightarrow>
          (case split_once (CHR '']'') stripped of
             None \<Rightarrow> Err (InvalidRule ''network_rule host has an invalid bracketed IPv6 literal'')
           | Some (inside, rest) \<Rightarrow>
               (let port_ok = (case strip_prefix '':'' rest of Some port \<Rightarrow> is_port port | None \<Rightarrow> False) in
                if rest \<noteq> [] \<and> \<not> port_ok
                then Err (InvalidRule (''network_rule host contains an unsupported suffix: '' @ raw))
                else Ok inside))
      | None \<Rightarrow>
          (if count_list host (CHR '':'') = 1 then
             (case rsplit_once (CHR '':'') host of
                Some (candidate, port) \<Rightarrow>
                  if candidate \<noteq> [] \<and> is_port port then Ok candidate else Ok host
              | None \<Rightarrow> Ok host)
           else Ok host))"

definition normalize_network_rule_host :: "string \<Rightarrow> (policy_error, string) result" where
  "normalize_network_rule_host raw =
     (let host = trim raw in
      if host = [] then Err (InvalidRule ''network_rule host cannot be empty'')
      else if contains_str host ''://'' \<or> CHR ''/'' \<in> set host \<or> CHR ''?'' \<in> set host
              \<or> CHR ''#'' \<in> set host
      then Err (InvalidRule ''network_rule host must be a hostname or IP literal (without scheme or path)'')
      else
        bindR (strip_host_port raw host) (\<lambda>host.
        let normalized = to_ascii_lowercase (trim (trim_end_matches (CHR ''.'') host)) in
        if normalized = [] then Err (InvalidRule ''network_rule host cannot be empty'')
        else if CHR ''*'' \<in> set normalized
        then Err (InvalidRule ''network_rule host must be a specific host; wildcards are not allowed'')
        else if has_whitespace normalized
        then Err (InvalidRule ''network_rule host cannot contain whitespace'')
        else Ok normalized))"

section \<open>Executable names\<close>

definition executable_lookup_key :: "string \<Rightarrow> string" where
  "executable_lookup_key raw = raw"

definition executable_path_lookup_key :: "string \<Rightarrow> string option" where
  "executable_path_lookup_key path = map_option executable_lookup_key (file_name path)"

section \<open>Policies\<close>

text \<open>A \<open>MultiMap\<close>: one list of values per key.\<close>

type_synonym 'v multimap = "(string \<times> 'v list) list"

fun mm_insert :: "string \<Rightarrow> 'v \<Rightarrow> 'v multimap \<Rightarrow> 'v multimap" where
  "mm_insert k v [] = [(k, [v])]"
| "mm_insert k v ((j, vs) # m) = (if j = k then (j, vs @ [v]) # m else (j, vs) # mm_insert k v m)"

record policy =
  rules_by_program :: "prefix_rule multimap"
  network_rules :: "network_rule list"
  host_executables_by_name :: "string \<Rightarrow> string list option"

definition from_parts ::
  "prefix_rule multimap \<Rightarrow> network_rule list \<Rightarrow> (string \<Rightarrow> string list option) \<Rightarrow> policy" where
  "from_parts rs ns hs =
     \<lparr>rules_by_program = rs, network_rules = ns, host_executables_by_name = hs\<rparr>"

definition empty_policy :: policy where
  "empty_policy = from_parts [] [] Map.empty"

fun render_pattern_token :: "pattern_token \<Rightarrow> string" where
  "render_pattern_token (Single value) = value"
| "render_pattern_token (Alts alternatives) = ''['' @ join ''|'' alternatives @ '']''"

definition get_allowed_prefixes :: "policy \<Rightarrow> string list list" where
  "get_allowed_prefixes p =
     remdups_adj (sort (map
       (\<lambda>r. first_token (rule_pattern r) # map render_pattern_token (rest_tokens (rule_pattern r)))
       (filter (\<lambda>r. rule_decision r = Allow) (concat (map snd (rules_by_program p))))))"

definition add_prefix_rule :: "string list \<Rightarrow> decision \<Rightarrow> policy \<Rightarrow> (policy_error, policy) result" where
  "add_prefix_rule pre d p =
     (case pre of
        [] \<Rightarrow> Err (InvalidPattern ''prefix cannot be empty'')
      | first # rest \<Rightarrow>
          Ok (p\<lparr>rules_by_program := mm_insert first
                \<lparr>rule_pattern = \<lparr>first_token = first, rest_tokens = map Single rest\<rparr>,
                 rule_decision = d, rule_justification = None\<rparr> (rules_by_program p)\<rparr>))"

definition checked_justification :: "string option \<Rightarrow> (policy_error, string option) result" where
  "checked_justification j =
     (case j of
        Some raw \<Rightarrow> (if trim raw = [] then Err (InvalidRule ''justification cannot be empty'')
                     else Ok (Some raw))
      | None \<Rightarrow> Ok None)"

definition policy_add_network_rule ::
  "string \<Rightarrow> network_rule_protocol \<Rightarrow> decision \<Rightarrow> string option \<Rightarrow> policy
    \<Rightarrow> (policy_error, policy) result" where
  "policy_add_network_rule host protocol d justification p =
     bindR (normalize_network_rule_host host) (\<lambda>host.
     bindR (checked_justification justification) (\<lambda>justification.
     Ok (p\<lparr>network_rules := network_rules p @
       [\<lparr>nr_host = host, nr_protocol = protocol, nr_decision = d,
         nr_justification = justification\<rparr>]\<rparr>)))"

definition set_host_executable_paths :: "string \<Rightarrow> string list \<Rightarrow> policy \<Rightarrow> policy" where
  "set_host_executable_paths name paths p =
     p\<lparr>host_executables_by_name := (host_executables_by_name p)(name \<mapsto> paths)\<rparr>"

definition merge_overlay :: "policy \<Rightarrow> policy \<Rightarrow> policy" where
  "merge_overlay p overlay = from_parts
     (fold (\<lambda>(program, rules) m. fold (\<lambda>rule m. mm_insert program rule m) rules m)
        (rules_by_program overlay) (rules_by_program p))
     (network_rules p @ network_rules overlay)
     (host_executables_by_name p ++ host_executables_by_name overlay)"

definition upsert_domain :: "string \<Rightarrow> string list \<Rightarrow> string list" where
  "upsert_domain host entries = filter (\<lambda>e. e \<noteq> host) entries @ [host]"

definition compile_rule :: "network_rule \<Rightarrow> string list \<times> string list \<Rightarrow> string list \<times> string list" where
  "compile_rule r ad =
     (case ad of (allowed, denied) \<Rightarrow>
        (case nr_decision r of
           Allow \<Rightarrow> (upsert_domain (nr_host r) allowed, filter (\<lambda>e. e \<noteq> nr_host r) denied)
         | Forbidden \<Rightarrow> (filter (\<lambda>e. e \<noteq> nr_host r) allowed, upsert_domain (nr_host r) denied)
         | Prompt \<Rightarrow> (allowed, denied)))"

definition compiled_network_domains :: "policy \<Rightarrow> string list \<times> string list" where
  "compiled_network_domains p = fold compile_rule (network_rules p) ([], [])"

definition match_exact_rules :: "policy \<Rightarrow> string list \<Rightarrow> rule_match list option" where
  "match_exact_rules p cmd =
     (case cmd of
        [] \<Rightarrow> None
      | first # _ \<Rightarrow>
          Some (case map_of (rules_by_program p) first of
                  Some rules \<Rightarrow> List.map_filter (\<lambda>r. rule_matches r cmd) rules
                | None \<Rightarrow> []))"

definition match_host_executable_rules ::
  "(string \<Rightarrow> string option) \<Rightarrow> policy \<Rightarrow> string list \<Rightarrow> rule_match list" where
  "match_host_executable_rules abs_path p cmd =
     (case cmd of
        [] \<Rightarrow> []
      | first # args \<Rightarrow>
        (case abs_path first of
           None \<Rightarrow> []
         | Some program \<Rightarrow>
           (case executable_path_lookup_key program of
              None \<Rightarrow> []
            | Some basename \<Rightarrow>
              (case map_of (rules_by_program p) basename of
                 None \<Rightarrow> []
               | Some rules \<Rightarrow>
                 if (case host_executables_by_name p basename of
                       Some paths \<Rightarrow> \<not> list_ex (\<lambda>path. path = program) paths
                     | None \<Rightarrow> False)
                 then []
                 else map (with_resolved_program program)
                        (List.map_filter (\<lambda>r. rule_matches r (basename # args)) rules)))))"

definition matches_for_command_with_options ::
  "(string \<Rightarrow> string option) \<Rightarrow> policy \<Rightarrow> string list \<Rightarrow> (string list \<Rightarrow> decision) option \<Rightarrow> bool
    \<Rightarrow> rule_match list" where
  "matches_for_command_with_options abs_path p cmd fallback resolve_host_executables =
     (let exact = (case match_exact_rules p cmd of Some ms \<Rightarrow> ms | None \<Rightarrow> []);
          matched = (if exact \<noteq> [] then exact
                     else if resolve_host_executables then match_host_executable_rules abs_path p cmd
                     else [])
      in case fallback of
           Some h \<Rightarrow> (if matched = [] then [HeuristicsRuleMatch cmd (h cmd)] else matched)
         | None \<Rightarrow> matched)"

record evaluation =
  ev_decision :: decision
  matched_rules :: "rule_match list"

text \<open>\<open>from_matches\<close> panics on no matches, which is the value None.\<close>

definition from_matches :: "rule_match list \<Rightarrow> evaluation option" where
  "from_matches ms =
     (if ms = [] then None
      else Some \<lparr>ev_decision = Max (set (map match_decision ms)), matched_rules = ms\<rparr>)"

definition is_match :: "evaluation \<Rightarrow> bool" where
  "is_match e = list_ex (\<lambda>m. case m of HeuristicsRuleMatch _ _ \<Rightarrow> False | _ \<Rightarrow> True) (matched_rules e)"

definition check_with_options ::
  "(string \<Rightarrow> string option) \<Rightarrow> policy \<Rightarrow> string list \<Rightarrow> (string list \<Rightarrow> decision) \<Rightarrow> bool
    \<Rightarrow> evaluation option" where
  "check_with_options abs_path p cmd h resolve =
     from_matches (matches_for_command_with_options abs_path p cmd (Some h) resolve)"

definition check_policy ::
  "(string \<Rightarrow> string option) \<Rightarrow> policy \<Rightarrow> string list \<Rightarrow> (string list \<Rightarrow> decision) \<Rightarrow> evaluation option" where
  "check_policy abs_path p cmd h = check_with_options abs_path p cmd h False"

definition check_multiple_with_options ::
  "(string \<Rightarrow> string option) \<Rightarrow> policy \<Rightarrow> string list list \<Rightarrow> (string list \<Rightarrow> decision) \<Rightarrow> bool
    \<Rightarrow> evaluation option" where
  "check_multiple_with_options abs_path p cmds h resolve =
     from_matches (concat (map (\<lambda>cmd.
       matches_for_command_with_options abs_path p cmd (Some h) resolve) cmds))"

section \<open>Multimaps\<close>

definition mm_get :: "string \<Rightarrow> 'v multimap \<Rightarrow> 'v list" where
  "mm_get k m = (case map_of m k of Some vs \<Rightarrow> vs | None \<Rightarrow> [])"

text \<open>What the policy relies on: a value is added behind the values its key already has.\<close>

locale multimap_laws =
  fixes mempty :: 'm and minsert :: "'k \<Rightarrow> 'v \<Rightarrow> 'm \<Rightarrow> 'm" and mget :: "'k \<Rightarrow> 'm \<Rightarrow> 'v list"
  assumes mget_empty: "mget k mempty = []"
    and mget_insert: "mget k (minsert j v m) = mget k m @ (if j = k then [v] else [])"
begin

lemma mget_insert_all:
  "mget k (fold (\<lambda>v. minsert j v) vs m) = mget k m @ (if j = k then vs else [])"
  by (induction vs arbitrary: m) (simp_all add: mget_insert)

lemma mget_insert_keyed:
  "mget k (fold (\<lambda>v. minsert (f v) v) vs m) = mget k m @ filter (\<lambda>v. f v = k) vs"
  by (induction vs arbitrary: m) (simp_all add: mget_insert)

lemma mget_insert_pairs:
  "mget k (fold (\<lambda>(j, vs) m. fold (\<lambda>v. minsert j v) vs m) jvs m) =
     mget k m @ concat (map snd (filter (\<lambda>(j, _). j = k) jvs))"
  by (induction jvs arbitrary: m) (auto simp: mget_insert_all)

end

lemma map_of_mm_insert:
  "map_of (mm_insert j v m) k = (if j = k then Some (mm_get k m @ [v]) else map_of m k)"
  by (induction j v m rule: mm_insert.induct) (auto simp: mm_get_def)

interpretation rules: multimap_laws "[]" mm_insert mm_get
  by unfold_locales (simp_all add: mm_get_def map_of_mm_insert)

lemma mm_get_entries: "distinct (map fst m) \<Longrightarrow> concat (map snd (filter (\<lambda>(j, _). j = k) m)) = mm_get k m"
proof (induction m)
  case (Cons e m)
  have "filter (\<lambda>(j, _). j = fst e) m = []"
    using Cons.prems by (auto simp: filter_empty_conv image_iff)
  with Cons show ?case by (cases e) (auto simp: mm_get_def)
qed (simp add: mm_get_def)

section \<open>Evaluation\<close>

lemma match_exact_rules_Cons:
  "match_exact_rules p (c # args) =
     Some (List.map_filter (\<lambda>r. rule_matches r (c # args)) (mm_get c (rules_by_program p)))"
  by (simp add: match_exact_rules_def mm_get_def map_filter_simps split: option.splits)

lemma map_filter_append: "List.map_filter f (xs @ ys) = List.map_filter f xs @ List.map_filter f ys"
  by (simp add: List.map_filter_def)

lemma matches_prefix_iff:
  "matches_prefix p cmd = Some pre \<longleftrightarrow>
     (\<exists>args rest. cmd = first_token p # args @ rest \<and> pre = first_token p # args
        \<and> list_all2 token_matches (rest_tokens p) args)"
proof
  assume m: "matches_prefix p cmd = Some pre"
  then have len: "length (rest_tokens p) + 1 \<le> length cmd" and hd: "hd cmd = first_token p"
    by (auto simp: matches_prefix_def Let_def split: if_splits)
  then obtain args0 where cmd: "cmd = first_token p # args0" by (cases cmd) auto
  let ?n = "length (rest_tokens p)"
  have "pre = first_token p # take ?n args0" and "list_all2 token_matches (rest_tokens p) (take ?n args0)"
    using m len cmd by (auto simp: matches_prefix_def Let_def list_all2_iff list_all_iff split: if_splits)
  then show "\<exists>args rest. cmd = first_token p # args @ rest \<and> pre = first_token p # args
        \<and> list_all2 token_matches (rest_tokens p) args"
    using cmd by (intro exI [of _ "take ?n args0"] exI [of _ "drop ?n args0"]) simp
next
  assume "\<exists>args rest. cmd = first_token p # args @ rest \<and> pre = first_token p # args
        \<and> list_all2 token_matches (rest_tokens p) args"
  then show "matches_prefix p cmd = Some pre"
    by (auto simp: matches_prefix_def Let_def list_all2_iff list_all_iff)
qed

definition matching_decisions :: "policy \<Rightarrow> string list \<Rightarrow> decision set" where
  "matching_decisions p cmd =
     {rule_decision r | r. r \<in> set (mm_get (hd cmd) (rules_by_program p))
        \<and> matches_prefix (rule_pattern r) cmd \<noteq> None}"

lemma set_map_filter: "set (List.map_filter f xs) = {y. \<exists>x \<in> set xs. f x = Some y}"
  by (force simp: List.map_filter_def)

lemma exact_decisions:
  assumes "match_exact_rules p (c # args) = Some ms"
  shows "match_decision ` set ms = matching_decisions p (c # args)"
    and "m \<in> set ms \<Longrightarrow> \<exists>a b x y. m = PrefixRuleMatch a b x y"
proof -
  have ms: "set ms = {m. \<exists>r \<in> set (mm_get c (rules_by_program p)). rule_matches r (c # args) = Some m}"
    using assms unfolding match_exact_rules_Cons by (auto simp: set_map_filter)
  have rm: "rule_matches r (c # args) = Some m \<longleftrightarrow> (\<exists>pre. matches_prefix (rule_pattern r) (c # args) = Some pre
      \<and> m = PrefixRuleMatch pre (rule_decision r) None (rule_justification r))" for r m
    by (auto simp: rule_matches_def)
  show "match_decision ` set ms = matching_decisions p (c # args)"
  proof (intro equalityI subsetI)
    fix d assume "d \<in> match_decision ` set ms"
    then show "d \<in> matching_decisions p (c # args)"
      unfolding ms rm matching_decisions_def by auto
  next
    fix d assume "d \<in> matching_decisions p (c # args)"
    then obtain r pre where "r \<in> set (mm_get c (rules_by_program p))" "d = rule_decision r"
      "matches_prefix (rule_pattern r) (c # args) = Some pre"
      unfolding matching_decisions_def by auto
    then have "PrefixRuleMatch pre d None (rule_justification r) \<in> set ms"
      unfolding ms rm by blast
    then show "d \<in> match_decision ` set ms" by force
  qed
  show "m \<in> set ms \<Longrightarrow> \<exists>a b x y. m = PrefixRuleMatch a b x y"
    unfolding ms rm by blast
qed

lemma finite_matching_decisions [simp]: "finite (matching_decisions p cmd)"
  unfolding matching_decisions_def by simp

lemma check_policy_decision:
  "\<exists>e. check_policy abs_path p (c # args) h = Some e
     \<and> ev_decision e = (if matching_decisions p (c # args) = {} then h (c # args)
                        else Max (matching_decisions p (c # args)))
     \<and> is_match e = (matching_decisions p (c # args) \<noteq> {})"
proof -
  obtain ms where ms: "match_exact_rules p (c # args) = Some ms"
    by (simp add: match_exact_rules_Cons)
  note d = exact_decisions(1) [OF ms] and pre = exact_decisions(2) [OF ms]
  note defs = check_policy_def check_with_options_def matches_for_command_with_options_def
    Let_def from_matches_def is_match_def ms
  show ?thesis
  proof (cases ms)
    case Nil
    with d have "matching_decisions p (c # args) = {}" by simp
    with Nil show ?thesis by (simp add: defs)
  next
    case (Cons m ms')
    then have "matching_decisions p (c # args) \<noteq> {}" using d by auto
    moreover obtain a b x y where "m = PrefixRuleMatch a b x y" using pre [of m] Cons by auto
    ultimately show ?thesis
      using d Cons by (simp add: defs)
  qed
qed

lemma merge_overlay_rules:
  "distinct (map fst (rules_by_program q)) \<Longrightarrow>
     mm_get k (rules_by_program (merge_overlay p q)) =
     mm_get k (rules_by_program p) @ mm_get k (rules_by_program q)"
  using rules.mget_insert_pairs [of k "rules_by_program q" "rules_by_program p"]
  by (simp add: merge_overlay_def from_parts_def mm_get_entries)

lemma merge_overlay_decisions:
  "distinct (map fst (rules_by_program q)) \<Longrightarrow>
     matching_decisions (merge_overlay p q) cmd = matching_decisions p cmd \<union> matching_decisions q cmd"
  by (auto simp: matching_decisions_def merge_overlay_rules)

section \<open>Claims\<close>

text \<open>
  C3. Evaluating a command never panics and gives the strictest decision among the rules whose
  pattern the command starts with; only a command no rule matches is left to the heuristics.
\<close>

theorem strictest_rule_wins:
  "\<exists>e. check_policy abs_path p (c # args) h = Some e
     \<and> ev_decision e =
         (let ds = {rule_decision r | r. r \<in> set (mm_get c (rules_by_program p))
                     \<and> (\<exists>ws rest. c # args = first_token (rule_pattern r) # ws @ rest
                          \<and> list_all2 token_matches (rest_tokens (rule_pattern r)) ws)}
          in if ds = {} then h (c # args) else Max ds)"
proof -
  have m: "matches_prefix q cmd \<noteq> None \<longleftrightarrow>
      (\<exists>ws rest. cmd = first_token q # ws @ rest \<and> list_all2 token_matches (rest_tokens q) ws)" for q cmd
    using matches_prefix_iff [of q cmd] by auto
  have "matching_decisions p (c # args) = {rule_decision r | r. r \<in> set (mm_get c (rules_by_program p))
      \<and> (\<exists>ws rest. c # args = first_token (rule_pattern r) # ws @ rest
            \<and> list_all2 token_matches (rest_tokens (rule_pattern r)) ws)}"
    unfolding matching_decisions_def m by (simp only: list.sel)
  with check_policy_decision [of abs_path p c args h] show ?thesis
    unfolding Let_def by metis
qed


definition demo_policy :: "string list \<Rightarrow> decision \<Rightarrow> policy" where
  "demo_policy pre d = (case add_prefix_rule pre d empty_policy of Inr p \<Rightarrow> p | Inl _ \<Rightarrow> empty_policy)"

lemmas demo_policy_simps = demo_policy_def add_prefix_rule_def empty_policy_def from_parts_def
  merge_overlay_def check_policy_def check_with_options_def matches_for_command_with_options_def
  match_exact_rules_def rule_matches_def matches_prefix_def from_matches_def is_match_def
  map_filter_simps Let_def


lemma matches_nonempty: "matches_for_command_with_options abs_path p cmd (Some h) r \<noteq> []"
  by (simp add: matches_for_command_with_options_def Let_def)

lemma check_decision_Max:
  "check_with_options abs_path p cmd h r = Some e \<Longrightarrow>
     ev_decision e = Max (match_decision ` set (matches_for_command_with_options abs_path p cmd (Some h) r))"
  by (auto simp: check_with_options_def from_matches_def split: if_splits)

text \<open>
  A command line of several commands is decided by the strictest of their decisions; only
  the empty list of commands, which callers rule out, has no decision.
\<close>

lemma check_multiple_strictest:
  "check_multiple_with_options abs_path p [] h r = None
   \<and> (cmds \<noteq> [] \<longrightarrow> (\<exists>e. check_multiple_with_options abs_path p cmds h r = Some e
        \<and> ev_decision e = Max ((\<lambda>cmd. ev_decision (the (check_with_options abs_path p cmd h r))) ` set cmds)))"
proof -
  let ?m = "\<lambda>cmd. matches_for_command_with_options abs_path p cmd (Some h) r"
  let ?D = "\<lambda>cmd. match_decision ` set (?m cmd)"
  have one: "ev_decision (the (check_with_options abs_path p cmd h r)) = Max (?D cmd)" for cmd
    by (simp add: check_with_options_def from_matches_def matches_nonempty)
  have "Max (\<Union> (?D ` set cmds)) = Max ((\<lambda>cmd. Max (?D cmd)) ` set cmds)" if "cmds \<noteq> []"
    using that
  proof (induction cmds rule: list_nonempty_induct)
    case (cons c cs)
    then show ?case
      by (simp add: Max_Un matches_nonempty)
  qed simp
  moreover have "concat (map ?m cmds) \<noteq> []" if "cmds \<noteq> []"
    using that by (cases cmds) (simp_all add: matches_nonempty)
  ultimately show ?thesis
    unfolding check_multiple_with_options_def one
    by (cases "cmds = []") (simp_all add: from_matches_def image_UN matches_nonempty)
qed

definition last_verdict :: "string \<Rightarrow> network_rule list \<Rightarrow> decision option" where
  "last_verdict h rs =
     last_opt (map nr_decision (filter (\<lambda>r. nr_host r = h \<and> nr_decision r \<noteq> Prompt) rs))"

lemma last_verdict_snoc:
  "last_verdict h (rs @ [r]) =
     (if nr_host r = h \<and> nr_decision r \<noteq> Prompt then Some (nr_decision r) else last_verdict h rs)"
  by (simp add: last_verdict_def)

text \<open>
  C36. The last rule for a host wins: a host is in the compiled allow list exactly when the last
  rule on it that is not a prompt allows it, and in the deny list exactly when that rule
  forbids it; no host is in both lists, and none is listed twice.
\<close>

theorem compiled_domains_last_rule_wins:
  assumes "compiled_network_domains p = (allowed, denied)"
  shows "set allowed = {h. last_verdict h (network_rules p) = Some Allow}
    \<and> set denied = {h. last_verdict h (network_rules p) = Some Forbidden}
    \<and> distinct allowed \<and> distinct denied"
proof -
  have "fold compile_rule rs ([], []) = (al, de) \<Longrightarrow>
      set al = {h. last_verdict h rs = Some Allow} \<and> set de = {h. last_verdict h rs = Some Forbidden}
      \<and> distinct al \<and> distinct de" for rs al de
  proof (induction rs arbitrary: al de rule: rev_induct)
    case (snoc r rs)
    obtain al' de' where f: "fold compile_rule rs ([], []) = (al', de')" by fastforce
    with snoc.prems have r: "compile_rule r (al', de') = (al, de)" by simp
    note IH = snoc.IH [OF f]
    show ?case
      using IH r by (cases "nr_decision r")
        (auto simp: compile_rule_def upsert_domain_def last_verdict_snoc)
  qed (simp add: last_verdict_def)
  with assms show ?thesis by (simp add: compiled_network_domains_def)
qed

theorem compiled_domains_last_rule_wins_witness:
  "set (fst (compiled_network_domains \<lparr>rules_by_program = [], network_rules =
      [\<lparr>nr_host = ''a'', nr_protocol = Http, nr_decision = Forbidden, nr_justification = None\<rparr>,
       \<lparr>nr_host = ''a'', nr_protocol = Https, nr_decision = Allow, nr_justification = None\<rparr>],
      host_executables_by_name = Map.empty\<rparr>)) = {''a''}"
  using compiled_domains_last_rule_wins [OF surjective_pairing, of "\<lparr>rules_by_program = [], network_rules =
      [\<lparr>nr_host = ''a'', nr_protocol = Http, nr_decision = Forbidden, nr_justification = None\<rparr>,
       \<lparr>nr_host = ''a'', nr_protocol = Https, nr_decision = Allow, nr_justification = None\<rparr>],
      host_executables_by_name = Map.empty\<rparr>"]
  by (auto simp: last_verdict_def split: if_splits)

lemma set_trim: "set (trim s) \<subseteq> set s"
  using trim_sublist [of s] by (rule set_mono_sublist)

lemma ascii_lower_eq: "ascii_lower c = d \<Longrightarrow> \<not> is_ascii_alphanumeric d \<Longrightarrow> c = d"
  by (auto simp: ascii_lower_def is_ascii_alphanumeric_def Let_def split: if_splits)

lemma strip_host_port_chars: "strip_host_port raw host = Inr h \<Longrightarrow> set h \<subseteq> set host"
  by (auto simp: strip_host_port_def Let_def rsplit_once_def strip_prefix_eq_Some split_once_eq_Some
      rev_swap split: option.splits if_splits prod.splits)

text \<open>
  A host that passes normalisation is not empty, is in lower case, and holds no wildcard,
  white space, scheme, path, query or fragment.
\<close>

lemma normalized_host_wellformed:
  assumes "normalize_network_rule_host raw = Inr h"
  shows "h \<noteq> [] \<and> to_ascii_lowercase h = h \<and> \<not> has_whitespace h \<and> CHR ''*'' \<notin> set h
    \<and> set h \<inter> {CHR ''/'', CHR ''?'', CHR ''#''} = {}"
proof -
  from assms obtain g where ok: "CHR ''/'' \<notin> set (trim raw)" "CHR ''?'' \<notin> set (trim raw)"
      "CHR ''#'' \<notin> set (trim raw)"
    and g: "strip_host_port raw (trim raw) = Inr g"
    and h: "h = to_ascii_lowercase (trim (trim_end_matches (CHR ''.'') g))" "h \<noteq> []"
      "CHR ''*'' \<notin> set h" "\<not> has_whitespace h"
    by (auto simp: normalize_network_rule_host_def Let_def bindR_eq_Inr split: if_splits)
  have "set (trim_end_matches (CHR ''.'') g) \<subseteq> set g"
    by (auto simp: trim_end_matches_def dest: set_dropWhileD)
  with set_trim [of "trim_end_matches (CHR ''.'') g"] strip_host_port_chars [OF g] have sub: "set (trim (trim_end_matches (CHR ''.'') g)) \<subseteq> set (trim raw)"
    by blast
  have "c \<notin> set h" if c: "c \<notin> set (trim raw)" "\<not> is_ascii_alphanumeric c" for c
  proof
    assume "c \<in> set h"
    then obtain x where x: "x \<in> set (trim raw)" "ascii_lower x = c"
      using sub by (auto simp: h(1) to_ascii_lowercase_def)
    from ascii_lower_eq [OF x(2) c(2)] x(1) c(1) show False by simp
  qed
  from this [OF ok(1)] this [OF ok(2)] this [OF ok(3)] h show ?thesis
    by (simp add: is_ascii_alphanumeric_def)
qed

end
