(* ===== verification/Policy_Parser.thy ===== *)
theory Policy_Parser
  imports Exec_Policy
begin

text \<open>
  Policy files (\<open>parser.rs\<close>, \<open>rule.rs\<close> and \<open>amend.rs\<close> under
  \<open>src/codex/codex-rs/execpolicy/src\<close>). Starlark evaluates a file to a sequence of calls of
  three builtins; the model starts from those calls and the values they are given.
\<close>

section \<open>Values and calls\<close>

datatype starlark_value = SString string | SList "starlark_value list" | SOther (type_name: string)

fun unpack_str :: "starlark_value \<Rightarrow> string option" where
  "unpack_str (SString s) = Some s"
| "unpack_str _ = None"

fun get_type :: "starlark_value \<Rightarrow> string" where
  "get_type (SString _) = ''string''"
| "get_type (SList _) = ''list''"
| "get_type (SOther t) = t"

datatype builtin_call =
  PrefixRule_call (pr_pattern: "starlark_value list") (pr_decision: "string option")
    (pr_match: "starlark_value list option") (pr_not_match: "starlark_value list option")
    (pr_justification: "string option") (pr_location: "error_location option")
| NetworkRule_call (nc_host: string) (nc_protocol: string) (nc_decision: string)
    (nc_justification: "string option")
| HostExecutable_call (hc_name: string) (hc_paths: "starlark_value list")

section \<open>The builder\<close>

record pending_validation =
  pv_rules :: "prefix_rule list"
  pv_matches :: "string list list"
  pv_not_matches :: "string list list"
  pv_location :: "error_location option"

record policy_builder =
  b_rules :: "prefix_rule multimap"
  b_network_rules :: "network_rule list"
  b_host_executables :: "string \<Rightarrow> string list option"
  b_pending :: "pending_validation list"

definition new_builder :: policy_builder where
  "new_builder = \<lparr>b_rules = [], b_network_rules = [], b_host_executables = Map.empty, b_pending = []\<rparr>"

definition add_rule :: "prefix_rule \<Rightarrow> policy_builder \<Rightarrow> policy_builder" where
  "add_rule r b = b\<lparr>b_rules := mm_insert (rule_program r) r (b_rules b)\<rparr>"

definition add_network_rule :: "network_rule \<Rightarrow> policy_builder \<Rightarrow> policy_builder" where
  "add_network_rule r b = b\<lparr>b_network_rules := b_network_rules b @ [r]\<rparr>"

definition add_host_executable :: "string \<Rightarrow> string list \<Rightarrow> policy_builder \<Rightarrow> policy_builder" where
  "add_host_executable name paths b = b\<lparr>b_host_executables := (b_host_executables b)(name \<mapsto> paths)\<rparr>"

definition add_pending_example_validation :: "pending_validation \<Rightarrow> policy_builder \<Rightarrow> policy_builder" where
  "add_pending_example_validation v b = b\<lparr>b_pending := b_pending b @ [v]\<rparr>"

definition build_policy :: "policy_builder \<Rightarrow> policy" where
  "build_policy b = from_parts (b_rules b) (b_network_rules b) (b_host_executables b)"

section \<open>Examples\<close>

text \<open>
  \<open>validate_match_examples\<close> reports every example no rule matches,
  \<open>validate_not_match_examples\<close> the first one a rule matches.
\<close>

definition validate_match_examples ::
  "(string \<Rightarrow> string option) \<Rightarrow> policy \<Rightarrow> prefix_rule list \<Rightarrow> string list list \<Rightarrow> (policy_error, unit) result" where
  "validate_match_examples abs_path p rules examples =
     (let unmatched = filter (\<lambda>e. matches_for_command_with_options abs_path p e None True = []) examples in
      if unmatched = [] then Ok () else Err (ExampleDidNotMatch rules unmatched None))"

fun validate_not_match_examples ::
  "(string \<Rightarrow> string option) \<Rightarrow> policy \<Rightarrow> string list list \<Rightarrow> (policy_error, unit) result" where
  "validate_not_match_examples abs_path p [] = Ok ()"
| "validate_not_match_examples abs_path p (e # es) =
     (case matches_for_command_with_options abs_path p e None True of
        rule # _ \<Rightarrow> Err (ExampleDidMatch rule e None)
      | [] \<Rightarrow> validate_not_match_examples abs_path p es)"

definition attach_validation_location ::
  "error_location option \<Rightarrow> (policy_error, 'a) result \<Rightarrow> (policy_error, 'a) result" where
  "attach_validation_location l r =
     (case r of Inl e \<Rightarrow> Err (case l of Some loc \<Rightarrow> with_location loc e | None \<Rightarrow> e) | Inr x \<Rightarrow> Ok x)"

definition validation_policy :: "policy_builder \<Rightarrow> pending_validation \<Rightarrow> policy" where
  "validation_policy b v =
     from_parts (fold (\<lambda>r. mm_insert (rule_program r) r) (pv_rules v) []) [] (b_host_executables b)"

fun validate_pending ::
  "(string \<Rightarrow> string option) \<Rightarrow> policy_builder \<Rightarrow> pending_validation list \<Rightarrow> (policy_error, unit) result" where
  "validate_pending abs_path b [] = Ok ()"
| "validate_pending abs_path b (v # vs) =
     (let p = validation_policy b v in
      bindR (attach_validation_location (pv_location v)
               (validate_not_match_examples abs_path p (pv_not_matches v))) (\<lambda>_.
      bindR (attach_validation_location (pv_location v)
               (validate_match_examples abs_path p (pv_rules v) (pv_matches v))) (\<lambda>_.
      validate_pending abs_path b vs)))"

definition validate_pending_examples_from ::
  "(string \<Rightarrow> string option) \<Rightarrow> policy_builder \<Rightarrow> nat \<Rightarrow> (policy_error, unit) result" where
  "validate_pending_examples_from abs_path b start = validate_pending abs_path b (drop start (b_pending b))"

section \<open>Parsing arguments\<close>

fun parse_pattern_token :: "starlark_value \<Rightarrow> (policy_error, pattern_token) result" where
  "parse_pattern_token (SString s) = Ok (Single s)"
| "parse_pattern_token (SList vs) =
     bindR (collectR (\<lambda>v. ok_or
              (InvalidPattern (''pattern alternative must be a string (got '' @ get_type v @ '')''))
              (unpack_str v)) vs) (\<lambda>tokens.
     case tokens of
       [] \<Rightarrow> Err (InvalidPattern ''pattern alternatives cannot be empty'')
     | [single] \<Rightarrow> Ok (Single single)
     | _ \<Rightarrow> Ok (Alts tokens))"
| "parse_pattern_token (SOther t) =
     Err (InvalidPattern (''pattern element must be a string or list of strings (got '' @ t @ '')''))"

definition parse_pattern :: "starlark_value list \<Rightarrow> (policy_error, pattern_token list) result" where
  "parse_pattern vs =
     bindR (collectR parse_pattern_token vs) (\<lambda>tokens.
     if tokens = [] then Err (InvalidPattern ''pattern cannot be empty'') else Ok tokens)"

definition parse_string_example ::
  "(string \<Rightarrow> string list option) \<Rightarrow> string \<Rightarrow> (policy_error, string list) result" where
  "parse_string_example shlex raw =
     bindR (ok_or (InvalidExample ''example string has invalid shell syntax'') (shlex raw)) (\<lambda>tokens.
     if tokens = [] then Err (InvalidExample ''example cannot be an empty string'') else Ok tokens)"

definition parse_list_example :: "starlark_value list \<Rightarrow> (policy_error, string list) result" where
  "parse_list_example vs =
     bindR (collectR (\<lambda>v. ok_or
              (InvalidExample (''example tokens must be strings (got '' @ get_type v @ '')''))
              (unpack_str v)) vs) (\<lambda>tokens.
     if tokens = [] then Err (InvalidExample ''example cannot be an empty list'') else Ok tokens)"

fun parse_example ::
  "(string \<Rightarrow> string list option) \<Rightarrow> starlark_value \<Rightarrow> (policy_error, string list) result" where
  "parse_example shlex (SString raw) = parse_string_example shlex raw"
| "parse_example shlex (SList vs) = parse_list_example vs"
| "parse_example shlex (SOther t) =
     Err (InvalidExample (''example must be a string or list of strings (got '' @ t @ '')''))"

definition parse_examples ::
  "(string \<Rightarrow> string list option) \<Rightarrow> starlark_value list \<Rightarrow> (policy_error, string list list) result" where
  "parse_examples shlex vs = collectR (parse_example shlex) vs"

definition optional_examples ::
  "(string \<Rightarrow> string list option) \<Rightarrow> starlark_value list option \<Rightarrow> (policy_error, string list list) result" where
  "optional_examples shlex vs = (case vs of Some xs \<Rightarrow> parse_examples shlex xs | None \<Rightarrow> Ok [])"

definition parse_literal_absolute_path ::
  "(string \<Rightarrow> string option) \<Rightarrow> string \<Rightarrow> (policy_error, string) result" where
  "parse_literal_absolute_path abs_path raw =
     (if \<not> starts_with raw ''/''
      then Err (InvalidRule (''host_executable paths must be absolute (got '' @ raw @ '')''))
      else ok_or (InvalidRule (''invalid absolute path: '' @ raw)) (abs_path raw))"

definition validate_host_executable_name :: "string \<Rightarrow> (policy_error, unit) result" where
  "validate_host_executable_name name =
     (if name = [] then Err (InvalidRule ''host_executable name cannot be empty'')
      else if length (path_components name) \<noteq> 1 \<or> file_name name \<noteq> Some name
      then Err (InvalidRule (''host_executable name must be a bare executable name (got '' @ name @ '')''))
      else Ok ())"

definition parse_network_rule_decision :: "string \<Rightarrow> (policy_error, decision) result" where
  "parse_network_rule_decision raw = (if raw = ''deny'' then Ok Forbidden else decision_parse raw)"

section \<open>The builtins\<close>

definition rules_of_pattern ::
  "pattern_token list \<Rightarrow> decision \<Rightarrow> string option \<Rightarrow> prefix_rule list" where
  "rules_of_pattern tokens d justification =
     map (\<lambda>head. \<lparr>rule_pattern = \<lparr>first_token = head, rest_tokens = tl tokens\<rparr>,
                    rule_decision = d, rule_justification = justification\<rparr>)
       (alternatives_of (hd tokens))"

definition prefix_rule_builtin ::
  "(string \<Rightarrow> string list option) \<Rightarrow> starlark_value list \<Rightarrow> string option \<Rightarrow> starlark_value list option
    \<Rightarrow> starlark_value list option \<Rightarrow> string option \<Rightarrow> error_location option \<Rightarrow> policy_builder
    \<Rightarrow> (policy_error, policy_builder) result" where
  "prefix_rule_builtin shlex pattern d matching not_matching justification location b =
     bindR (case d of Some raw \<Rightarrow> decision_parse raw | None \<Rightarrow> Ok Allow) (\<lambda>d.
     bindR (checked_justification justification) (\<lambda>justification.
     bindR (parse_pattern pattern) (\<lambda>tokens.
     bindR (optional_examples shlex matching) (\<lambda>matches.
     bindR (optional_examples shlex not_matching) (\<lambda>not_matches.
     let rules = rules_of_pattern tokens d justification in
     Ok (fold add_rule rules
       (add_pending_example_validation
          \<lparr>pv_rules = rules, pv_matches = matches, pv_not_matches = not_matches, pv_location = location\<rparr> b)))))))"

definition network_rule_builtin ::
  "string \<Rightarrow> string \<Rightarrow> string \<Rightarrow> string option \<Rightarrow> policy_builder \<Rightarrow> (policy_error, policy_builder) result" where
  "network_rule_builtin host protocol d justification b =
     bindR (protocol_parse protocol) (\<lambda>protocol.
     bindR (parse_network_rule_decision d) (\<lambda>d.
     bindR (checked_justification justification) (\<lambda>justification.
     bindR (normalize_network_rule_host host) (\<lambda>host.
     Ok (add_network_rule \<lparr>nr_host = host, nr_protocol = protocol, nr_decision = d,
          nr_justification = justification\<rparr> b)))))"

fun collect_paths ::
  "(string \<Rightarrow> string option) \<Rightarrow> string \<Rightarrow> starlark_value list \<Rightarrow> string list
    \<Rightarrow> (policy_error, string list) result" where
  "collect_paths abs_path name [] acc = Ok acc"
| "collect_paths abs_path name (v # vs) acc =
     bindR (ok_or (InvalidRule (''host_executable paths must be strings (got '' @ get_type v @ '')''))
              (unpack_str v)) (\<lambda>raw.
     bindR (parse_literal_absolute_path abs_path raw) (\<lambda>path.
     if executable_path_lookup_key path \<noteq> Some (executable_lookup_key name)
     then Err (InvalidRule (''host_executable path '' @ raw @ '' must have basename '' @ name))
     else collect_paths abs_path name vs (if path \<in> set acc then acc else acc @ [path])))"

definition host_executable_builtin ::
  "(string \<Rightarrow> string option) \<Rightarrow> string \<Rightarrow> starlark_value list \<Rightarrow> policy_builder
    \<Rightarrow> (policy_error, policy_builder) result" where
  "host_executable_builtin abs_path name paths b =
     bindR (validate_host_executable_name name) (\<lambda>_.
     bindR (collect_paths abs_path name paths []) (\<lambda>parsed.
     Ok (add_host_executable (executable_lookup_key name) parsed b)))"

fun run_builtin ::
  "(string \<Rightarrow> string option) \<Rightarrow> (string \<Rightarrow> string list option) \<Rightarrow> builtin_call \<Rightarrow> policy_builder
    \<Rightarrow> (policy_error, policy_builder) result" where
  "run_builtin abs_path shlex (PrefixRule_call pattern d mt nm j l) b =
     prefix_rule_builtin shlex pattern d mt nm j l b"
| "run_builtin abs_path shlex (NetworkRule_call h pr d j) b = network_rule_builtin h pr d j b"
| "run_builtin abs_path shlex (HostExecutable_call n ps) b = host_executable_builtin abs_path n ps b"

fun run_builtins ::
  "(string \<Rightarrow> string option) \<Rightarrow> (string \<Rightarrow> string list option) \<Rightarrow> builtin_call list \<Rightarrow> policy_builder
    \<Rightarrow> (policy_error, policy_builder) result" where
  "run_builtins abs_path shlex [] b = Ok b"
| "run_builtins abs_path shlex (c # cs) b =
     bindR (run_builtin abs_path shlex c b) (run_builtins abs_path shlex cs)"

text \<open>\<open>PolicyParser::parse\<close> of one file: run its calls, then check the examples it added.\<close>

definition parse_policy ::
  "(string \<Rightarrow> string option) \<Rightarrow> (string \<Rightarrow> string list option) \<Rightarrow> builtin_call list \<Rightarrow> policy_builder
    \<Rightarrow> (policy_error, policy_builder) result" where
  "parse_policy abs_path shlex calls b =
     bindR (run_builtins abs_path shlex calls b) (\<lambda>b'.
     bindR (validate_pending_examples_from abs_path b' (length (b_pending b))) (\<lambda>_. Ok b'))"

section \<open>Appending rules\<close>

text \<open>
  \<open>append_locked_line\<close> as a function of the file's contents, under the lock; \<open>json_str\<close> is
  \<open>serde_json::to_string\<close> on a string. Failures of the file system are left out.
\<close>

datatype amend_error = EmptyPrefix | InvalidNetworkRule policy_error | EmptyJustification

definition append_locked_line :: "string \<Rightarrow> string \<Rightarrow> string" where
  "append_locked_line line contents =
     (if line \<in> set (lines contents) then contents
      else contents
        @ (if contents \<noteq> [] \<and> \<not> ends_with contents [nl] then [nl] else [])
        @ line @ [nl])"

definition allow_prefix_line :: "(string \<Rightarrow> string) \<Rightarrow> string list \<Rightarrow> string" where
  "allow_prefix_line json_str pre =
     ''prefix_rule(pattern=['' @ join '', '' (map json_str pre) @ ''], decision='' @ [CHR 0x22]
       @ ''allow'' @ [CHR 0x22] @ '')''"

definition append_allow_prefix_rule ::
  "(string \<Rightarrow> string) \<Rightarrow> string list \<Rightarrow> string \<Rightarrow> (amend_error, string) result" where
  "append_allow_prefix_rule json_str pre contents =
     (if pre = [] then Err EmptyPrefix
      else Ok (append_locked_line (allow_prefix_line json_str pre) contents))"

fun decision_keyword :: "decision \<Rightarrow> string" where
  "decision_keyword Allow = ''allow''"
| "decision_keyword Prompt = ''prompt''"
| "decision_keyword Forbidden = ''deny''"

definition network_rule_line ::
  "(string \<Rightarrow> string) \<Rightarrow> string \<Rightarrow> network_rule_protocol \<Rightarrow> decision \<Rightarrow> string option \<Rightarrow> string" where
  "network_rule_line json_str host protocol d justification =
     ''network_rule('' @ join '', ''
       ([''host='' @ json_str host, ''protocol='' @ json_str (as_policy_string protocol),
         ''decision='' @ json_str (decision_keyword d)]
        @ (case justification of Some j \<Rightarrow> [''justification='' @ json_str j] | None \<Rightarrow> []))
     @ '')''"

definition append_network_rule ::
  "(string \<Rightarrow> string) \<Rightarrow> string \<Rightarrow> network_rule_protocol \<Rightarrow> decision \<Rightarrow> string option \<Rightarrow> string
    \<Rightarrow> (amend_error, string) result" where
  "append_network_rule json_str host protocol d justification contents =
     (case normalize_network_rule_host host of
        Inl e \<Rightarrow> Err (InvalidNetworkRule e)
      | Inr host \<Rightarrow>
          (if (case justification of Some raw \<Rightarrow> trim raw = [] | None \<Rightarrow> False)
           then Err EmptyJustification
           else Ok (append_locked_line (network_rule_line json_str host protocol d justification) contents)))"

section \<open>What the builder holds\<close>

lemma b_rules_add_rules:
  "mm_get k (b_rules (fold add_rule rs b)) = mm_get k (b_rules b) @ filter (\<lambda>r. rule_program r = k) rs"
proof -
  have "b_rules (fold add_rule rs b) = fold (\<lambda>r. mm_insert (rule_program r) r) rs (b_rules b)"
    by (induction rs arbitrary: b) (simp_all add: add_rule_def)
  then show ?thesis by (simp add: rules.mget_insert_keyed)
qed

lemma fold_add_rule_other:
  "b_pending (fold add_rule rs b) = b_pending b"
  "b_network_rules (fold add_rule rs b) = b_network_rules b"
  "b_host_executables (fold add_rule rs b) = b_host_executables b"
  by (induction rs arbitrary: b) (simp_all add: add_rule_def)

lemma prefix_rule_builtinD:
  assumes "prefix_rule_builtin shlex pattern d mt nm j l b = Inr b'"
  obtains d' j' tokens ms ns where "(case d of Some raw \<Rightarrow> decision_parse raw | None \<Rightarrow> Inr Allow) = Inr d'"
    "parse_pattern pattern = Inr tokens"
    "b' = fold add_rule (rules_of_pattern tokens d' j')
       (add_pending_example_validation \<lparr>pv_rules = rules_of_pattern tokens d' j',
          pv_matches = ms, pv_not_matches = ns, pv_location = l\<rparr> b)"
  using assms by (auto simp: prefix_rule_builtin_def bindR_eq_Inr Let_def)

text \<open>Every pending validation is about rules the builder holds.\<close>

definition builder_inv :: "policy_builder \<Rightarrow> bool" where
  "builder_inv b \<longleftrightarrow>
     (\<forall>v \<in> set (b_pending b). \<forall>r \<in> set (pv_rules v). r \<in> set (mm_get (rule_program r) (b_rules b)))"

lemma run_builtin_inv:
  assumes "run_builtin abs_path shlex c b = Inr b'" and "builder_inv b"
  shows "builder_inv b'"
proof (cases c)
  case (PrefixRule_call pattern d mt nm j l)
  with assms(1) have "prefix_rule_builtin shlex pattern d mt nm j l b = Inr b'" by simp
  then obtain d' j' tokens ms ns where b': "b' = fold add_rule (rules_of_pattern tokens d' j')
       (add_pending_example_validation \<lparr>pv_rules = rules_of_pattern tokens d' j',
          pv_matches = ms, pv_not_matches = ns, pv_location = l\<rparr> b)"
    by (rule prefix_rule_builtinD)
  show ?thesis
    using assms(2) unfolding b' builder_inv_def b_rules_add_rules fold_add_rule_other
    by (auto simp: add_pending_example_validation_def)
next
  case (NetworkRule_call h pr d j)
  with assms show ?thesis
    by (auto simp: network_rule_builtin_def bindR_eq_Inr add_network_rule_def builder_inv_def)
next
  case (HostExecutable_call n ps)
  with assms show ?thesis
    by (auto simp: host_executable_builtin_def bindR_eq_Inr add_host_executable_def builder_inv_def)
qed

lemma run_builtins_inv:
  "run_builtins abs_path shlex cs b = Inr b' \<Longrightarrow> builder_inv b \<Longrightarrow> builder_inv b'"
  by (induction cs arbitrary: b) (auto simp: bindR_eq_Inr dest: run_builtin_inv)

section \<open>Examples\<close>

lemma match_none_iff:
  "matches_for_command_with_options abs_path p cmd None True = [] \<longleftrightarrow>
     (case match_exact_rules p cmd of Some ms \<Rightarrow> ms | None \<Rightarrow> []) = []
     \<and> match_host_executable_rules abs_path p cmd = []"
  by (simp add: matches_for_command_with_options_def Let_def)

lemma map_filter_Nil_iff: "List.map_filter f xs = [] \<longleftrightarrow> (\<forall>x \<in> set xs. f x = None)"
  by (induction xs) (auto simp: map_filter_simps split: option.splits)

lemma map_filter_Nil_mono:
  "set xs \<subseteq> set ys \<Longrightarrow> List.map_filter f ys = [] \<Longrightarrow> List.map_filter f xs = []"
  by (auto simp: map_filter_Nil_iff)

definition host_path_ok :: "policy \<Rightarrow> string \<Rightarrow> string \<Rightarrow> bool" where
  "host_path_ok p basename program =
     (case host_executables_by_name p basename of
        Some paths \<Rightarrow> program \<in> set paths | None \<Rightarrow> True)"

lemma host_rules_Cons:
  "match_host_executable_rules abs_path p (c # args) =
     (case abs_path c of
        None \<Rightarrow> []
      | Some program \<Rightarrow>
          (case executable_path_lookup_key program of
             None \<Rightarrow> []
           | Some basename \<Rightarrow>
               if host_path_ok p basename program
               then map (with_resolved_program program)
                      (List.map_filter (\<lambda>r. rule_matches r (basename # args))
                        (mm_get basename (rules_by_program p)))
               else []))"
proof (cases "abs_path c")
  case (Some program)
  show ?thesis
  proof (cases "executable_path_lookup_key program")
    case name: (Some basename)
    show ?thesis
      by (cases "map_of (rules_by_program p) basename"; cases "host_executables_by_name p basename")
        (simp_all add: match_host_executable_rules_def Some name mm_get_def map_filter_simps
          host_path_ok_def list_ex_iff)
  qed (simp add: match_host_executable_rules_def Some)
qed (simp add: match_host_executable_rules_def)

lemma more_rules_match_more:
  assumes more: "\<And>k. set (mm_get k (rules_by_program p)) \<subseteq> set (mm_get k (rules_by_program q))"
    and same: "host_executables_by_name q = host_executables_by_name p"
    and none: "matches_for_command_with_options abs_path q cmd None True = []"
  shows "matches_for_command_with_options abs_path p cmd None True = []"
proof (cases cmd)
  case Nil
  then show ?thesis by (simp add: match_none_iff match_exact_rules_def match_host_executable_rules_def)
next
  case (Cons c args)
  have mono: "List.map_filter f (mm_get k (rules_by_program q)) = [] \<Longrightarrow>
      List.map_filter f (mm_get k (rules_by_program p)) = []"
    for k and f :: "prefix_rule \<Rightarrow> rule_match option"
    by (rule map_filter_Nil_mono [OF more])
  have ok: "host_path_ok q = host_path_ok p" by (simp add: host_path_ok_def [abs_def] same)
  from none Cons have
    exact: "List.map_filter (\<lambda>r. rule_matches r cmd) (mm_get c (rules_by_program q)) = []"
    and host: "match_host_executable_rules abs_path q (c # args) = []"
    by (simp_all add: match_none_iff match_exact_rules_Cons)
  have "match_host_executable_rules abs_path p (c # args) = []"
  proof (cases "abs_path c")
    case (Some program)
    then show ?thesis
      using host mono
      by (cases "executable_path_lookup_key program") (simp_all add: host_rules_Cons ok split: if_splits)
  qed (simp add: host_rules_Cons)
  with mono [OF exact] Cons show ?thesis by (simp add: match_none_iff match_exact_rules_Cons)
qed

lemma attach_Inr [simp]: "attach_validation_location l r = Inr x \<longleftrightarrow> r = Inr x"
  by (cases r) (auto simp: attach_validation_location_def)

lemma validate_not_match_Inr:
  "validate_not_match_examples abs_path p es = Inr () \<longleftrightarrow>
     (\<forall>e \<in> set es. matches_for_command_with_options abs_path p e None True = [])"
  by (induction es) (auto split: list.splits)

lemma validate_match_Inr:
  "validate_match_examples abs_path p rs es = Inr () \<longleftrightarrow>
     (\<forall>e \<in> set es. matches_for_command_with_options abs_path p e None True \<noteq> [])"
  by (auto simp: validate_match_examples_def Let_def filter_empty_conv)

lemma validate_pending_Inr:
  "validate_pending abs_path b vs = Inr () \<longleftrightarrow>
     (\<forall>v \<in> set vs.
        (\<forall>e \<in> set (pv_not_matches v).
           matches_for_command_with_options abs_path (validation_policy b v) e None True = [])
        \<and> (\<forall>e \<in> set (pv_matches v).
           matches_for_command_with_options abs_path (validation_policy b v) e None True \<noteq> []))"
proof (induction vs)
  case (Cons v vs)
  have unit: "(\<exists>x::unit. P x) = P ()" for P by (metis (full_types) old.unit.exhaust)
  show ?case
    by (simp add: Let_def bindR_eq_Inr unit Cons validate_not_match_Inr validate_match_Inr)
qed simp

section \<open>Claims\<close>



lemma matching_decisions_of_rules:
  "matching_decisions (build_policy (fold add_rule (rules_of_pattern tokens d j) b)) cmd =
     matching_decisions (build_policy b) cmd
     \<union> (if \<exists>h \<in> set (alternatives_of (hd tokens)). h = hd cmd
            \<and> matches_prefix \<lparr>first_token = h, rest_tokens = tl tokens\<rparr> cmd \<noteq> None
        then {d} else {})"
proof -
  let ?new = "\<lambda>h. \<lparr>rule_pattern = \<lparr>first_token = h, rest_tokens = tl tokens\<rparr>, rule_decision = d,
    rule_justification = j\<rparr>"
  have "set (mm_get (hd cmd) (b_rules (fold add_rule (rules_of_pattern tokens d j) b))) =
      set (mm_get (hd cmd) (b_rules b)) \<union> ?new ` {h \<in> set (alternatives_of (hd tokens)). h = hd cmd}"
    by (auto simp: b_rules_add_rules rules_of_pattern_def rule_program_def)
  moreover have "{rule_decision r | r. r \<in> A \<union> ?new ` H \<and> P r} =
      {rule_decision r | r. r \<in> A \<and> P r} \<union> (if \<exists>h \<in> H. P (?new h) then {d} else {})" for A H P
    by force
  ultimately show ?thesis
    unfolding matching_decisions_def by (simp add: build_policy_def from_parts_def)
qed

lemma token_matches_alternatives: "token_matches t c \<longleftrightarrow> c \<in> set (alternatives_of t)"
  by (cases t) (auto simp: list_ex_iff)

text \<open>
  C37. What a \<open>prefix_rule\<close> means: after it has been read, the decisions that apply to a command
  are those that applied before, and the rule's decision exactly when the command starts with
  words that match the pattern one by one, alternatives included also for the first word.
\<close>

theorem prefix_rule_meaning:
  assumes "prefix_rule_builtin shlex pattern d mt nm j l b = Inr b'"
    and "(case d of Some raw \<Rightarrow> decision_parse raw | None \<Rightarrow> Inr Allow) = Inr d'"
    and "parse_pattern pattern = Inr tokens"
  shows "matching_decisions (build_policy b') (c # args) =
    matching_decisions (build_policy b) (c # args)
    \<union> (if \<exists>ws rest. c # args = ws @ rest \<and> list_all2 token_matches tokens ws then {d'} else {})"
proof -
  from assms(1) obtain dd j' tk ms ns where dd: "(case d of Some raw \<Rightarrow> decision_parse raw | None \<Rightarrow> Inr Allow) = Inr dd"
    "parse_pattern pattern = Inr tk"
    and b': "b' = fold add_rule (rules_of_pattern tk dd j')
       (add_pending_example_validation \<lparr>pv_rules = rules_of_pattern tk dd j',
          pv_matches = ms, pv_not_matches = ns, pv_location = l\<rparr> b)"
    by (rule prefix_rule_builtinD)
  have same: "tk = tokens" "dd = d'" using dd assms(2,3) by auto
  have "tokens \<noteq> []" using assms(3) by (auto simp: parse_pattern_def bindR_eq_Inr split: if_splits)
  then obtain t ts where tokens: "tokens = t # ts" by (cases tokens) auto
  have "(\<exists>h \<in> set (alternatives_of t). h = c \<and> matches_prefix \<lparr>first_token = h, rest_tokens = ts\<rparr> (c # args) \<noteq> None)
      \<longleftrightarrow> (\<exists>ws rest. c # args = ws @ rest \<and> list_all2 token_matches (t # ts) ws)"
    by (auto simp: matches_prefix_iff token_matches_alternatives list_all2_Cons1 Cons_eq_append_conv)
  moreover have "build_policy (add_pending_example_validation x b) = build_policy b" for x
    by (simp add: build_policy_def add_pending_example_validation_def)
  ultimately show ?thesis
    unfolding b' same matching_decisions_of_rules tokens
    by (simp add: matching_decisions_def build_policy_def from_parts_def add_pending_example_validation_def)
qed

theorem prefix_rule_meaning_witness:
  "\<exists>b'. prefix_rule_builtin (\<lambda>_. None) [SList [SString ''npm'', SString ''yarn''], SString ''test'']
      (Some ''prompt'') None None None None new_builder = Inr b'
    \<and> matching_decisions (build_policy b') [''yarn'', ''test'', ''-v''] = {Prompt}"
proof -
  obtain b' where b': "prefix_rule_builtin (\<lambda>_. None) [SList [SString ''npm'', SString ''yarn''], SString ''test'']
      (Some ''prompt'') None None None None new_builder = Inr b'"
    by (simp add: prefix_rule_builtin_def decision_parse_def checked_justification_def parse_pattern_def
        optional_examples_def Let_def)
  have p: "parse_pattern [SList [SString ''npm'', SString ''yarn''], SString ''test''] =
      Inr [Alts [''npm'', ''yarn''], Single ''test'']"
    by (simp add: parse_pattern_def)
  have "\<exists>ws rest. [''yarn'', ''test'', ''-v''] = ws @ rest \<and>
      list_all2 token_matches [Alts [''npm'', ''yarn''], Single ''test''] ws"
    by (intro exI [of _ "[''yarn'', ''test'']"] exI [of _ "[''-v'']"]) simp
  moreover have "matching_decisions (build_policy new_builder) [''yarn'', ''test'', ''-v''] = {}"
    by (simp add: matching_decisions_def build_policy_def from_parts_def new_builder_def mm_get_def)
  ultimately show ?thesis
    using prefix_rule_meaning [OF b' _ p, of Prompt "''yarn''" "[''test'', ''-v'']"] b'
    by (simp add: decision_parse_def)
qed

section \<open>Appending\<close>

lemma append_locked_line_lines:
  assumes "nl \<notin> set l" and "\<not> ends_with l [CHR 0x0D]" and "\<not> ends_with contents [CHR 0x0D]"
  shows "lines (append_locked_line l contents) =
    (if l \<in> set (lines contents) then lines contents else lines contents @ [l])"
proof (cases "contents \<noteq> [] \<and> \<not> ends_with contents [nl]")
  case True
  with assms lines_close [of contents] lines_snoc [of "contents @ [nl]" l] show ?thesis
    by (simp add: append_locked_line_def suffix_def)
next
  case False
  with assms lines_snoc [of contents l] show ?thesis by (auto simp: append_locked_line_def)
qed

text \<open>
  Appending an allow rule keeps every line of the policy file, adds the rule as a line of
  its own unless it is there already, and doing it again changes nothing; an empty prefix is
  refused.
\<close>

lemma append_allow_rule:
  assumes json: "\<And>t. nl \<notin> set (json_str t)" and "\<not> ends_with contents [CHR 0x0D]"
  shows "append_allow_prefix_rule json_str [] contents = Inl EmptyPrefix
    \<and> (pre \<noteq> [] \<longrightarrow> (\<exists>c. append_allow_prefix_rule json_str pre contents = Inr c
         \<and> lines c = (if allow_prefix_line json_str pre \<in> set (lines contents) then lines contents
                      else lines contents @ [allow_prefix_line json_str pre])
         \<and> append_allow_prefix_rule json_str pre c = Inr c))"
proof -
  have "nl \<notin> set (join '', '' (map json_str pre))"
    using json by (induction pre) (auto simp: join_Cons)
  then have n: "nl \<notin> set (allow_prefix_line json_str pre)" by (simp add: allow_prefix_line_def)
  have "\<not> ends_with (allow_prefix_line json_str pre) [CHR 0x0D]"
    by (simp add: allow_prefix_line_def suffix_def)
  note l = append_locked_line_lines [OF n this assms(2)]
  have "append_locked_line (allow_prefix_line json_str pre) (append_locked_line (allow_prefix_line json_str pre) contents)
      = append_locked_line (allow_prefix_line json_str pre) contents"
    using l by (subst append_locked_line_def) (simp split: if_splits)
  with l show ?thesis by (simp add: append_allow_prefix_rule_def)
qed

end
