(* ===== verification/Patch_Parser.thy ===== *)
theory Patch_Parser
  imports Codex_Prelude
begin

text \<open>
  The patch format of \<open>apply_patch\<close>: \<open>codex/codex-rs/apply-patch/src/parser.rs\<close> and
  \<open>streaming_parser.rs\<close>.

  A patch is parsed line by line by a state machine that is fed with text as the model
  streams it. The mutable parser is passed explicitly, and every operation returns the
  parser it leaves behind together with its result, because the caller that shows patches
  while they arrive goes on after an error. A \<open>PathBuf\<close> is the string it was built from.
\<close>

section \<open>Patches\<close>

definition BEGIN_PATCH_MARKER :: string where "BEGIN_PATCH_MARKER = ''*** Begin Patch''"
definition END_PATCH_MARKER :: string where "END_PATCH_MARKER = ''*** End Patch''"
definition ADD_FILE_MARKER :: string where "ADD_FILE_MARKER = ''*** Add File: ''"
definition DELETE_FILE_MARKER :: string where "DELETE_FILE_MARKER = ''*** Delete File: ''"
definition UPDATE_FILE_MARKER :: string where "UPDATE_FILE_MARKER = ''*** Update File: ''"
definition MOVE_TO_MARKER :: string where "MOVE_TO_MARKER = ''*** Move to: ''"
definition EOF_MARKER :: string where "EOF_MARKER = ''*** End of File''"
definition CHANGE_CONTEXT_MARKER :: string where "CHANGE_CONTEXT_MARKER = ''@@ ''"
definition EMPTY_CHANGE_CONTEXT_MARKER :: string where "EMPTY_CHANGE_CONTEXT_MARKER = ''@@''"
definition ENVIRONMENT_ID_MARKER :: string where "ENVIRONMENT_ID_MARKER = ''*** Environment ID:''"

lemmas markers_def =
  BEGIN_PATCH_MARKER_def END_PATCH_MARKER_def ADD_FILE_MARKER_def DELETE_FILE_MARKER_def
  UPDATE_FILE_MARKER_def MOVE_TO_MARKER_def EOF_MARKER_def CHANGE_CONTEXT_MARKER_def
  EMPTY_CHANGE_CONTEXT_MARKER_def ENVIRONMENT_ID_MARKER_def

datatype parse_error = InvalidPatchError string | InvalidHunkError string nat

record update_file_chunk =
  change_context :: "string option"
  old_lines :: "string list"
  new_lines :: "string list"
  is_end_of_file :: bool

datatype hunk =
    AddFile string string
  | DeleteFile string
  | UpdateFile string "string option" "update_file_chunk list"

text \<open>\<open>Hunk::path\<close>: the path a hunk affects, the destination for a rename.\<close>

fun hunk_path :: "hunk \<Rightarrow> string" where
  "hunk_path (AddFile path contents) = path"
| "hunk_path (DeleteFile path) = path"
| "hunk_path (UpdateFile path (Some dest) chunks) = dest"
| "hunk_path (UpdateFile path None chunks) = path"

section \<open>The streaming parser\<close>

datatype parser_mode =
    NotStarted
  | StartedPatch
  | InAddFile
  | InDeleteFile
  | InUpdateFile nat
  | EndedPatch

record parser_state =
  pmode :: parser_mode
  parsed_hunks :: "hunk list"
  parsed_environment_id :: "string option"

record streaming_parser =
  line_buffer :: string
  pstate :: parser_state
  line_number :: nat

definition default_parser :: streaming_parser where
  "default_parser =
     \<lparr>line_buffer = [],
      pstate = \<lparr>pmode = NotStarted, parsed_hunks = [], parsed_environment_id = None\<rparr>,
      line_number = 0\<rparr>"

abbreviation mode_of :: "streaming_parser \<Rightarrow> parser_mode" where
  "mode_of p \<equiv> pmode (pstate p)"

abbreviation hunks_of :: "streaming_parser \<Rightarrow> hunk list" where
  "hunks_of p \<equiv> parsed_hunks (pstate p)"

definition set_mode :: "parser_mode \<Rightarrow> streaming_parser \<Rightarrow> streaming_parser" where
  "set_mode md p = p\<lparr>pstate := (pstate p)\<lparr>pmode := md\<rparr>\<rparr>"

definition push_hunk :: "hunk \<Rightarrow> parser_mode \<Rightarrow> streaming_parser \<Rightarrow> streaming_parser" where
  "push_hunk h md p =
     p\<lparr>pstate := (pstate p)\<lparr>pmode := md, parsed_hunks := hunks_of p @ [h]\<rparr>\<rparr>"

definition set_last_hunk :: "hunk \<Rightarrow> streaming_parser \<Rightarrow> streaming_parser" where
  "set_last_hunk h p =
     p\<lparr>pstate := (pstate p)\<lparr>parsed_hunks := butlast (hunks_of p) @ [h]\<rparr>\<rparr>"

definition chunk_is_blank :: "update_file_chunk \<Rightarrow> bool" where
  "chunk_is_blank c = (old_lines c = [] \<and> new_lines c = [])"

text \<open>\<open>chunks.last().is_some_and(f)\<close>.\<close>

definition last_satisfies :: "('a \<Rightarrow> bool) \<Rightarrow> 'a list \<Rightarrow> bool" where
  "last_satisfies f xs = (case last_opt xs of None \<Rightarrow> False | Some x \<Rightarrow> f x)"

definition unexpected_line :: "string \<Rightarrow> string" where
  "unexpected_line line =
     ''Unexpected line found in update hunk: '' @ [CHR 0x27] @ line @ [CHR 0x27] @
     ''. Every line should start with '' @ [CHR 0x27, CHR 0x20, CHR 0x27] @ '' (context line), '' @
     [CHR 0x27, CHR 0x2B, CHR 0x27] @ '' (added line), or '' @
     [CHR 0x27, CHR 0x2D, CHR 0x27] @ '' (removed line)''"

definition expected_context :: "string \<Rightarrow> string" where
  "expected_context line =
     ''Expected update hunk to start with a @@ context marker, got: '' @
     [CHR 0x27] @ line @ [CHR 0x27]"

definition not_a_header :: "string \<Rightarrow> string" where
  "not_a_header trimmed =
     [CHR 0x27] @ trimmed @ [CHR 0x27] @ '' is not a valid hunk header. Valid hunk headers: '' @
     [CHR 0x27] @ ''*** Add File: {path}'' @ [CHR 0x27] @ '', '' @
     [CHR 0x27] @ ''*** Delete File: {path}'' @ [CHR 0x27] @ '', '' @
     [CHR 0x27] @ ''*** Update File: {path}'' @ [CHR 0x27]"

definition last_line_error :: parse_error where
  "last_line_error =
     InvalidPatchError (''The last line of the patch must be '' @
       [CHR 0x27] @ END_PATCH_MARKER @ [CHR 0x27])"

definition first_line_error :: parse_error where
  "first_line_error =
     InvalidPatchError (''The first line of the patch must be '' @
       [CHR 0x27] @ BEGIN_PATCH_MARKER @ [CHR 0x27])"

definition ensure_update_hunk_is_not_empty ::
  "streaming_parser \<Rightarrow> string \<Rightarrow> (parse_error, unit) result" where
  "ensure_update_hunk_is_not_empty p line =
     (case last_opt (hunks_of p) of
        Some (UpdateFile path _ chunks) \<Rightarrow>
          (case (chunks, mode_of p) of
             ([], InUpdateFile hunk_line_number) \<Rightarrow>
               Err (InvalidHunkError (''Update file hunk for path '' @
                 [CHR 0x27] @ path @ [CHR 0x27] @ '' is empty'') hunk_line_number)
           | _ \<Rightarrow>
               if last_satisfies chunk_is_blank chunks then
                 Err (InvalidHunkError
                   (if line = END_PATCH_MARKER then ''Update hunk does not contain any lines''
                    else unexpected_line line) (line_number p))
               else Ok ())
      | _ \<Rightarrow> Ok ())"

definition handle_hunk_headers_and_end_patch ::
  "streaming_parser \<Rightarrow> string \<Rightarrow> (parse_error, bool) result \<times> streaming_parser" where
  "handle_hunk_headers_and_end_patch p trimmed =
     (let header = (\<lambda>q. case ensure_update_hunk_is_not_empty p trimmed of
                          Inl e \<Rightarrow> (Err e, p) | Inr _ \<Rightarrow> (Ok True, q)) in
      if mode_of p = StartedPatch \<and> starts_with trimmed ENVIRONMENT_ID_MARKER then
        (let env = trim (drop (length ENVIRONMENT_ID_MARKER) trimmed) in
         if parsed_environment_id (pstate p) \<noteq> None
         then (Err (InvalidPatchError
                 ''apply_patch environment_id cannot be specified more than once''), p)
         else if env = []
         then (Err (InvalidPatchError ''apply_patch environment_id cannot be empty''), p)
         else (Ok True, p\<lparr>pstate := (pstate p)\<lparr>parsed_environment_id := Some env\<rparr>\<rparr>))
      else if trimmed = END_PATCH_MARKER then header (set_mode EndedPatch p)
      else (case strip_prefix ADD_FILE_MARKER trimmed of
        Some path \<Rightarrow> header (push_hunk (AddFile path []) InAddFile p)
      | None \<Rightarrow> (case strip_prefix DELETE_FILE_MARKER trimmed of
        Some path \<Rightarrow> header (push_hunk (DeleteFile path) InDeleteFile p)
      | None \<Rightarrow> (case strip_prefix UPDATE_FILE_MARKER trimmed of
        Some path \<Rightarrow> header (push_hunk (UpdateFile path None []) (InUpdateFile (line_number p)) p)
      | None \<Rightarrow> (Ok False, p)))))"

text \<open>A chunk without lines, and the chunk that a line is added to.\<close>

definition new_chunk :: "string option \<Rightarrow> update_file_chunk" where
  "new_chunk ctx = \<lparr>change_context = ctx, old_lines = [], new_lines = [], is_end_of_file = False\<rparr>"

definition push_old :: "string \<Rightarrow> update_file_chunk \<Rightarrow> update_file_chunk" where
  "push_old l c = c\<lparr>old_lines := old_lines c @ [l]\<rparr>"

definition push_new :: "string \<Rightarrow> update_file_chunk \<Rightarrow> update_file_chunk" where
  "push_new l c = c\<lparr>new_lines := new_lines c @ [l]\<rparr>"

definition in_last_chunk ::
  "(update_file_chunk \<Rightarrow> update_file_chunk) \<Rightarrow> update_file_chunk list \<Rightarrow> update_file_chunk list" where
  "in_last_chunk f chunks = map_last f (if chunks = [] then [new_chunk None] else chunks)"

definition is_context_marker :: "string \<Rightarrow> bool" where
  "is_context_marker l =
     (l = EMPTY_CHANGE_CONTEXT_MARKER \<or> starts_with l CHANGE_CONTEXT_MARKER)"

text \<open>
  The lines of an update hunk, for the hunk's destination and chunks: an error message, or
  the destination and chunks with the line taken in.
\<close>

definition update_line_step ::
  "string option \<Rightarrow> update_file_chunk list \<Rightarrow> string
   \<Rightarrow> (string, string option \<times> update_file_chunk list) result" where
  "update_line_step move_path chunks line =
     (let update_line = trim_end line in
      if last_satisfies is_end_of_file chunks \<and> update_line = [] then Ok (move_path, chunks)
      else if last_satisfies is_end_of_file chunks \<and> \<not> is_context_marker update_line
      then Err (expected_context line)
      else if chunks = [] \<and> move_path = None \<and> starts_with update_line MOVE_TO_MARKER
      then Ok (Some (drop (length MOVE_TO_MARKER) update_line), chunks)
      else if is_context_marker update_line \<and> last_satisfies chunk_is_blank chunks
      then Err (unexpected_line line)
      else if update_line = EMPTY_CHANGE_CONTEXT_MARKER
      then Ok (move_path, chunks @ [new_chunk None])
      else (case strip_prefix CHANGE_CONTEXT_MARKER update_line of
        Some ctx \<Rightarrow> Ok (move_path, chunks @ [new_chunk (Some ctx)])
      | None \<Rightarrow>
          if update_line = EOF_MARKER then
            (if last_satisfies chunk_is_blank chunks
             then Err ''Update hunk does not contain any lines''
             else Ok (move_path, map_last (\<lambda>c. c\<lparr>is_end_of_file := True\<rparr>) chunks))
          else (case line of
            [] \<Rightarrow> Ok (move_path, in_last_chunk (push_new [] \<circ> push_old []) chunks)
          | c # rest \<Rightarrow>
              if c = CHR '' ''
              then Ok (move_path, in_last_chunk (push_new rest \<circ> push_old rest) chunks)
              else if c = CHR ''+'' then Ok (move_path, in_last_chunk (push_new rest) chunks)
              else if c = CHR ''-'' then Ok (move_path, in_last_chunk (push_old rest) chunks)
              else if last_satisfies (\<lambda>c. \<not> chunk_is_blank c) chunks
              then Err (expected_context line)
              else Err (unexpected_line line))))"

definition hunk_error :: "streaming_parser \<Rightarrow> string \<Rightarrow> parse_error" where
  "hunk_error p msg = InvalidHunkError msg (line_number p)"

definition process_line ::
  "streaming_parser \<Rightarrow> string \<Rightarrow> (parse_error, unit) result \<times> streaming_parser" where
  "process_line p line =
     (let trimmed = trim line;
          headers = (\<lambda>l otherwise.
            case handle_hunk_headers_and_end_patch p l of
              (Inl e, q) \<Rightarrow> (Err e, q)
            | (Inr b, q) \<Rightarrow> if b then (Ok (), q) else otherwise) in
      case mode_of p of
        NotStarted \<Rightarrow>
          if trimmed = BEGIN_PATCH_MARKER then (Ok (), set_mode StartedPatch p)
          else (Err first_line_error, p)
      | StartedPatch \<Rightarrow> headers trimmed (Err (hunk_error p (not_a_header trimmed)), p)
      | InAddFile \<Rightarrow>
          headers trimmed
            (case (strip_prefix ''+'' line, last_opt (hunks_of p)) of
               (Some line_to_add, Some (AddFile path contents)) \<Rightarrow>
                 (Ok (), set_last_hunk (AddFile path (contents @ line_to_add @ [nl])) p)
             | _ \<Rightarrow> (Err (hunk_error p (not_a_header trimmed)), p))
      | InDeleteFile \<Rightarrow> headers trimmed (Err (hunk_error p (not_a_header trimmed)), p)
      | InUpdateFile hunk_line_number \<Rightarrow>
          headers (trim_end line)
            (case last_opt (hunks_of p) of
               Some (UpdateFile path move_path chunks) \<Rightarrow>
                 (case update_line_step move_path chunks line of
                    Inl msg \<Rightarrow> (Err (hunk_error p msg), p)
                  | Inr (move_path', chunks') \<Rightarrow>
                      (Ok (), set_last_hunk (UpdateFile path move_path' chunks') p))
             | _ \<Rightarrow> (Err (hunk_error p (unexpected_line line)), p))
      | EndedPatch \<Rightarrow> (if trimmed = [] then (Ok (), p) else (Err last_line_error, p)))"

text \<open>\<open>push_delta\<close>: the loop over the characters, and the hunks so far.\<close>

definition chop_cr :: "string \<Rightarrow> string" where
  "chop_cr l = (case strip_suffix [CHR 0x0D] l of None \<Rightarrow> l | Some l' \<Rightarrow> l')"

definition take_line :: "streaming_parser \<Rightarrow> streaming_parser" where
  "take_line p = p\<lparr>line_buffer := [], line_number := line_number p + 1\<rparr>"

fun push_chars ::
  "streaming_parser \<Rightarrow> string \<Rightarrow> (parse_error, unit) result \<times> streaming_parser" where
  "push_chars p [] = (Ok (), p)"
| "push_chars p (c # cs) =
     (if c = nl then
        (case process_line (take_line p) (chop_cr (line_buffer p)) of
           (Inl e, q) \<Rightarrow> (Err e, q)
         | (Inr _, q) \<Rightarrow> push_chars q cs)
      else push_chars (p\<lparr>line_buffer := line_buffer p @ [c]\<rparr>) cs)"

definition push_delta ::
  "streaming_parser \<Rightarrow> string \<Rightarrow> (parse_error, hunk list) result \<times> streaming_parser" where
  "push_delta p delta =
     (case push_chars p delta of
        (Inl e, q) \<Rightarrow> (Err e, q)
      | (Inr _, q) \<Rightarrow> (Ok (hunks_of q), q))"

definition finish_line ::
  "streaming_parser \<Rightarrow> (parse_error, unit) result \<times> streaming_parser" where
  "finish_line p =
     (if line_buffer p = [] then (Ok (), p)
      else if trim (line_buffer p) = END_PATCH_MARKER then
        (case ensure_update_hunk_is_not_empty (take_line p) (trim (line_buffer p)) of
           Inl e \<Rightarrow> (Err e, take_line p)
         | Inr _ \<Rightarrow> (Ok (), set_mode EndedPatch (take_line p)))
      else process_line (take_line p) (line_buffer p))"

definition finish_patch ::
  "streaming_parser \<Rightarrow> (parse_error, hunk list) result \<times> streaming_parser" where
  "finish_patch p =
     (case finish_line p of
        (Inl e, q) \<Rightarrow> (Err e, q)
      | (Inr _, q) \<Rightarrow>
          if mode_of q = EndedPatch then (Ok (hunks_of q), q) else (Err last_line_error, q))"

section \<open>Parsing a whole patch\<close>

record apply_patch_args =
  patch_text :: string
  patch_hunks :: "hunk list"
  workdir :: "string option"
  patch_environment_id :: "string option"

datatype parse_mode = Strict | Lenient

definition check_start_and_end_lines_strict ::
  "string option \<Rightarrow> string option \<Rightarrow> (parse_error, unit) result" where
  "check_start_and_end_lines_strict first_line last_line =
     (case (map_option trim first_line, map_option trim last_line) of
        (Some first, Some final) \<Rightarrow>
          if first = BEGIN_PATCH_MARKER \<and> final = END_PATCH_MARKER then Ok ()
          else if first \<noteq> BEGIN_PATCH_MARKER then Err first_line_error
          else Err last_line_error
      | (Some first, None) \<Rightarrow>
          if first \<noteq> BEGIN_PATCH_MARKER then Err first_line_error else Err last_line_error
      | (None, _) \<Rightarrow> Err last_line_error)"

definition check_patch_boundaries_strict ::
  "string list \<Rightarrow> (parse_error, string list) result" where
  "check_patch_boundaries_strict ls =
     bindR (check_start_and_end_lines_strict
              (if ls = [] then None else Some (hd ls)) (last_opt ls)) (\<lambda>_. Ok ls)"

definition heredoc_openers :: "string list" where
  "heredoc_openers =
     [''<<EOF'', ''<<'' @ [CHR 0x27] @ ''EOF'' @ [CHR 0x27], ''<<'' @ [CHR 0x22] @ ''EOF'' @ [CHR 0x22]]"

definition check_patch_boundaries_lenient ::
  "string list \<Rightarrow> (parse_error, string list) result" where
  "check_patch_boundaries_lenient original_lines =
     (case check_patch_boundaries_strict original_lines of
        Inr ls \<Rightarrow> Ok ls
      | Inl original_parse_error \<Rightarrow>
          if 2 \<le> length original_lines
             \<and> hd original_lines \<in> set heredoc_openers
             \<and> ends_with (last original_lines) ''EOF''
             \<and> 4 \<le> length original_lines
          then check_patch_boundaries_strict (butlast (tl original_lines))
          else Err original_parse_error)"

definition parse_patch_text :: "string \<Rightarrow> parse_mode \<Rightarrow> (parse_error, apply_patch_args) result" where
  "parse_patch_text text md =
     (let ls = lines (trim text) in
      bindR (case md of
               Strict \<Rightarrow> check_patch_boundaries_strict ls
             | Lenient \<Rightarrow> check_patch_boundaries_lenient ls) (\<lambda>patch_lines.
      let patch = join [nl] patch_lines;
          (pushed, p) = push_delta default_parser patch
      in bindR pushed (\<lambda>_.
         let (finished, q) = finish_patch p in
         bindR finished (\<lambda>hs.
         Ok \<lparr>patch_text = patch, patch_hunks = hs, workdir = None,
             patch_environment_id = parsed_environment_id (pstate q)\<rparr>))))"

definition PARSE_IN_STRICT_MODE :: bool where
  "PARSE_IN_STRICT_MODE = False"

definition parse_patch :: "string \<Rightarrow> (parse_error, apply_patch_args) result" where
  "parse_patch patch = parse_patch_text patch (if PARSE_IN_STRICT_MODE then Strict else Lenient)"

section \<open>The grammar\<close>

text \<open>
  The patches the grammar in \<open>parser.rs\<close> describes, as a printer: the lines of a hunk, and
  the text of a patch. A name (a path, a context line or an environment id) must not be empty
  nor end in whitespace, because the parser trims the line it stands on.
\<close>

definition printable_name :: "string \<Rightarrow> bool" where
  "printable_name x = (x \<noteq> [] \<and> trim_end x = x \<and> plain_line x)"

definition unlines :: "string list \<Rightarrow> string" where
  "unlines ls = concat (map (\<lambda>l. l @ [nl]) ls)"

definition printable_chunk :: "update_file_chunk \<Rightarrow> bool" where
  "printable_chunk c =
     ((case change_context c of None \<Rightarrow> True | Some x \<Rightarrow> printable_name x)
      \<and> list_all plain_line (old_lines c) \<and> list_all plain_line (new_lines c)
      \<and> \<not> chunk_is_blank c)"

fun printable_hunk :: "hunk \<Rightarrow> bool" where
  "printable_hunk (AddFile path contents) =
     (printable_name path \<and> contents = unlines (lines contents)
      \<and> list_all plain_line (lines contents))"
| "printable_hunk (DeleteFile path) = printable_name path"
| "printable_hunk (UpdateFile path move_path chunks) =
     (printable_name path
      \<and> (case move_path of None \<Rightarrow> True | Some x \<Rightarrow> printable_name x)
      \<and> chunks \<noteq> [] \<and> list_all printable_chunk chunks)"

definition context_line :: "string option \<Rightarrow> string" where
  "context_line ctx =
     (case ctx of None \<Rightarrow> EMPTY_CHANGE_CONTEXT_MARKER | Some x \<Rightarrow> CHANGE_CONTEXT_MARKER @ x)"

definition render_chunk :: "update_file_chunk \<Rightarrow> string list" where
  "render_chunk c =
     [context_line (change_context c)] @ map ((#) CHR ''-'') (old_lines c)
     @ map ((#) CHR ''+'') (new_lines c) @ (if is_end_of_file c then [EOF_MARKER] else [])"

fun render_hunk :: "hunk \<Rightarrow> string list" where
  "render_hunk (AddFile path contents) =
     (ADD_FILE_MARKER @ path) # map ((#) CHR ''+'') (lines contents)"
| "render_hunk (DeleteFile path) = [DELETE_FILE_MARKER @ path]"
| "render_hunk (UpdateFile path move_path chunks) =
     [UPDATE_FILE_MARKER @ path]
     @ (case move_path of None \<Rightarrow> [] | Some x \<Rightarrow> [MOVE_TO_MARKER @ x])
     @ concat (map render_chunk chunks)"

definition render_patch_lines :: "string option \<Rightarrow> hunk list \<Rightarrow> string list" where
  "render_patch_lines env hs =
     [BEGIN_PATCH_MARKER]
     @ (case env of None \<Rightarrow> [] | Some e \<Rightarrow> [ENVIRONMENT_ID_MARKER @ '' '' @ e])
     @ concat (map render_hunk hs)"

definition render_patch :: "string option \<Rightarrow> hunk list \<Rightarrow> string" where
  "render_patch env hs = join [nl] (render_patch_lines env hs @ [END_PATCH_MARKER])"

section \<open>Running the parser over lines\<close>

fun process_lines ::
  "streaming_parser \<Rightarrow> string list \<Rightarrow> (parse_error, unit) result \<times> streaming_parser" where
  "process_lines p [] = (Ok (), p)"
| "process_lines p (l # ls) =
     (case process_line (take_line p) l of
        (Inl e, q) \<Rightarrow> (Err e, q)
      | (Inr _, q) \<Rightarrow> process_lines q ls)"

lemma process_lines_append:
  "process_lines p (a @ b) =
     (case process_lines p a of (Inl e, q) \<Rightarrow> (Err e, q) | (Inr _, q) \<Rightarrow> process_lines q b)"
  by (induction a arbitrary: p) (simp_all split: prod.split sum.split)

lemma push_chars_append:
  "push_chars p (a @ b) =
     (case push_chars p a of (Inl e, q) \<Rightarrow> (Err e, q) | (Inr _, q) \<Rightarrow> push_chars q b)"
  by (induction p a rule: push_chars.induct) (simp_all split: prod.split sum.split)

lemma push_chars_no_newline:
  "nl \<notin> set l \<Longrightarrow> push_chars p l = (Ok (), p\<lparr>line_buffer := line_buffer p @ l\<rparr>)"
  by (induction l arbitrary: p) auto

lemma line_buffer_updates [simp]:
  "line_buffer (set_mode md p) = line_buffer p"
  "line_buffer (push_hunk h md p) = line_buffer p"
  "line_buffer (set_last_hunk h p) = line_buffer p"
  "line_buffer (take_line p) = []"
  by (simp_all add: set_mode_def push_hunk_def set_last_hunk_def take_line_def)

lemma line_buffer_headers [simp]:
  "line_buffer (snd (handle_hunk_headers_and_end_patch p l)) = line_buffer p"
  by (simp add: handle_hunk_headers_and_end_patch_def Let_def split: sum.split option.split)

lemma handle_line_buffer:
  "handle_hunk_headers_and_end_patch p l = (r, q) \<Longrightarrow> line_buffer q = line_buffer p"
  using line_buffer_headers [of p l] by simp

lemma line_buffer_process_line: "line_buffer (snd (process_line p l)) = line_buffer p"
  by (cases "mode_of p")
    (auto simp: process_line_def Let_def dest: handle_line_buffer
      split: prod.split sum.split option.split hunk.split)

lemma chop_cr_plain: "plain_line l \<Longrightarrow> chop_cr l = l"
  by (cases "strip_suffix [CHR 0x0D] l")
    (auto simp: chop_cr_def plain_line_def strip_suffix_eq_Some suffix_def)

lemma push_chars_unlines:
  "line_buffer p = [] \<Longrightarrow> list_all plain_line ls \<Longrightarrow>
   push_chars p (unlines ls) = process_lines p ls"
proof (induction ls arbitrary: p)
  case (Cons l ls)
  have l: "plain_line l" "nl \<notin> set l" using Cons.prems by (simp_all add: plain_line_def)
  have t: "take_line (p\<lparr>line_buffer := l\<rparr>) = take_line p" by (simp add: take_line_def)
  obtain r q where q: "process_line (take_line p) l = (r, q)" by fastforce
  then have "line_buffer q = []" using line_buffer_process_line [of "take_line p" l] by simp
  with Cons q t l chop_cr_plain [OF l(1)] show ?case
    by (simp add: unlines_def push_chars_append push_chars_no_newline split: sum.split)
qed (simp add: unlines_def)

lemma join_unlines: "join [nl] (ls @ [l]) = unlines ls @ l"
  by (induction ls) (simp_all add: unlines_def join_Cons)

section \<open>Round trip\<close>

text \<open>A parser between two lines.\<close>

definition at_line ::
  "nat \<Rightarrow> parser_mode \<Rightarrow> hunk list \<Rightarrow> string option \<Rightarrow> streaming_parser" where
  "at_line n md hs env =
     \<lparr>line_buffer = [],
      pstate = \<lparr>pmode = md, parsed_hunks = hs, parsed_environment_id = env\<rparr>,
      line_number = n\<rparr>"

lemma at_line_simps [simp]:
  "mode_of (at_line n md hs env) = md"
  "hunks_of (at_line n md hs env) = hs"
  "parsed_environment_id (pstate (at_line n md hs env)) = env"
  "line_buffer (at_line n md hs env) = []"
  "line_number (at_line n md hs env) = n"
  "take_line (at_line n md hs env) = at_line (Suc n) md hs env"
  "set_mode md' (at_line n md hs env) = at_line n md' hs env"
  "push_hunk h md' (at_line n md hs env) = at_line n md' (hs @ [h]) env"
  "set_last_hunk h (at_line n md (hs @ [h']) env) = at_line n md (hs @ [h]) env"
  by (simp_all add: at_line_def take_line_def set_mode_def push_hunk_def set_last_hunk_def)

text \<open>The last hunk can be left: an update hunk has a last chunk, and it has lines.\<close>

definition settled :: "hunk list \<Rightarrow> bool" where
  "settled hs =
     (case last_opt hs of
        Some (UpdateFile path mv chunks) \<Rightarrow> last_satisfies (\<lambda>c. \<not> chunk_is_blank c) chunks
      | _ \<Rightarrow> True)"

lemma settled_ensure:
  "settled (hunks_of p) \<Longrightarrow> ensure_update_hunk_is_not_empty p l = Ok ()"
  by (auto simp: settled_def ensure_update_hunk_is_not_empty_def last_satisfies_def
      split: option.splits hunk.splits list.splits parser_mode.splits)

lemma settled_simps [simp]:
  "settled []"
  "settled (hs @ [AddFile path c])"
  "settled (hs @ [DeleteFile path])"
  "settled (hs @ [UpdateFile path mv cs]) = last_satisfies (\<lambda>c. \<not> chunk_is_blank c) cs"
  by (simp_all add: settled_def)

lemma printable_name_append:
  assumes "printable_name x" and "(of_char (last m) :: nat) < 128"
  shows "trim_end (m @ x) = m @ x"
  using assms by (simp add: printable_name_def trim_end_append)

lemma trim_star:
  assumes "trim_end (CHR ''*'' # s) = CHR ''*'' # s"
  shows "trim (CHR ''*'' # s) = CHR ''*'' # s"
  using assms trim_start_ascii [of "CHR ''*''" s]
  by (simp add: trim_def unicode_ws_def)

text \<open>In every mode between the markers, a hunk header is read the same way.\<close>

lemma process_header:
  assumes "md \<noteq> NotStarted" "md \<noteq> EndedPatch" "l = CHR ''*'' # s" "trim_end l = l"
    and "handle_hunk_headers_and_end_patch (at_line n md hs env) l = (Ok True, q)"
  shows "process_line (at_line n md hs env) l = (Ok (), q)"
proof -
  have "trim l = l" using assms(3,4) trim_star by simp
  with assms show ?thesis
    by (cases md) (simp_all add: process_line_def del: at_line_simps(6-))
qed

lemma process_add_header:
  assumes "md \<noteq> NotStarted" "md \<noteq> EndedPatch" "settled hs" "printable_name path"
  shows "process_line (at_line n md hs env) (ADD_FILE_MARKER @ path)
         = (Ok (), at_line n InAddFile (hs @ [AddFile path []]) env)"
proof (rule process_header [OF assms(1,2)])
  show "trim_end (ADD_FILE_MARKER @ path) = ADD_FILE_MARKER @ path"
    using assms(4) by (rule printable_name_append) (simp add: markers_def)
  show "handle_hunk_headers_and_end_patch (at_line n md hs env) (ADD_FILE_MARKER @ path)
        = (Ok True, at_line n InAddFile (hs @ [AddFile path []]) env)"
    using settled_ensure [of "at_line n md hs env"] assms(3)
    by (simp add: handle_hunk_headers_and_end_patch_def markers_def)
qed (simp add: markers_def)

lemma process_delete_header:
  assumes "md \<noteq> NotStarted" "md \<noteq> EndedPatch" "settled hs" "printable_name path"
  shows "process_line (at_line n md hs env) (DELETE_FILE_MARKER @ path)
         = (Ok (), at_line n InDeleteFile (hs @ [DeleteFile path]) env)"
proof (rule process_header [OF assms(1,2)])
  show "trim_end (DELETE_FILE_MARKER @ path) = DELETE_FILE_MARKER @ path"
    using assms(4) by (rule printable_name_append) (simp add: markers_def)
  show "handle_hunk_headers_and_end_patch (at_line n md hs env) (DELETE_FILE_MARKER @ path)
        = (Ok True, at_line n InDeleteFile (hs @ [DeleteFile path]) env)"
    using settled_ensure [of "at_line n md hs env"] assms(3)
    by (simp add: handle_hunk_headers_and_end_patch_def markers_def)
qed (simp add: markers_def)

lemma process_update_header:
  assumes "md \<noteq> NotStarted" "md \<noteq> EndedPatch" "settled hs" "printable_name path"
  shows "process_line (at_line n md hs env) (UPDATE_FILE_MARKER @ path)
         = (Ok (), at_line n (InUpdateFile n) (hs @ [UpdateFile path None []]) env)"
proof (rule process_header [OF assms(1,2)])
  show "trim_end (UPDATE_FILE_MARKER @ path) = UPDATE_FILE_MARKER @ path"
    using assms(4) by (rule printable_name_append) (simp add: markers_def)
  show "handle_hunk_headers_and_end_patch (at_line n md hs env) (UPDATE_FILE_MARKER @ path)
        = (Ok True, at_line n (InUpdateFile n) (hs @ [UpdateFile path None []]) env)"
    using settled_ensure [of "at_line n md hs env"] assms(3)
    by (simp add: handle_hunk_headers_and_end_patch_def markers_def)
qed (simp add: markers_def)

definition no_header :: "string \<Rightarrow> bool" where
  "no_header l =
     (l \<noteq> END_PATCH_MARKER \<and> strip_prefix ADD_FILE_MARKER l = None
      \<and> strip_prefix DELETE_FILE_MARKER l = None \<and> strip_prefix UPDATE_FILE_MARKER l = None)"

lemma no_header_simps [simp]:
  "no_header []"
  "c \<noteq> CHR ''*'' \<Longrightarrow> no_header (c # s)"
  "no_header EOF_MARKER"
  "no_header (MOVE_TO_MARKER @ x)"
  by (simp_all add: no_header_def markers_def)

lemma no_header_trim_end: "c \<noteq> CHR ''*'' \<Longrightarrow> no_header (trim_end (c # s))"
  using trim_end_Cons_cases [of c s] by auto

lemma handle_no_header:
  assumes "mode_of p \<noteq> StartedPatch" "no_header l"
  shows "handle_hunk_headers_and_end_patch p l = (Ok False, p)"
  using assms by (simp add: handle_hunk_headers_and_end_patch_def no_header_def)

lemma process_added_line:
  "process_line (at_line n InAddFile (hs @ [AddFile path c]) env) (CHR ''+'' # l)
   = (Ok (), at_line n InAddFile (hs @ [AddFile path (c @ l @ [nl])]) env)"
proof -
  have "trim_start (CHR ''+'' # l) = CHR ''+'' # l"
    by (rule trim_start_ascii) (simp_all add: unicode_ws_def)
  then have "no_header (trim (CHR ''+'' # l))"
    by (simp add: trim_def no_header_trim_end)
  then show ?thesis
    by (simp add: process_line_def handle_no_header)
qed

lemma process_added_lines:
  "process_lines (at_line n InAddFile (hs @ [AddFile path c]) env) (map ((#) CHR ''+'') ls)
   = (Ok (), at_line (n + length ls) InAddFile (hs @ [AddFile path (c @ unlines ls)]) env)"
  by (induction ls arbitrary: n c) (simp_all add: process_added_line unlines_def)

lemma process_update_line:
  assumes "no_header (trim_end l)" and "update_line_step mv cs l = Ok (mv', cs')"
  shows "process_line (at_line n (InUpdateFile k) (hs @ [UpdateFile path mv cs]) env) l
         = (Ok (), at_line n (InUpdateFile k) (hs @ [UpdateFile path mv' cs']) env)"
  using assms by (simp add: process_line_def handle_no_header)

lemma last_satisfies_simps [simp]:
  "\<not> last_satisfies f []"
  "last_satisfies f (xs @ [x]) = f x"
  by (simp_all add: last_satisfies_def)

lemma trim_end_markers:
  "trim_end EMPTY_CHANGE_CONTEXT_MARKER = EMPTY_CHANGE_CONTEXT_MARKER"
  "trim_end EOF_MARKER = EOF_MARKER"
  "trim_end END_PATCH_MARKER = END_PATCH_MARKER"
  "trim_end BEGIN_PATCH_MARKER = BEGIN_PATCH_MARKER"
  by (simp_all add: trim_end_eq_self markers_def unicode_ws_def suffix_to_prefix)

lemma trim_end_context_line:
  "pred_option printable_name ctx \<Longrightarrow> trim_end (context_line ctx) = context_line ctx"
  using printable_name_append [of _ CHANGE_CONTEXT_MARKER]
  by (cases ctx) (simp_all add: context_line_def trim_end_markers, simp add: markers_def)

lemma step_context_line:
  assumes "pred_option printable_name ctx" and "\<not> last_satisfies chunk_is_blank cs"
  shows "update_line_step mv cs (context_line ctx) = Ok (mv, cs @ [new_chunk ctx])"
proof -
  have "context_line ctx = EMPTY_CHANGE_CONTEXT_MARKER \<longleftrightarrow> ctx = None"
    using assms(1) by (cases ctx) (auto simp: context_line_def markers_def printable_name_def)
  with assms(2) show ?thesis
    unfolding update_line_step_def trim_end_context_line [OF assms(1)] Let_def
    by (cases ctx) (simp_all add: is_context_marker_def context_line_def markers_def)
qed

lemma step_removed_line:
  assumes "\<not> is_end_of_file c"
  shows "update_line_step mv (cs @ [c]) (CHR ''-'' # l) = Ok (mv, cs @ [push_old l c])"
  using assms trim_end_Cons_cases [of "CHR ''-''" l]
  by (elim disjE exE)
    (simp_all add: update_line_step_def is_context_marker_def markers_def in_last_chunk_def)

lemma step_added_line:
  assumes "\<not> is_end_of_file c"
  shows "update_line_step mv (cs @ [c]) (CHR ''+'' # l) = Ok (mv, cs @ [push_new l c])"
  using assms trim_end_Cons_cases [of "CHR ''+''" l]
  by (elim disjE exE)
    (simp_all add: update_line_step_def is_context_marker_def markers_def in_last_chunk_def)

lemma step_eof_line:
  assumes "\<not> is_end_of_file c" and "\<not> chunk_is_blank c"
  shows "update_line_step mv (cs @ [c]) EOF_MARKER = Ok (mv, cs @ [c\<lparr>is_end_of_file := True\<rparr>])"
  using assms trim_end_markers(2)
  by (simp add: update_line_step_def is_context_marker_def markers_def)

lemma step_move_line:
  assumes "printable_name x"
  shows "update_line_step None [] (MOVE_TO_MARKER @ x) = Ok (Some x, [])"
  using printable_name_append [OF assms, of MOVE_TO_MARKER]
  by (simp add: update_line_step_def is_context_marker_def MOVE_TO_MARKER_def)

lemma process_removed_lines:
  "\<not> is_end_of_file c \<Longrightarrow>
   process_lines (at_line n (InUpdateFile k) (hs @ [UpdateFile path mv (cs @ [c])]) env)
     (map ((#) CHR ''-'') ls)
   = (Ok (), at_line (n + length ls) (InUpdateFile k)
        (hs @ [UpdateFile path mv (cs @ [c\<lparr>old_lines := old_lines c @ ls\<rparr>])]) env)"
proof (induction ls arbitrary: n c)
  case (Cons l ls)
  have "process_line (at_line (Suc n) (InUpdateFile k) (hs @ [UpdateFile path mv (cs @ [c])]) env)
          (CHR ''-'' # l)
        = (Ok (), at_line (Suc n) (InUpdateFile k)
             (hs @ [UpdateFile path mv (cs @ [push_old l c])]) env)"
    by (rule process_update_line) (simp_all add: no_header_trim_end step_removed_line Cons.prems)
  with Cons show ?case by (simp add: push_old_def)
qed simp

lemma process_new_lines:
  "\<not> is_end_of_file c \<Longrightarrow>
   process_lines (at_line n (InUpdateFile k) (hs @ [UpdateFile path mv (cs @ [c])]) env)
     (map ((#) CHR ''+'') ls)
   = (Ok (), at_line (n + length ls) (InUpdateFile k)
        (hs @ [UpdateFile path mv (cs @ [c\<lparr>new_lines := new_lines c @ ls\<rparr>])]) env)"
proof (induction ls arbitrary: n c)
  case (Cons l ls)
  have "process_line (at_line (Suc n) (InUpdateFile k) (hs @ [UpdateFile path mv (cs @ [c])]) env)
          (CHR ''+'' # l)
        = (Ok (), at_line (Suc n) (InUpdateFile k)
             (hs @ [UpdateFile path mv (cs @ [push_new l c])]) env)"
    by (rule process_update_line) (simp_all add: no_header_trim_end step_added_line Cons.prems)
  with Cons show ?case by (simp add: push_new_def)
qed simp

lemma process_chunk:
  assumes "printable_chunk c" and "\<not> last_satisfies chunk_is_blank cs"
  shows "process_lines (at_line n (InUpdateFile k) (hs @ [UpdateFile path mv cs]) env) (render_chunk c)
         = (Ok (), at_line (n + length (render_chunk c)) (InUpdateFile k)
              (hs @ [UpdateFile path mv (cs @ [c])]) env)"
proof -
  let ?at = "\<lambda>n cs. at_line n (InUpdateFile k) (hs @ [UpdateFile path mv cs]) env"
  have ctx: "pred_option printable_name (change_context c)"
    using assms(1) by (auto simp: printable_chunk_def split: option.splits)
  have "no_header (trim_end (context_line (change_context c)))"
    unfolding trim_end_context_line [OF ctx]
    by (simp add: context_line_def markers_def split: option.split)
  then have "process_line (?at (Suc n) cs) (context_line (change_context c))
             = (Ok (), ?at (Suc n) (cs @ [new_chunk (change_context c)]))"
    using step_context_line [OF ctx assms(2)] by (rule process_update_line)
  moreover have eof: "process_line (?at m (cs @ [d])) EOF_MARKER
        = (Ok (), ?at m (cs @ [d\<lparr>is_end_of_file := True\<rparr>]))"
    if "\<not> is_end_of_file d" "\<not> chunk_is_blank d" for m d
    using step_eof_line [OF that] by (intro process_update_line) (simp_all add: trim_end_markers)
  ultimately show ?thesis
    using assms(1)
    by (cases c)
      (simp add: render_chunk_def process_lines_append process_removed_lines process_new_lines
        new_chunk_def printable_chunk_def chunk_is_blank_def)
qed

lemma process_chunks:
  "list_all printable_chunk ds \<Longrightarrow> \<not> last_satisfies chunk_is_blank cs \<Longrightarrow>
   process_lines (at_line n (InUpdateFile k) (hs @ [UpdateFile path mv cs]) env)
     (concat (map render_chunk ds))
   = (Ok (), at_line (n + length (concat (map render_chunk ds))) (InUpdateFile k)
        (hs @ [UpdateFile path mv (cs @ ds)]) env)"
proof (induction ds arbitrary: n cs)
  case (Cons d ds)
  then have "\<not> last_satisfies chunk_is_blank (cs @ [d])" by (simp add: printable_chunk_def)
  with Cons show ?case
    by (simp add: process_lines_append process_chunk add.assoc)
qed simp

lemma process_hunk:
  assumes "md \<noteq> NotStarted" "md \<noteq> EndedPatch" "settled hs" "printable_hunk h"
  obtains md' where "md' \<noteq> NotStarted" "md' \<noteq> EndedPatch" "settled (hs @ [h])"
    "process_lines (at_line n md hs env) (render_hunk h)
     = (Ok (), at_line (n + length (render_hunk h)) md' (hs @ [h]) env)"
proof (cases h)
  case (AddFile path contents)
  with assms(4) have "printable_name path" "contents = unlines (lines contents)" by simp_all
  with AddFile show ?thesis
    by (intro that [of InAddFile])
      (simp_all add: process_add_header [OF assms(1-3)]
        process_added_lines [where c = "[]", simplified])
next
  case (DeleteFile path)
  with assms(4) show ?thesis
    by (intro that [of InDeleteFile]) (simp_all add: process_delete_header [OF assms(1-3)])
next
  case (UpdateFile path mv cs)
  have name: "printable_name path" and cs: "cs \<noteq> []" "list_all printable_chunk cs"
    and mv: "pred_option printable_name mv"
    using assms(4) UpdateFile by (auto split: option.splits)
  let ?moves = "case mv of None \<Rightarrow> [] | Some x \<Rightarrow> [MOVE_TO_MARKER @ x]"
  let ?md = "InUpdateFile (Suc n)"
  have "process_lines (at_line (Suc n) ?md (hs @ [UpdateFile path None []]) env) ?moves
        = (Ok (), at_line (Suc n + length ?moves) ?md (hs @ [UpdateFile path mv []]) env)"
  proof (cases mv)
    case (Some x)
    with mv have x: "printable_name x" by simp
    then have t: "trim_end (MOVE_TO_MARKER @ x) = MOVE_TO_MARKER @ x"
      by (rule printable_name_append) (simp add: markers_def)
    have "process_line (at_line (Suc (Suc n)) ?md (hs @ [UpdateFile path None []]) env) (MOVE_TO_MARKER @ x)
          = (Ok (), at_line (Suc (Suc n)) ?md (hs @ [UpdateFile path (Some x) []]) env)"
      using step_move_line [OF x] by (intro process_update_line) (simp_all add: t)
    with Some show ?thesis by simp
  qed simp
  moreover have "last_satisfies (\<lambda>c. \<not> chunk_is_blank c) cs"
    using cs by (cases cs rule: rev_cases) (simp_all add: printable_chunk_def)
  ultimately show ?thesis
    using name cs UpdateFile
    by (intro that [of ?md])
      (simp_all add: process_update_header [OF assms(1-3)] process_lines_append process_chunks
        add.assoc)
qed

lemma process_hunks:
  assumes "list_all printable_hunk gs" "md \<noteq> NotStarted" "md \<noteq> EndedPatch" "settled hs"
  shows "\<exists>n' md'. md' \<noteq> NotStarted \<and> md' \<noteq> EndedPatch \<and> settled (hs @ gs)
    \<and> process_lines (at_line n md hs env) (concat (map render_hunk gs))
      = (Ok (), at_line n' md' (hs @ gs) env)"
  using assms
proof (induction gs arbitrary: n md hs)
  case (Cons g gs)
  obtain md' where "md' \<noteq> NotStarted" "md' \<noteq> EndedPatch" "settled (hs @ [g])"
    "process_lines (at_line n md hs env) (render_hunk g)
     = (Ok (), at_line (n + length (render_hunk g)) md' (hs @ [g]) env)"
    using Cons.prems(1) by (auto intro: process_hunk [OF Cons.prems(2,3,4), of g n env])
  with Cons.IH [of md' "hs @ [g]" "n + length (render_hunk g)"] Cons.prems(1) show ?case
    by (simp add: process_lines_append)
qed auto

lemma ends_with_single: "ends_with l [c] \<longleftrightarrow> l \<noteq> [] \<and> last l = c"
  by (cases l rule: rev_cases) auto

lemma plain_line_append: "plain_line x \<Longrightarrow> x \<noteq> [] \<Longrightarrow> nl \<notin> set m \<Longrightarrow> plain_line (m @ x)"
  by (simp add: plain_line_def ends_with_single)

lemma plain_line_Cons:
  "plain_line l \<Longrightarrow> c \<noteq> nl \<Longrightarrow> c \<noteq> CHR 0x0D \<Longrightarrow> plain_line (c # l)"
  by (cases l) (auto simp: plain_line_def suffix_Cons)

lemma plain_markers:
  "plain_line BEGIN_PATCH_MARKER" "plain_line END_PATCH_MARKER" "plain_line EOF_MARKER"
  "plain_line EMPTY_CHANGE_CONTEXT_MARKER"
  by (simp_all add: plain_line_def markers_def suffix_to_prefix)

lemma plain_named:
  "printable_name x \<Longrightarrow> nl \<notin> set m \<Longrightarrow> plain_line (m @ x)"
  by (auto simp: printable_name_def intro: plain_line_append)

lemma plain_render_chunk: "printable_chunk c \<Longrightarrow> list_all plain_line (render_chunk c)"
  by (auto simp: printable_chunk_def render_chunk_def context_line_def list_all_iff plain_markers
      split: option.splits intro!: plain_line_Cons plain_named)
    (simp_all add: markers_def)

lemma plain_render_hunk: "printable_hunk h \<Longrightarrow> list_all plain_line (render_hunk h)"
proof (cases h)
  case (UpdateFile path mv cs)
  assume "printable_hunk h"
  with UpdateFile have "list_all plain_line (concat (map render_chunk cs))"
    using plain_render_chunk by (auto simp: list_all_iff)
  moreover have "plain_line (UPDATE_FILE_MARKER @ path)" "pred_option (\<lambda>x. plain_line (MOVE_TO_MARKER @ x)) mv"
    using UpdateFile \<open>printable_hunk h\<close>
    by (auto intro!: plain_named split: option.splits simp: option.pred_set) (simp_all add: markers_def)
  ultimately show ?thesis using UpdateFile by (cases mv) simp_all
qed (auto simp: list_all_iff intro!: plain_line_Cons plain_named, simp_all add: markers_def)

definition printable_environment :: "string option \<Rightarrow> bool" where
  "printable_environment env =
     (case env of None \<Rightarrow> True | Some e \<Rightarrow> printable_name e \<and> trim e = e)"

lemma trim_space: "trim (CHR '' '' # s) = trim s"
proof -
  have "strip_one unicode_ws (CHR '' '' # s) = Some s"
    by (simp add: strip_one_def unicode_ws_def)
  then have "trim_start (CHR '' '' # s) = trim_start s"
    by (simp add: trim_start_def strip_all.simps [of unicode_ws "CHR '' '' # s"])
  then show ?thesis by (simp add: trim_def)
qed

lemma process_environment:
  assumes "printable_name e" "trim e = e"
  shows "process_line (at_line n StartedPatch [] None) (ENVIRONMENT_ID_MARKER @ '' '' @ e)
         = (Ok (), at_line n StartedPatch [] (Some e))"
proof (rule process_header)
  have "trim_end ((ENVIRONMENT_ID_MARKER @ '' '') @ e) = (ENVIRONMENT_ID_MARKER @ '' '') @ e"
    using assms(1) by (rule printable_name_append) simp
  then show "trim_end (ENVIRONMENT_ID_MARKER @ '' '' @ e) = ENVIRONMENT_ID_MARKER @ '' '' @ e"
    by simp
  show "handle_hunk_headers_and_end_patch (at_line n StartedPatch [] None)
          (ENVIRONMENT_ID_MARKER @ '' '' @ e) = (Ok True, at_line n StartedPatch [] (Some e))"
    using assms
    by (simp add: handle_hunk_headers_and_end_patch_def trim_space printable_name_def at_line_def)
qed (simp_all add: markers_def)

lemma process_rendered:
  assumes "list_all printable_hunk hs" "printable_environment env"
  shows "\<exists>n md. settled hs
    \<and> process_lines default_parser (render_patch_lines env hs) = (Ok (), at_line n md hs env)"
proof -
  have d: "default_parser = at_line 0 NotStarted [] None"
    by (simp add: default_parser_def at_line_def)
  have "process_line (at_line 1 NotStarted [] None) BEGIN_PATCH_MARKER
      = (Ok (), at_line 1 StartedPatch [] None)"
    using trim_end_markers(4) trim_star [of "tl BEGIN_PATCH_MARKER"]
    by (simp add: process_line_def) (simp add: markers_def)
  moreover obtain m where "process_lines (at_line 1 StartedPatch [] None)
      (case env of None \<Rightarrow> [] | Some e \<Rightarrow> [ENVIRONMENT_ID_MARKER @ '' '' @ e])
      = (Ok (), at_line m StartedPatch [] env)"
  proof (cases env)
    case (Some e)
    with assms(2) show ?thesis
      using that [of 2] process_environment [of e] by (simp add: printable_environment_def)
  qed (simp add: that)
  moreover obtain n md where "settled hs"
    "process_lines (at_line m StartedPatch [] env) (concat (map render_hunk hs))
     = (Ok (), at_line n md hs env)"
    using process_hunks [OF assms(1), of StartedPatch "[]" m env] by auto
  ultimately show ?thesis
    by (auto simp: d render_patch_lines_def process_lines_append)
qed

lemma parse_patch_eq:
  assumes "check_patch_boundaries_lenient (lines (trim text)) = Ok ls"
    and "push_chars default_parser (join [nl] ls) = (Ok (), p)"
    and "finish_patch p = (Ok hs, q)"
  shows "parse_patch text =
    Ok \<lparr>patch_text = join [nl] ls, patch_hunks = hs, workdir = None,
        patch_environment_id = parsed_environment_id (pstate q)\<rparr>"
  using assms by (simp add: parse_patch_def parse_patch_text_def PARSE_IN_STRICT_MODE_def push_delta_def)

lemma trim_markers:
  "trim BEGIN_PATCH_MARKER = BEGIN_PATCH_MARKER" "trim END_PATCH_MARKER = END_PATCH_MARKER"
  using trim_star [of "tl BEGIN_PATCH_MARKER"] trim_star [of "tl END_PATCH_MARKER"] trim_end_markers
  by (simp_all add: markers_def)

lemma plain_environment_line:
  "printable_name e \<Longrightarrow> plain_line (ENVIRONMENT_ID_MARKER @ '' '' @ e)"
  using plain_named [of e "ENVIRONMENT_ID_MARKER @ '' ''"] by (simp add: markers_def)

lemma plain_rendered:
  assumes "list_all printable_hunk hs" "printable_environment env"
  shows "list_all plain_line (render_patch_lines env hs)"
proof -
  have "list_all plain_line (concat (map render_hunk hs))"
    using assms(1) plain_render_hunk by (auto simp: list_all_iff)
  with assms(2) plain_environment_line show ?thesis
    by (cases env) (simp_all add: render_patch_lines_def printable_environment_def plain_markers)
qed

lemma render_patch_text:
  assumes "list_all printable_hunk hs" "printable_environment env"
  shows "lines (trim (render_patch env hs)) = render_patch_lines env hs @ [END_PATCH_MARKER]"
proof -
  let ?ls = "render_patch_lines env hs"
  have ls: "list_all plain_line ?ls" using assms by (rule plain_rendered)
  have rp: "render_patch env hs = unlines ?ls @ END_PATCH_MARKER"
    by (simp add: render_patch_def join_unlines)
  obtain s where s: "render_patch env hs = CHR ''*'' # s"
    by (simp add: rp render_patch_lines_def unlines_def markers_def)
  have "last (unlines ?ls) = nl"
    by (cases ?ls rule: rev_cases) (simp_all add: unlines_def, simp add: render_patch_lines_def)
  then have "trim_end (render_patch env hs) = render_patch env hs"
    unfolding rp using trim_end_markers(3) by (intro trim_end_append) (simp_all add: markers_def)
  then have "trim (render_patch env hs) = render_patch env hs" using s trim_star by simp
  moreover have "lines (render_patch env hs) = ?ls @ [END_PATCH_MARKER]"
    unfolding render_patch_def using ls
    by (intro lines_join) (simp_all add: plain_markers, simp add: markers_def)
  ultimately show ?thesis by simp
qed

lemma parse_rendered:
  assumes "list_all printable_hunk hs" and "printable_environment env"
  shows "parse_patch (render_patch env hs) =
    Ok \<lparr>patch_text = render_patch env hs, patch_hunks = hs, workdir = None,
        patch_environment_id = env\<rparr>"
proof -
  let ?ls = "render_patch_lines env hs"
  obtain n md where run: "settled hs" "process_lines default_parser ?ls = (Ok (), at_line n md hs env)"
    using process_rendered [OF assms] by blast
  have ls: "list_all plain_line ?ls" using assms by (rule plain_rendered)
  let ?p = "at_line n md hs env\<lparr>line_buffer := END_PATCH_MARKER\<rparr>"
  have "push_chars default_parser (join [nl] (?ls @ [END_PATCH_MARKER])) = (Ok (), ?p)"
    using run(2) ls plain_markers(2) push_chars_unlines [of default_parser ?ls]
    by (simp add: join_unlines push_chars_append push_chars_no_newline plain_line_def default_parser_def)
  moreover have "take_line ?p = at_line (Suc n) md hs env"
    by (simp add: at_line_def take_line_def)
  then have "finish_patch ?p = (Ok hs, at_line (Suc n) EndedPatch hs env)"
    using run(1) settled_ensure [of "at_line (Suc n) md hs env"]
    by (simp add: finish_patch_def finish_line_def trim_markers) (simp add: markers_def)
  moreover have "check_patch_boundaries_lenient (lines (trim (render_patch env hs)))
      = Ok (?ls @ [END_PATCH_MARKER])"
    by (simp add: render_patch_text [OF assms] check_patch_boundaries_lenient_def
        check_patch_boundaries_strict_def check_start_and_end_lines_strict_def trim_markers)
      (simp add: render_patch_lines_def trim_markers)
  ultimately show ?thesis
    using parse_patch_eq by (simp add: render_patch_def)
qed

text \<open>
  C7. Every patch the grammar describes is parsed to the hunks it was written from: rendering
  hunks (additions, deletions, updates with moves, context markers and end-of-file markers)
  and an optional environment id as a patch and parsing the text gives back exactly these hunks
  and this id.
\<close>

theorem patch_grammar_roundtrip:
  assumes "list_all printable_hunk hs" and "printable_environment env"
  shows "parse_patch (render_patch env hs) =
    Ok \<lparr>patch_text = render_patch env hs, patch_hunks = hs, workdir = None,
        patch_environment_id = env\<rparr>"
  using assms by (rule parse_rendered)

definition demo_chunk :: update_file_chunk where
  "demo_chunk =
     \<lparr>change_context = Some ''fn main'', old_lines = [''a'', ''b''], new_lines = [''b''],
      is_end_of_file = True\<rparr>"

definition demo_hunks :: "hunk list" where
  "demo_hunks =
     [AddFile ''new.txt'' (''x'' @ [nl, nl]), DeleteFile ''old.txt'',
      UpdateFile ''from.rs'' (Some ''to.rs'') [demo_chunk]]"

lemma demo_printable:
  "list_all printable_hunk demo_hunks" "printable_environment (Some ''remote'')"
  by code_simp+

lemma demo_parsed:
  obtains a where "parse_patch (render_patch None demo_hunks) = Ok a" "length (patch_hunks a) = 3"
  using parse_rendered [OF demo_printable(1), of None]
  by (simp add: printable_environment_def demo_hunks_def)

theorem patch_grammar_roundtrip_witness:
  "list_all printable_hunk demo_hunks \<and> printable_environment (Some ''remote'')
   \<and> parse_patch (render_patch (Some ''remote'') demo_hunks) =
     Ok \<lparr>patch_text = render_patch (Some ''remote'') demo_hunks, patch_hunks = demo_hunks,
         workdir = None, patch_environment_id = Some ''remote''\<rparr>"
  using patch_grammar_roundtrip [OF demo_printable] demo_printable by simp

section \<open>What the parser accepts\<close>

text \<open>
  Hunks as the grammar wants them: names that are not empty and have no whitespace at the end,
  no newline in a name or in a line, no update hunk without a chunk, and no chunk without lines.
\<close>

definition proper_name :: "string \<Rightarrow> bool" where
  "proper_name x = (x \<noteq> [] \<and> trim_end x = x \<and> nl \<notin> set x)"

definition chunk_texts_ok :: "update_file_chunk \<Rightarrow> bool" where
  "chunk_texts_ok c =
     ((case change_context c of None \<Rightarrow> True | Some x \<Rightarrow> proper_name x)
      \<and> (\<forall>l \<in> set (old_lines c) \<union> set (new_lines c). nl \<notin> set l))"

fun wellformed_hunk :: "hunk \<Rightarrow> bool" where
  "wellformed_hunk (AddFile path contents) =
     (proper_name path \<and> (contents = [] \<or> ends_with contents [nl]))"
| "wellformed_hunk (DeleteFile path) = proper_name path"
| "wellformed_hunk (UpdateFile path move_path chunks) =
     (proper_name path
      \<and> (case move_path of None \<Rightarrow> True | Some x \<Rightarrow> proper_name x)
      \<and> chunks \<noteq> [] \<and> list_all (\<lambda>c. chunk_texts_ok c \<and> \<not> chunk_is_blank c) chunks)"

text \<open>The last hunk while its lines arrive: its last chunk may still be blank.\<close>

fun open_hunk :: "hunk \<Rightarrow> bool" where
  "open_hunk (UpdateFile path move_path chunks) =
     (proper_name path
      \<and> (case move_path of None \<Rightarrow> True | Some x \<Rightarrow> proper_name x)
      \<and> list_all chunk_texts_ok chunks
      \<and> list_all (\<lambda>c. \<not> chunk_is_blank c) (butlast chunks))"
| "open_hunk h = wellformed_hunk h"

definition parser_inv :: "streaming_parser \<Rightarrow> bool" where
  "parser_inv p =
     (list_all wellformed_hunk (butlast (hunks_of p))
      \<and> (case last_opt (hunks_of p) of None \<Rightarrow> True | Some h \<Rightarrow> open_hunk h)
      \<and> (settled (hunks_of p) \<or> (\<exists>k. mode_of p = InUpdateFile k)))"

lemma open_settled_wellformed:
  "open_hunk h \<Longrightarrow> settled (hs @ [h]) \<Longrightarrow> wellformed_hunk h"
proof (cases h)
  case (UpdateFile path mv cs)
  assume "open_hunk h" "settled (hs @ [h])"
  with UpdateFile show ?thesis
    by (cases cs rule: rev_cases) (auto simp: list_all_iff)
qed simp_all

lemma parser_inv_settled:
  "parser_inv p \<Longrightarrow> settled (hunks_of p) \<Longrightarrow> list_all wellformed_hunk (hunks_of p)"
  by (cases "hunks_of p" rule: rev_cases)
    (auto simp: parser_inv_def intro: open_settled_wellformed)

lemma ensure_settled:
  assumes "ensure_update_hunk_is_not_empty p l = Ok ()" and "parser_inv p"
  shows "settled (hunks_of p)"
  using assms
  by (auto simp: ensure_update_hunk_is_not_empty_def parser_inv_def settled_def last_satisfies_def
      split: option.splits hunk.splits list.splits if_splits)

lemma proper_name_strip:
  assumes "trim_end l = l" and "nl \<notin> set l" and "l = m @ x" and "suffix [CHR '' ''] m"
  shows "proper_name x"
proof -
  have ws: "\<not> suffix w l" if "w \<in> set unicode_ws" for w
    using assms(1) that by (simp add: trim_end_eq_self)
  have "x \<noteq> []" using ws [of "'' ''"] assms(3,4) by (auto simp: unicode_ws_def)
  moreover have "trim_end x = x"
    using ws assms(3) suffix_appendI [of _ x m] by (auto simp: trim_end_eq_self)
  ultimately show ?thesis using assms(2,3) by (simp add: proper_name_def)
qed

lemma nl_trim_end: "nl \<notin> set l \<Longrightarrow> nl \<notin> set (trim_end l)"
  using set_mono_prefix [OF trim_end_prefix] by blast

lemma handle_plain:
  assumes "\<not> (mode_of p = StartedPatch \<and> starts_with l ENVIRONMENT_ID_MARKER)"
    and "l \<noteq> END_PATCH_MARKER"
  shows "handle_hunk_headers_and_end_patch p l =
    (let header = (\<lambda>q. case ensure_update_hunk_is_not_empty p l of
                          Inl e \<Rightarrow> (Err e, p) | Inr _ \<Rightarrow> (Ok True, q)) in
     case strip_prefix ADD_FILE_MARKER l of
        Some path \<Rightarrow> header (push_hunk (AddFile path []) InAddFile p)
      | None \<Rightarrow> (case strip_prefix DELETE_FILE_MARKER l of
        Some path \<Rightarrow> header (push_hunk (DeleteFile path) InDeleteFile p)
      | None \<Rightarrow> (case strip_prefix UPDATE_FILE_MARKER l of
        Some path \<Rightarrow> header (push_hunk (UpdateFile path None []) (InUpdateFile (line_number p)) p)
      | None \<Rightarrow> (Ok False, p))))"
  unfolding handle_hunk_headers_and_end_patch_def Let_def
    if_not_P [OF assms(1)] if_not_P [OF assms(2)] by (rule refl)

lemma handle_header_cases:
  assumes "handle_hunk_headers_and_end_patch p l = (r, q)"
    and "handle_hunk_headers_and_end_patch p l =
          (case ensure_update_hunk_is_not_empty p l of
             Inl e \<Rightarrow> (Err e, p) | Inr _ \<Rightarrow> (Ok True, q'))"
  obtains "q = p" | "ensure_update_hunk_is_not_empty p l = Ok ()" "q = q'"
  using assms by (cases "ensure_update_hunk_is_not_empty p l") simp_all

definition fresh_hunk :: "hunk \<Rightarrow> parser_mode \<Rightarrow> string \<Rightarrow> bool" where
  "fresh_hunk h md x =
     (h = AddFile x [] \<or> h = DeleteFile x \<or> h = UpdateFile x None [] \<and> (\<exists>k. md = InUpdateFile k))"

lemma handle_plain_cases:
  assumes "\<not> (mode_of p = StartedPatch \<and> starts_with l ENVIRONMENT_ID_MARKER)" "l \<noteq> END_PATCH_MARKER"
  obtains "no_header l"
  | h md m x where "l = m @ x" "suffix '' '' m" "fresh_hunk h md x"
    "handle_hunk_headers_and_end_patch p l =
       (case ensure_update_hunk_is_not_empty p l of
          Inl e \<Rightarrow> (Err e, p) | Inr _ \<Rightarrow> (Ok True, push_hunk h md p))"
proof -
  have m: "suffix '' '' ADD_FILE_MARKER" "suffix '' '' DELETE_FILE_MARKER"
    "suffix '' '' UPDATE_FILE_MARKER"
    by (simp_all add: markers_def suffix_to_prefix)
  consider x where "strip_prefix ADD_FILE_MARKER l = Some x"
    | x where "strip_prefix ADD_FILE_MARKER l = None" "strip_prefix DELETE_FILE_MARKER l = Some x"
    | x where "strip_prefix ADD_FILE_MARKER l = None" "strip_prefix DELETE_FILE_MARKER l = None"
      "strip_prefix UPDATE_FILE_MARKER l = Some x"
    | "no_header l"
    using assms(2) unfolding no_header_def by (metis not_None_eq)
  then show thesis
  proof cases
    case (1 x)
    show thesis
      by (rule that(2) [of ADD_FILE_MARKER x "AddFile x []" InAddFile])
        (use 1 m in \<open>simp_all add: handle_plain [OF assms] strip_prefix_eq_Some [symmetric] fresh_hunk_def\<close>)
  next
    case (2 x)
    show thesis
      by (rule that(2) [of DELETE_FILE_MARKER x "DeleteFile x" InDeleteFile])
        (use 2 m in \<open>simp_all add: handle_plain [OF assms] strip_prefix_eq_Some [symmetric] fresh_hunk_def\<close>)
  next
    case (3 x)
    show thesis
      by (rule that(2) [of UPDATE_FILE_MARKER x "UpdateFile x None []" "InUpdateFile (line_number p)"])
        (use 3 m in \<open>simp_all add: handle_plain [OF assms] strip_prefix_eq_Some [symmetric] fresh_hunk_def\<close>)
  next
    case 4
    then show thesis by (rule that(1))
  qed
qed

lemma handle_cases:
  assumes "handle_hunk_headers_and_end_patch p l = (r, q)"
  obtains (same) "q = p"
  | (environment) e where "q = p\<lparr>pstate := (pstate p)\<lparr>parsed_environment_id := Some e\<rparr>\<rparr>"
  | (ended) "ensure_update_hunk_is_not_empty p l = Ok ()" "q = set_mode EndedPatch p"
  | (header) h md x m where "ensure_update_hunk_is_not_empty p l = Ok ()" "q = push_hunk h md p"
      "l = m @ x" "suffix '' '' m" "fresh_hunk h md x"
proof -
  let ?env = "mode_of p = StartedPatch \<and> starts_with l ENVIRONMENT_ID_MARKER"
  consider ?env | "\<not> ?env" "l = END_PATCH_MARKER" | "\<not> ?env" "l \<noteq> END_PATCH_MARKER" by blast
  then show thesis
  proof cases
    case 1
    then show thesis
      using assms same environment
      by (auto simp: handle_hunk_headers_and_end_patch_def Let_def split: if_splits)
  next
    case 2
    then show thesis
      using assms same ended
      by (auto simp: handle_hunk_headers_and_end_patch_def Let_def split: sum.splits)
  next
    case 3
    then show thesis
    proof (cases rule: handle_plain_cases)
      case 1
      with 3 assms same show thesis
        by (simp add: handle_plain [OF 3] no_header_def)
    next
      case (2 h md m x)
      from assms 2(4) show thesis
        by (rule handle_header_cases) (use same header 2(1-3) in blast)+
    qed
  qed
qed

lemma hunks_of_updates [simp]:
  "hunks_of (set_mode md p) = hunks_of p" "mode_of (set_mode md p) = md"
  "hunks_of (push_hunk h md p) = hunks_of p @ [h]" "mode_of (push_hunk h md p) = md"
  "hunks_of (set_last_hunk h p) = butlast (hunks_of p) @ [h]"
  "mode_of (set_last_hunk h p) = mode_of p"
  "hunks_of (take_line p) = hunks_of p" "mode_of (take_line p) = mode_of p"
  by (simp_all add: set_mode_def push_hunk_def set_last_hunk_def take_line_def)

lemma handle_inv:
  assumes "handle_hunk_headers_and_end_patch p l = (r, q)" "parser_inv p"
    and "nl \<notin> set l" "trim_end l = l"
  shows "parser_inv q"
  using assms(1)
proof (cases rule: handle_cases)
  case ended
  then have "settled (hunks_of p)" using ensure_settled assms(2) by blast
  with ended assms(2) show ?thesis by (simp add: parser_inv_def)
next
  case (header h md x m)
  then have "list_all wellformed_hunk (hunks_of p)"
    using assms(2) ensure_settled parser_inv_settled by blast
  moreover have "proper_name x" using assms(3,4) header by (intro proper_name_strip)
  ultimately show ?thesis
    using header by (auto simp: parser_inv_def fresh_hunk_def)
qed (use assms(2) in \<open>simp_all add: parser_inv_def\<close>)

lemma update_line_step_cases:
  assumes "update_line_step mv cs l = Ok (mv', cs')"
  obtains (same) "mv' = mv" "cs' = cs"
  | (move) x where "cs = []" "mv' = Some x" "cs' = cs" "trim_end l = MOVE_TO_MARKER @ x"
  | (chunk) ctx where "mv' = mv" "\<not> last_satisfies chunk_is_blank cs" "cs' = cs @ [new_chunk ctx]"
      "ctx = None \<or> (\<exists>x. ctx = Some x \<and> trim_end l = CHANGE_CONTEXT_MARKER @ x)"
  | (eof) "mv' = mv" "cs' = map_last (\<lambda>c. c\<lparr>is_end_of_file := True\<rparr>) cs"
  | (added) x f where "mv' = mv" "cs' = in_last_chunk f cs" "set x \<subseteq> set l"
      "f = push_new x \<circ> push_old x \<or> f = push_new x \<or> f = push_old x"
proof -
  let ?u = "trim_end l"
  consider "last_satisfies is_end_of_file cs \<and> ?u = []"
    | "cs = [] \<and> mv = None \<and> starts_with ?u MOVE_TO_MARKER"
    | "\<not> last_satisfies chunk_is_blank cs" "is_context_marker ?u"
    | "\<not> is_context_marker ?u" "\<not> (last_satisfies is_end_of_file cs \<and> ?u = [])"
      "\<not> (cs = [] \<and> mv = None \<and> starts_with ?u MOVE_TO_MARKER)"
    using assms by (auto simp: update_line_step_def Let_def split: if_splits)
  then show thesis
  proof cases
    case 1
    with assms same show thesis by (simp add: update_line_step_def)
  next
    case 2
    with assms move show thesis
      by (auto simp: update_line_step_def Let_def prefix_def)
  next
    case 3
    moreover have "?u \<noteq> []" using 3 by (auto simp: is_context_marker_def markers_def)
    moreover have "\<not> starts_with ?u MOVE_TO_MARKER"
      using 3 by (auto simp: is_context_marker_def markers_def prefix_def)
    ultimately show thesis
      using assms chunk 3
      by (auto simp: update_line_step_def Let_def strip_prefix_eq_Some strip_prefix_eq_None
          is_context_marker_def split: if_splits option.splits)
  next
    case 4
    then have "\<not> last_satisfies is_end_of_file cs" "?u \<noteq> EMPTY_CHANGE_CONTEXT_MARKER"
      "strip_prefix CHANGE_CONTEXT_MARKER ?u = None"
      using assms by (auto simp: update_line_step_def is_context_marker_def strip_prefix_eq_None)
    with 4 assms eof added show thesis
      by (auto simp: update_line_step_def Let_def split: if_splits list.splits)
  qed
qed

lemma chunk_texts_ok_push:
  "chunk_texts_ok c \<Longrightarrow> nl \<notin> set x \<Longrightarrow> chunk_texts_ok (push_old x c) \<and> chunk_texts_ok (push_new x c)"
  by (auto simp: chunk_texts_ok_def push_old_def push_new_def)

lemma open_hunk_map_last:
  assumes "open_hunk (UpdateFile path mv cs)" and "\<And>c. chunk_texts_ok c \<Longrightarrow> chunk_texts_ok (f c)"
  shows "open_hunk (UpdateFile path mv (map_last f cs))"
proof (cases cs rule: rev_cases)
  case Nil
  with assms(1) show ?thesis by simp
next
  case (snoc ds d)
  with assms(1) assms(2) [of d] show ?thesis by simp
qed

lemma open_hunk_in_last_chunk:
  assumes "open_hunk (UpdateFile path mv cs)" and "\<And>c. chunk_texts_ok c \<Longrightarrow> chunk_texts_ok (f c)"
  shows "open_hunk (UpdateFile path mv (in_last_chunk f cs))"
proof (cases "cs = []")
  case True
  have "chunk_texts_ok (f (new_chunk None))"
    by (rule assms(2)) (simp add: chunk_texts_ok_def new_chunk_def)
  with True assms(1) show ?thesis by (simp add: in_last_chunk_def)
next
  case False
  with open_hunk_map_last [OF assms] show ?thesis by (simp add: in_last_chunk_def)
qed

lemma not_blank_all:
  "list_all (\<lambda>c. \<not> chunk_is_blank c) (butlast cs) \<Longrightarrow> \<not> last_satisfies chunk_is_blank cs \<Longrightarrow>
   list_all (\<lambda>c. \<not> chunk_is_blank c) cs"
  by (cases cs rule: rev_cases) simp_all

lemma update_line_step_inv:
  assumes "update_line_step mv cs l = Ok (mv', cs')" "open_hunk (UpdateFile path mv cs)" "nl \<notin> set l"
  shows "open_hunk (UpdateFile path mv' cs')"
  using assms(1)
proof (cases rule: update_line_step_cases)
  case (move x)
  have "proper_name x"
    by (rule proper_name_strip [OF trim_end_idem nl_trim_end [OF assms(3)] move(4)])
      (simp add: markers_def suffix_to_prefix)
  with move assms(2) show ?thesis by simp
next
  case (chunk ctx)
  have "pred_option proper_name ctx"
  proof (cases ctx)
    case (Some x)
    with chunk(4) have "trim_end l = CHANGE_CONTEXT_MARKER @ x" by simp
    then have "proper_name x"
      by (rule proper_name_strip [OF trim_end_idem nl_trim_end [OF assms(3)]])
        (simp add: markers_def suffix_to_prefix)
    with Some show ?thesis by simp
  qed simp
  then have "chunk_texts_ok (new_chunk ctx)"
    by (cases ctx) (simp_all add: chunk_texts_ok_def new_chunk_def)
  with chunk(1-3) assms(2) not_blank_all [of cs] show ?thesis by simp
next
  case eof
  with assms(2) show ?thesis
    using open_hunk_map_last [of path mv cs "\<lambda>c. c\<lparr>is_end_of_file := True\<rparr>"]
    by (simp add: chunk_texts_ok_def del: open_hunk.simps)
next
  case (added x f)
  then have "nl \<notin> set x" using assms(3) by blast
  then have "chunk_texts_ok c \<Longrightarrow> chunk_texts_ok (f c)" for c
    using added(4) chunk_texts_ok_push by auto
  with assms(2) have "open_hunk (UpdateFile path mv (in_last_chunk f cs))"
    by (rule open_hunk_in_last_chunk)
  with added(1,2) show ?thesis by simp
qed (use assms(2) in simp)

lemma set_last_hunk_inv:
  assumes "parser_inv p" "mode_of p = md" "last_opt (hunks_of p) = Some h'" "open_hunk h"
    and "settled (butlast (hunks_of p) @ [h]) \<or> (\<exists>k. md = InUpdateFile k)"
  shows "parser_inv (set_last_hunk h p)"
  using assms by (auto simp: parser_inv_def)

lemma process_line_cases:
  assumes "process_line p l = (r, q)"
  obtains (same) "q = p"
  | (started) "mode_of p = NotStarted" "q = set_mode StartedPatch p"
  | (handled) u r' where "handle_hunk_headers_and_end_patch p u = (r', q)" "u = trim l \<or> u = trim_end l"
  | (added) path c x where "mode_of p = InAddFile" "last_opt (hunks_of p) = Some (AddFile path c)"
      "q = set_last_hunk (AddFile path (c @ x @ [nl])) p"
  | (updated) k path mv cs mv' cs' where "mode_of p = InUpdateFile k"
      "last_opt (hunks_of p) = Some (UpdateFile path mv cs)"
      "update_line_step mv cs l = Ok (mv', cs')" "q = set_last_hunk (UpdateFile path mv' cs') p"
proof -
  obtain rt qt where t: "handle_hunk_headers_and_end_patch p (trim l) = (rt, qt)" by fastforce
  obtain ru qu where u: "handle_hunk_headers_and_end_patch p (trim_end l) = (ru, qu)" by fastforce
  have ht: "q = qt \<Longrightarrow> thesis" and hu: "q = qu \<Longrightarrow> thesis"
    using t u handled by blast+
  show thesis
  proof (cases "mode_of p")
    case NotStarted
    with assms same started show thesis
      by (auto simp: process_line_def Let_def split: if_splits)
  next
    case StartedPatch
    with assms same ht t show thesis
      by (auto simp: process_line_def Let_def split: sum.splits if_splits)
  next
    case InAddFile
    with assms t have "q = qt \<or> (r, q) =
        (case (strip_prefix ''+'' l, last_opt (hunks_of p)) of
           (Some line_to_add, Some (AddFile path contents)) \<Rightarrow>
             (Ok (), set_last_hunk (AddFile path (contents @ line_to_add @ [nl])) p)
         | _ \<Rightarrow> (Err (hunk_error p (not_a_header (trim l))), p))"
      by (cases rt) (simp_all add: process_line_def Let_def split: if_splits)
    then show thesis
      using ht same added [OF InAddFile] by (elim disjE) (simp_all split: option.splits hunk.splits)
  next
    case InDeleteFile
    with assms same ht t show thesis
      by (auto simp: process_line_def Let_def split: sum.splits if_splits)
  next
    case (InUpdateFile k)
    with assms u have "q = qu \<or> (r, q) =
        (case last_opt (hunks_of p) of
           Some (UpdateFile path mv cs) \<Rightarrow>
             (case update_line_step mv cs l of
                Inl msg \<Rightarrow> (Err (hunk_error p msg), p)
              | Inr (mv', cs') \<Rightarrow> (Ok (), set_last_hunk (UpdateFile path mv' cs') p))
         | _ \<Rightarrow> (Err (hunk_error p (unexpected_line l)), p))"
      by (cases ru) (simp_all add: process_line_def Let_def split: if_splits)
    then show thesis
      using hu same updated [OF InUpdateFile]
      by (elim disjE) (simp_all split: option.splits hunk.splits sum.splits prod.splits)
  next
    case EndedPatch
    with assms same show thesis
      by (auto simp: process_line_def Let_def split: if_splits)
  qed
qed

lemma trim_end_trim: "trim_end (trim l) = trim l"
  by (simp add: trim_def)

lemma nl_trim: "nl \<notin> set l \<Longrightarrow> nl \<notin> set (trim l)"
  using set_mono_sublist [OF trim_sublist] by blast

lemma process_line_inv:
  assumes "process_line p l = (r, q)" "parser_inv p" "nl \<notin> set l"
  shows "parser_inv q"
  using assms(1)
proof (cases rule: process_line_cases)
  case (handled u r')
  then have "nl \<notin> set u" "trim_end u = u"
    using nl_trim [OF assms(3)] nl_trim_end [OF assms(3)] by (auto simp: trim_end_trim)
  then show ?thesis using handle_inv [OF handled(1) assms(2)] by blast
next
  case (added path c x)
  then have "proper_name path" using assms(2) by (simp add: parser_inv_def)
  with added assms(2) show ?thesis by (auto simp: parser_inv_def ends_with_single)
next
  case (updated k path mv cs mv' cs')
  then have "open_hunk (UpdateFile path mv' cs')"
    using assms(2,3) update_line_step_inv [OF updated(3), of path] by (simp add: parser_inv_def)
  with updated assms(2) show ?thesis by (simp add: parser_inv_def del: open_hunk.simps)
qed (use assms(2) in \<open>auto simp: parser_inv_def\<close>)

lemma parser_inv_take_line [simp]: "parser_inv (take_line p) = parser_inv p"
  by (simp add: parser_inv_def)

lemma nl_chop_cr: "nl \<notin> set l \<Longrightarrow> nl \<notin> set (chop_cr l)"
  by (auto simp: chop_cr_def strip_suffix_eq_Some split: option.splits)

lemma push_chars_inv:
  assumes "push_chars p s = (r, q)" "parser_inv p" "nl \<notin> set (line_buffer p)"
  shows "parser_inv q \<and> nl \<notin> set (line_buffer q)"
  using assms
proof (induction p s rule: push_chars.induct)
  case (2 p c cs)
  show ?case
  proof (cases "c = nl")
    case True
    obtain r1 q1 where q1: "process_line (take_line p) (chop_cr (line_buffer p)) = (r1, q1)"
      by fastforce
    have "parser_inv q1"
      using process_line_inv [OF q1] nl_chop_cr 2(4,5) by simp
    moreover have "line_buffer q1 = []"
      using line_buffer_process_line [of "take_line p"] q1 by (metis line_buffer_updates(4) snd_conv)
    ultimately show ?thesis
      using 2(1) [OF True q1 [symmetric]] 2(3) True q1 by (cases r1) auto
  next
    case False
    with 2 show ?thesis by (simp add: parser_inv_def)
  qed
qed simp

lemma parse_patchD:
  assumes "parse_patch t = Ok a"
  obtains p q where "push_chars default_parser (patch_text a) = (Ok (), p)"
    "finish_patch p = (Ok (patch_hunks a), q)"
proof -
  obtain ls where ls: "check_patch_boundaries_lenient (lines (trim t)) = Ok ls"
    using assms
    by (auto simp: parse_patch_def parse_patch_text_def PARSE_IN_STRICT_MODE_def bindR_eq_Inr)
  obtain r p where p: "push_chars default_parser (join [nl] ls) = (r, p)" by fastforce
  obtain r' q where q: "finish_patch p = (r', q)" by fastforce
  have "r = Ok () \<and> r' = Ok (patch_hunks a) \<and> patch_text a = join [nl] ls"
    using assms ls p q
    by (cases r; cases r')
      (auto simp: parse_patch_def parse_patch_text_def PARSE_IN_STRICT_MODE_def push_delta_def)
  with p q that show thesis by simp
qed

lemma finish_patchD:
  assumes "finish_patch p = (Ok hs, q)"
  shows "finish_line p = (Ok (), q)" "mode_of q = EndedPatch" "hs = hunks_of q"
  using assms by (auto simp: finish_patch_def split: prod.splits sum.splits if_splits)

lemma finish_line_inv:
  assumes "finish_line p = (r, q)" "parser_inv p" "nl \<notin> set (line_buffer p)"
  shows "parser_inv q"
proof (cases "line_buffer p = [] \<or> trim (line_buffer p) \<noteq> END_PATCH_MARKER")
  case True
  with assms show ?thesis
    using process_line_inv [of "take_line p" "line_buffer p"]
    by (auto simp: finish_line_def split: if_splits)
next
  case False
  then show ?thesis
    using assms ensure_settled [of "take_line p"]
    by (auto simp: finish_line_def parser_inv_def split: sum.splits)
qed

text \<open>
  C38. What the parser accepts is a well-formed patch: in every patch that \<open>parse_patch\<close>
  accepts each path is a non-empty name, added contents are whole lines, each update hunk has a
  chunk, each chunk removes or adds at least one line, and no line contains a line break.
\<close>

theorem parsed_hunks_wellformed:
  assumes "parse_patch t = Ok a"
  shows "list_all wellformed_hunk (patch_hunks a)"
proof -
  obtain p q where p: "push_chars default_parser (patch_text a) = (Ok (), p)"
    and q: "finish_patch p = (Ok (patch_hunks a), q)"
    using parse_patchD [OF assms] by blast
  have "parser_inv default_parser"
    by (simp add: parser_inv_def default_parser_def)
  with p have "parser_inv p" "nl \<notin> set (line_buffer p)"
    using push_chars_inv [OF p] by (simp_all add: default_parser_def)
  then have "parser_inv q" using finish_line_inv [OF finish_patchD(1) [OF q]] by blast
  moreover have "settled (hunks_of q)"
    using \<open>parser_inv q\<close> finish_patchD(2) [OF q] by (simp add: parser_inv_def)
  ultimately show ?thesis
    using parser_inv_settled finish_patchD(3) [OF q] by simp
qed

theorem parsed_hunks_wellformed_witness:
  "\<exists>a. parse_patch (render_patch None demo_hunks) = Ok a
     \<and> list_all wellformed_hunk (patch_hunks a) \<and> length (patch_hunks a) = 3"
proof -
  obtain a where a: "parse_patch (render_patch None demo_hunks) = Ok a" "length (patch_hunks a) = 3"
    by (rule demo_parsed)
  with parsed_hunks_wellformed [OF a(1)] show ?thesis by blast
qed

section \<open>Streaming\<close>

text \<open>The deltas of a stream, with the hunks reported after each.\<close>

fun push_deltas ::
  "streaming_parser \<Rightarrow> string list \<Rightarrow> (parse_error, hunk list list) result \<times> streaming_parser" where
  "push_deltas p [] = (Ok [], p)"
| "push_deltas p (d # ds) =
     (case push_delta p d of
        (Inl e, q) \<Rightarrow> (Err e, q)
      | (Inr hs, q) \<Rightarrow>
          (case push_deltas q ds of
             (Inl e, q') \<Rightarrow> (Err e, q')
           | (Inr rest, q') \<Rightarrow> (Ok (hs # rest), q')))"

definition grows :: "hunk list \<Rightarrow> hunk list \<Rightarrow> bool" where
  "grows hs gs = prefix (butlast hs) (butlast gs)"

lemma grows_refl [simp]: "grows hs hs"
  by (simp add: grows_def)

lemma grows_trans: "grows hs gs \<Longrightarrow> grows gs fs \<Longrightarrow> grows hs fs"
  by (auto simp: grows_def)

lemma process_line_grows: "process_line p l = (r, q) \<Longrightarrow> grows (hunks_of p) (hunks_of q)"
proof (erule process_line_cases)
  fix u r' assume "handle_hunk_headers_and_end_patch p u = (r', q)"
  then show ?thesis
    by (cases rule: handle_cases) (auto simp: grows_def intro: prefix_order.trans [OF prefixeq_butlast])
qed (auto simp: grows_def)

lemma push_chars_grows: "push_chars p s = (r, q) \<Longrightarrow> grows (hunks_of p) (hunks_of q)"
proof (induction p s rule: push_chars.induct)
  case (2 p c cs)
  show ?case
  proof (cases "c = nl")
    case True
    obtain r1 q1 where q1: "process_line (take_line p) (chop_cr (line_buffer p)) = (r1, q1)"
      by fastforce
    with True 2(1) [OF True q1 [symmetric]] 2(3) process_line_grows [OF q1] show ?thesis
      by (cases r1) (auto intro: grows_trans)
  qed (use 2 in simp)
qed simp

lemma push_deltas_concat:
  assumes "push_chars p (concat ds) = (Ok (), q)"
  shows "\<exists>snaps. push_deltas p ds = (Ok snaps, q) \<and> (\<forall>hs \<in> set snaps. grows hs (hunks_of q))"
  using assms
proof (induction ds arbitrary: p)
  case (Cons d ds)
  obtain p1 where p1: "push_chars p d = (Ok (), p1)" "push_chars p1 (concat ds) = (Ok (), q)"
    using Cons.prems by (auto simp: push_chars_append split: prod.splits sum.splits)
  with Cons.IH [OF p1(2)] push_chars_grows [OF p1(2)] show ?case
    by (auto simp: push_delta_def)
qed simp



end
