(* ===== verification/Patch_Apply.thy ===== *)
theory Patch_Apply
  imports Patch_Parser
begin

text \<open>
  Finding and replacing the lines of a patch: \<open>codex/codex-rs/apply-patch/src/seek_sequence.rs\<close>
  and \<open>compute_replacements\<close>, \<open>apply_replacements\<close> and \<open>derive_new_contents_from_chunks\<close> of
  \<open>lib.rs\<close>. The value \<^const>\<open>None\<close> of \<open>apply_replacements\<close> stands for the panic of
  \<open>Vec::insert\<close> at an index out of range.
\<close>

section \<open>Finding lines\<close>

text \<open>
  \<open>normalise\<close> maps code points; on the UTF-8 encoding it replaces the encodings of the code
  points, which no other sequence of the text can overlap.
\<close>

definition punctuation :: "(string \<times> char) list" where
  "punctuation =
     map (\<lambda>b. ([CHR 0xE2, CHR 0x80, b], CHR ''-''))
       [CHR 0x90, CHR 0x91, CHR 0x92, CHR 0x93, CHR 0x94, CHR 0x95]
     @ [([CHR 0xE2, CHR 0x88, CHR 0x92], CHR ''-'')]
     @ map (\<lambda>b. ([CHR 0xE2, CHR 0x80, b], CHR 0x27)) [CHR 0x98, CHR 0x99, CHR 0x9A, CHR 0x9B]
     @ map (\<lambda>b. ([CHR 0xE2, CHR 0x80, b], CHR 0x22)) [CHR 0x9C, CHR 0x9D, CHR 0x9E, CHR 0x9F]
     @ [([CHR 0xC2, CHR 0xA0], CHR '' '')]
     @ map (\<lambda>b. ([CHR 0xE2, CHR 0x80, b], CHR '' ''))
         [CHR 0x82, CHR 0x83, CHR 0x84, CHR 0x85, CHR 0x86, CHR 0x87, CHR 0x88, CHR 0x89, CHR 0x8A]
     @ [([CHR 0xE2, CHR 0x80, CHR 0xAF], CHR '' ''), ([CHR 0xE2, CHR 0x81, CHR 0x9F], CHR '' ''),
        ([CHR 0xE3, CHR 0x80, CHR 0x80], CHR '' '')]"

definition match_punctuation :: "string \<Rightarrow> (char \<times> nat) option" where
  "match_punctuation s =
     find_map (\<lambda>(enc, c). if starts_with s enc then Some (c, length enc) else None) punctuation"

function map_punctuation :: "string \<Rightarrow> string" where
  "map_punctuation [] = []"
| "map_punctuation (c # cs) =
     (case match_punctuation (c # cs) of
        None \<Rightarrow> c # map_punctuation cs
      | Some (r, n) \<Rightarrow> r # map_punctuation (drop (n - 1) cs))"
  by pat_completeness auto
termination
  by (relation "measure length") auto

definition normalise :: "string \<Rightarrow> string" where
  "normalise s = map_punctuation (trim s)"

text \<open>The inner loops: the lines from \<open>i\<close> on agree with the pattern after \<open>f\<close>.\<close>

definition matches_at :: "(string \<Rightarrow> string) \<Rightarrow> string list \<Rightarrow> string list \<Rightarrow> nat \<Rightarrow> bool" where
  "matches_at f ls pattern i =
     list_all (\<lambda>(p_idx, pat). f (ls ! (i + p_idx)) = f pat) (enumerate 0 pattern)"

definition exact_at :: "string list \<Rightarrow> string list \<Rightarrow> nat \<Rightarrow> bool" where
  "exact_at ls pattern i = (take (length pattern) (drop i ls) = pattern)"

definition seek_sequence ::
  "string list \<Rightarrow> string list \<Rightarrow> nat \<Rightarrow> bool \<Rightarrow> nat option" where
  "seek_sequence ls pattern start eof =
     (if pattern = [] then Some start
      else if length pattern > length ls then None
      else
        let search_start = (if eof \<and> length ls \<ge> length pattern then length ls - length pattern else start);
            range = [search_start ..< Suc (length ls - length pattern)]
        in case find (exact_at ls pattern) range of
             Some i \<Rightarrow> Some i
           | None \<Rightarrow> (case find (matches_at trim_end ls pattern) range of
             Some i \<Rightarrow> Some i
           | None \<Rightarrow> (case find (matches_at trim ls pattern) range of
             Some i \<Rightarrow> Some i
           | None \<Rightarrow> find (matches_at normalise ls pattern) range)))"

section \<open>Computing and applying replacements\<close>

text \<open>\<open>std::io::Error\<close>: the kinds the code distinguishes, and the text.\<close>

datatype io_error_kind = NotFound | InvalidInput | OtherKind

record io_error =
  io_kind :: io_error_kind
  io_text :: string

datatype apply_patch_error =
    ParseError parse_error
  | IoError string io_error
  | ComputeReplacements string
  | PathUri string
  | ImplicitInvocation

type_synonym replacement = "nat \<times> nat \<times> string list"

definition insertion_index :: "string list \<Rightarrow> nat" where
  "insertion_index original_lines =
     (if last_satisfies (\<lambda>l. l = []) original_lines then length original_lines - 1
      else length original_lines)"

text \<open>The lines a chunk replaces: the index, the lines looked for and the lines put there.\<close>

definition locate_chunk ::
  "string list \<Rightarrow> update_file_chunk \<Rightarrow> nat \<Rightarrow> (nat \<times> string list \<times> string list) option" where
  "locate_chunk original_lines chunk line_index =
     (let pattern = old_lines chunk; new_slice = new_lines chunk in
      case seek_sequence original_lines pattern line_index (is_end_of_file chunk) of
        Some i \<Rightarrow> Some (i, pattern, new_slice)
      | None \<Rightarrow>
          if last_satisfies (\<lambda>l. l = []) pattern then
            (let pattern' = butlast pattern;
                 new_slice' = (if last_satisfies (\<lambda>l. l = []) new_slice then butlast new_slice
                               else new_slice)
             in map_option (\<lambda>i. (i, pattern', new_slice'))
                  (seek_sequence original_lines pattern' line_index (is_end_of_file chunk)))
          else None)"

definition seek_context ::
  "string list \<Rightarrow> string \<Rightarrow> update_file_chunk \<Rightarrow> nat \<Rightarrow> (apply_patch_error, nat) result" where
  "seek_context original_lines path chunk line_index =
     (case change_context chunk of
        None \<Rightarrow> Ok line_index
      | Some ctx_line \<Rightarrow>
          (case seek_sequence original_lines [ctx_line] line_index False of
             Some idx \<Rightarrow> Ok (idx + 1)
           | None \<Rightarrow> Err (ComputeReplacements
               (''Failed to find context '' @ [CHR 0x27] @ ctx_line @ [CHR 0x27] @ '' in '' @ path))))"

fun collect_replacements ::
  "string list \<Rightarrow> string \<Rightarrow> nat \<Rightarrow> update_file_chunk list
   \<Rightarrow> (apply_patch_error, replacement list) result" where
  "collect_replacements original_lines path line_index [] = Ok []"
| "collect_replacements original_lines path line_index (chunk # chunks) =
     bindR (seek_context original_lines path chunk line_index) (\<lambda>line_index.
     if old_lines chunk = [] then
       bindR (collect_replacements original_lines path line_index chunks) (\<lambda>rest.
       Ok ((insertion_index original_lines, 0, new_lines chunk) # rest))
     else
       (case locate_chunk original_lines chunk line_index of
          None \<Rightarrow> Err (ComputeReplacements
            (''Failed to find expected lines in '' @ path @ '':'' @ [nl] @ join [nl] (old_lines chunk)))
        | Some (start_idx, pattern, new_slice) \<Rightarrow>
            bindR (collect_replacements original_lines path (start_idx + length pattern) chunks)
              (\<lambda>rest. Ok ((start_idx, length pattern, new_slice) # rest))))"

definition compute_replacements ::
  "string list \<Rightarrow> string \<Rightarrow> update_file_chunk list \<Rightarrow> (apply_patch_error, replacement list) result" where
  "compute_replacements original_lines path chunks =
     bindR (collect_replacements original_lines path 0 chunks) (\<lambda>replacements.
     Ok (sort_key fst replacements))"

fun remove_lines :: "nat \<Rightarrow> nat \<Rightarrow> string list \<Rightarrow> string list" where
  "remove_lines start_idx 0 ls = ls"
| "remove_lines start_idx (Suc n) ls =
     remove_lines start_idx n
       (if start_idx < length ls then take start_idx ls @ drop (Suc start_idx) ls else ls)"

fun insert_lines :: "nat \<Rightarrow> string list \<Rightarrow> string list \<Rightarrow> string list option" where
  "insert_lines i [] ls = Some ls"
| "insert_lines i (x # xs) ls =
     (if i \<le> length ls then insert_lines (Suc i) xs (take i ls @ x # drop i ls) else None)"

fun replace_from_last :: "replacement list \<Rightarrow> string list \<Rightarrow> string list option" where
  "replace_from_last [] ls = Some ls"
| "replace_from_last ((start_idx, old_len, new_segment) # rs) ls =
     Option.bind (insert_lines start_idx new_segment (remove_lines start_idx old_len ls))
       (replace_from_last rs)"

definition apply_replacements :: "string list \<Rightarrow> replacement list \<Rightarrow> string list option" where
  "apply_replacements ls replacements = replace_from_last (rev replacements) ls"

definition original_lines_of :: "string \<Rightarrow> string list" where
  "original_lines_of contents =
     (let ls = split_char nl contents in if last_satisfies (\<lambda>l. l = []) ls then butlast ls else ls)"

definition close_lines :: "string list \<Rightarrow> string list" where
  "close_lines ls = (if last_satisfies (\<lambda>l. l = []) ls then ls else ls @ [[]])"

text \<open>The new contents of a file: \<^const>\<open>None\<close> if the program panics.\<close>

definition new_contents_of ::
  "string \<Rightarrow> update_file_chunk list \<Rightarrow> string \<Rightarrow> (apply_patch_error, string) result option" where
  "new_contents_of path_text chunks original_contents =
     (let original_lines = original_lines_of original_contents in
      case compute_replacements original_lines path_text chunks of
        Inl e \<Rightarrow> Some (Err e)
      | Inr replacements \<Rightarrow>
          map_option (\<lambda>new_lines. Ok (join [nl] (close_lines new_lines)))
            (apply_replacements original_lines replacements))"

section \<open>The search\<close>

lemma matches_at_iff:
  "matches_at f ls pat i \<longleftrightarrow> (\<forall>k < length pat. f (ls ! (i + k)) = f (pat ! k))"
  by (auto simp: matches_at_def list_all_iff in_set_enumerate_eq)

lemma exact_at_iff:
  assumes "i + length pat \<le> length ls"
  shows "exact_at ls pat i \<longleftrightarrow> matches_at id ls pat i"
proof -
  have "take (length pat) (drop i ls) = pat \<longleftrightarrow> (\<forall>k < length pat. ls ! (i + k) = pat ! k)"
    using assms list_eq_iff_nth_eq [of "take (length pat) (drop i ls)" pat] by simp
  then show ?thesis by (simp add: exact_at_def matches_at_iff)
qed

text \<open>The comparisons, from strict to lenient.\<close>

definition comparisons :: "(string \<Rightarrow> string) list" where
  "comparisons = [id, trim_end, trim, normalise]"

definition in_search :: "string list \<Rightarrow> string list \<Rightarrow> nat \<Rightarrow> bool \<Rightarrow> nat \<Rightarrow> bool" where
  "in_search ls pat start eof i =
     ((if eof then i = length ls - length pat else start \<le> i) \<and> i + length pat \<le> length ls)"

lemma find_upt:
  "find P [a ..< b] = Some i \<longleftrightarrow> a \<le> i \<and> i < b \<and> P i \<and> (\<forall>j. a \<le> j \<and> j < i \<longrightarrow> \<not> P j)"
  "find P [a ..< b] = None \<longleftrightarrow> (\<forall>j. a \<le> j \<and> j < b \<longrightarrow> \<not> P j)"
proof -
  show "find P [a ..< b] = None \<longleftrightarrow> (\<forall>j. a \<le> j \<and> j < b \<longrightarrow> \<not> P j)"
    by (auto simp: find_None_iff)
  show "find P [a ..< b] = Some i \<longleftrightarrow> a \<le> i \<and> i < b \<and> P i \<and> (\<forall>j. a \<le> j \<and> j < i \<longrightarrow> \<not> P j)"
  proof
    assume "find P [a ..< b] = Some i"
    then obtain k where "k < length [a ..< b]" "P ([a ..< b] ! k)" "i = [a ..< b] ! k"
      "\<And>j. j < k \<Longrightarrow> \<not> P ([a ..< b] ! j)"
      by (auto simp: find_Some_iff)
    then show "a \<le> i \<and> i < b \<and> P i \<and> (\<forall>j. a \<le> j \<and> j < i \<longrightarrow> \<not> P j)"
      by (auto dest: spec [of _ "j - a" for j])
         (metis add_diff_inverse_nat less_diff_conv2 linorder_not_less nat_add_left_cancel_less nth_upt)
  next
    assume "a \<le> i \<and> i < b \<and> P i \<and> (\<forall>j. a \<le> j \<and> j < i \<longrightarrow> \<not> P j)"
    then show "find P [a ..< b] = Some i"
      by (auto simp: find_Some_iff intro!: exI [of _ "i - a"])
  qed
qed

definition best_match ::
  "(string \<Rightarrow> string) list \<Rightarrow> string list \<Rightarrow> string list \<Rightarrow> (nat \<Rightarrow> bool) \<Rightarrow> nat \<Rightarrow> bool" where
  "best_match fs ls pat R i \<longleftrightarrow>
     (\<exists>stricter f rest. fs = stricter @ f # rest
        \<and> R i \<and> matches_at f ls pat i
        \<and> (\<forall>j < i. R j \<longrightarrow> \<not> matches_at f ls pat j)
        \<and> (\<forall>g \<in> set stricter. \<forall>j. R j \<longrightarrow> \<not> matches_at g ls pat j))"

text \<open>The passes of the search, one after the other.\<close>

fun passes :: "(string \<Rightarrow> string) list \<Rightarrow> string list \<Rightarrow> string list \<Rightarrow> nat list \<Rightarrow> nat option" where
  "passes [] ls pat is = None"
| "passes (f # fs) ls pat is =
     (case find (matches_at f ls pat) is of Some i \<Rightarrow> Some i | None \<Rightarrow> passes fs ls pat is)"

lemma passes_spec:
  "passes fs ls pat [a ..< b] = Some i \<Longrightarrow> best_match fs ls pat (\<lambda>j. a \<le> j \<and> j < b) i"
  "passes fs ls pat [a ..< b] = None \<longleftrightarrow> (\<forall>f \<in> set fs. \<forall>j. a \<le> j \<and> j < b \<longrightarrow> \<not> matches_at f ls pat j)"
proof (induction fs)
  case (Cons f fs)
  {
    case 1
    show ?case
    proof (cases "find (matches_at f ls pat) [a ..< b]")
      case None
      with 1 Cons.IH(1) obtain st g rest where "fs = st @ g # rest" "a \<le> i \<and> i < b"
        "matches_at g ls pat i" "\<forall>j < i. a \<le> j \<and> j < b \<longrightarrow> \<not> matches_at g ls pat j"
        "\<forall>h \<in> set st. \<forall>j. a \<le> j \<and> j < b \<longrightarrow> \<not> matches_at h ls pat j"
        by (auto simp: best_match_def)
      moreover have "\<forall>j. a \<le> j \<and> j < b \<longrightarrow> \<not> matches_at f ls pat j"
        using None by (simp add: find_upt)
      ultimately show ?thesis
        unfolding best_match_def by (intro exI [of _ "f # st"] exI [of _ g] exI [of _ rest]) simp
    next
      case (Some j)
      with 1 show ?thesis
        unfolding best_match_def
        by (intro exI [of _ "[]"] exI [of _ f] exI [of _ fs]) (simp add: find_upt)
    qed
  next
    case 2
    show ?case
      using Cons.IH(2) find_upt(2) [of "matches_at f ls pat" a b]
      by (auto split: option.split)
  }
qed simp_all

lemma seek_sequence_passes:
  assumes "pat \<noteq> []" "length pat \<le> length ls"
  shows "seek_sequence ls pat start eof =
    passes comparisons ls pat
      [(if eof then length ls - length pat else start) ..< Suc (length ls - length pat)]"
proof -
  let ?is = "[(if eof then length ls - length pat else start) ..< Suc (length ls - length pat)]"
  have "find (exact_at ls pat) ?is = find (matches_at id ls pat) ?is"
    using assms(2) by (intro find_cong refl exact_at_iff) auto
  with assms show ?thesis
    by (simp add: seek_sequence_def comparisons_def Let_def split: option.split)
qed

lemma seek_sequence_bound:
  assumes "seek_sequence ls pat start eof = Some i" "start \<le> length ls"
  shows "i + length pat \<le> length ls"
proof (cases "pat = []")
  case False
  then have "length pat \<le> length ls" using assms(1) by (auto simp: seek_sequence_def split: if_splits)
  with False show ?thesis
    using assms(1) passes_spec(1) [of comparisons ls pat] seek_sequence_passes [OF False]
    by (fastforce simp: best_match_def simp del: upt_Suc)
qed (use assms in \<open>simp add: seek_sequence_def\<close>)

lemma seek_sequence_spec:
  assumes "pat \<noteq> []"
  shows "case seek_sequence ls pat start eof of
      Some i \<Rightarrow> best_match comparisons ls pat (in_search ls pat start eof) i
    | None \<Rightarrow> \<forall>f \<in> set comparisons. \<forall>j. in_search ls pat start eof j \<longrightarrow> \<not> matches_at f ls pat j"
proof (cases "length pat \<le> length ls")
  case True
  define a b where "a = (if eof then length ls - length pat else start)"
    and "b = Suc (length ls - length pat)"
  have R: "in_search ls pat start eof = (\<lambda>j. a \<le> j \<and> j < b)"
    using True by (auto simp: in_search_def fun_eq_iff a_def b_def)
  have S: "seek_sequence ls pat start eof = passes comparisons ls pat [a ..< b]"
    unfolding a_def b_def by (rule seek_sequence_passes [OF assms True])
  show ?thesis
    unfolding R S using passes_spec [of comparisons ls pat a b] by (simp split: option.split)
next
  case False
  with assms show ?thesis by (simp add: seek_sequence_def in_search_def)
qed

text \<open>
  C23. The search for lines is exact, complete and prefers strict matches: a result lies in the
  part of the file that is searched (from the start index on, or only the end of the file), the
  lines there match with the strictest of the four comparisons that matches anywhere in that
  part, and it is the first place where that comparison matches; there is no result only if
  no comparison matches anywhere in that part.
\<close>

theorem seek_sequence_correct:
  assumes "pat \<noteq> []"
  shows "case seek_sequence ls pat start eof of
      Some i \<Rightarrow> best_match comparisons ls pat (in_search ls pat start eof) i
    | None \<Rightarrow> \<forall>f \<in> set comparisons. \<forall>j. in_search ls pat start eof j \<longrightarrow> \<not> matches_at f ls pat j"
  using assms by (rule seek_sequence_spec)

theorem seek_sequence_correct_witness:
  "['' b''] \<noteq> []
   \<and> seek_sequence [''a'', ''b '', ''  b'', '' b''] ['' b''] 1 False = Some 3
   \<and> best_match comparisons [''a'', ''b '', ''  b'', '' b''] ['' b'']
       (in_search [''a'', ''b '', ''  b'', '' b''] ['' b''] 1 False) 3"
proof -
  have "seek_sequence [''a'', ''b '', ''  b'', '' b''] ['' b''] 1 False = Some 3" by code_simp
  with seek_sequence_correct [of "['' b'']" "[''a'', ''b '', ''  b'', '' b'']" 1 False]
  show ?thesis by simp
qed

section \<open>Replacing\<close>

lemma remove_lines_eq: "remove_lines i n ls = take i ls @ drop (i + n) ls"
proof (induction i n ls rule: remove_lines.induct)
  case (2 i n ls)
  show ?case
  proof (cases "i < length ls")
    case True
    with 2 show ?thesis by (simp add: min_def add.commute)
  qed (use 2 in simp)
qed simp

lemma insert_lines_eq:
  "i \<le> length ls \<Longrightarrow> insert_lines i xs ls = Some (take i ls @ xs @ drop i ls)"
proof (induction xs arbitrary: i ls)
  case (Cons x xs)
  then show ?case
    using Cons.IH [of "Suc i" "take i ls @ x # drop i ls"] by (simp add: min_def)
qed simp

lemma replace_one:
  assumes "i \<le> length ls"
  shows "insert_lines i xs (remove_lines i n ls) = Some (take i ls @ xs @ drop (i + n) ls)"
  using assms by (simp add: remove_lines_eq insert_lines_eq)

lemma replace_from_last_total:
  "sorted_wrt (\<lambda>r r'. fst r' \<le> fst r) rs \<Longrightarrow> \<forall>r \<in> set rs. fst r \<le> length ls \<Longrightarrow>
   \<exists>ls'. replace_from_last rs ls = Some ls'"
proof (induction rs arbitrary: ls)
  case (Cons r rs)
  obtain i n xs where r: "r = (i, n, xs)" by (cases r)
  have "\<exists>ls'. replace_from_last rs (take i ls @ xs @ drop (i + n) ls) = Some ls'"
    using Cons.prems r by (intro Cons.IH) auto
  with Cons.prems r show ?case by (simp add: replace_one)
qed simp

lemma sort_key_descending: "sorted_wrt (\<lambda>r r'. fst r' \<le> fst r) (rev (sort_key fst (rs :: replacement list)))"
  using sorted_sort_key [of fst rs] by (simp add: sorted_wrt_rev sorted_map)

lemma locate_chunkD:
  assumes "locate_chunk ls c k = Some (i, pat, new)"
  shows "seek_sequence ls pat k (is_end_of_file c) = Some i"
    and "pat = old_lines c \<and> new = new_lines c \<or>
      old_lines c = pat @ [[]] \<and>
      new = (if last_satisfies (\<lambda>l. l = []) (new_lines c) then butlast (new_lines c) else new_lines c)"
proof -
  have "last_satisfies (\<lambda>l. l = []) (old_lines c) \<Longrightarrow> old_lines c = butlast (old_lines c) @ [[]]"
    by (cases "old_lines c" rule: rev_cases) auto
  then show "seek_sequence ls pat k (is_end_of_file c) = Some i"
    and "pat = old_lines c \<and> new = new_lines c \<or>
      old_lines c = pat @ [[]] \<and>
      new = (if last_satisfies (\<lambda>l. l = []) (new_lines c) then butlast (new_lines c) else new_lines c)"
    using assms by (auto simp: locate_chunk_def Let_def split: option.splits if_splits)
qed

lemma seek_context_bound:
  assumes "seek_context ls path c k = Ok k'" "k \<le> length ls"
  shows "k' \<le> length ls"
  using assms seek_sequence_bound [of ls "[_]" k False]
  by (fastforce simp: seek_context_def split: option.splits)

lemma insertion_index_le: "insertion_index ls \<le> length ls"
  by (simp add: insertion_index_def)

lemma collect_ConsE:
  assumes "collect_replacements ls path k (c # cs) = Ok rs"
  obtains k' rest where "old_lines c = []" "seek_context ls path c k = Ok k'"
      "collect_replacements ls path k' cs = Ok rest" "rs = (insertion_index ls, 0, new_lines c) # rest"
  | k' i pat new rest where "old_lines c \<noteq> []" "seek_context ls path c k = Ok k'"
      "locate_chunk ls c k' = Some (i, pat, new)"
      "collect_replacements ls path (i + length pat) cs = Ok rest" "rs = (i, length pat, new) # rest"
proof -
  obtain k' where k': "seek_context ls path c k = Ok k'"
    using assms by (auto simp: bindR_eq_Inr)
  show thesis
  proof (cases "old_lines c = []")
    case True
    with assms k' that(1) show thesis by (auto simp: bindR_eq_Inr)
  next
    case False
    with assms k' obtain i pat new where "locate_chunk ls c k' = Some (i, pat, new)"
      by (auto split: option.splits)
    with False assms k' that(2) show thesis by (auto simp: bindR_eq_Inr)
  qed
qed

lemma collect_bounds:
  "collect_replacements ls path k cs = Ok rs \<Longrightarrow> k \<le> length ls \<Longrightarrow> \<forall>r \<in> set rs. fst r \<le> length ls"
proof (induction cs arbitrary: k rs)
  case (Cons c cs)
  from Cons.prems(1) show ?case
  proof (cases rule: collect_ConsE)
    case (1 k' rest)
    with Cons.IH [of k' rest] Cons.prems(2) seek_context_bound insertion_index_le show ?thesis
      by auto
  next
    case (2 k' i pat new rest)
    then have "i + length pat \<le> length ls"
      using locate_chunkD(1) seek_sequence_bound seek_context_bound Cons.prems(2) by blast
    with Cons.IH [of "i + length pat" rest] 2 show ?thesis by auto
  qed
qed simp

lemma new_contents_total: "new_contents_of path_text chunks original_contents \<noteq> None"
proof (cases "compute_replacements (original_lines_of original_contents) path_text chunks")
  case (Inr rs)
  let ?ls = "original_lines_of original_contents"
  obtain rs' where "collect_replacements ?ls path_text 0 chunks = Ok rs'" "rs = sort_key fst rs'"
    using Inr by (auto simp: compute_replacements_def bindR_eq_Inr)
  then have "\<exists>ls'. replace_from_last (rev rs) ?ls = Some ls'"
    using collect_bounds [of ?ls path_text 0 chunks rs'] sort_key_descending
    by (intro replace_from_last_total) auto
  with Inr show ?thesis by (auto simp: new_contents_of_def apply_replacements_def)
qed (simp add: new_contents_of_def)


section \<open>What an update does to the lines\<close>

text \<open>
  The contract of an update: the chunks stand for disjoint regions of the file in the order of
  the patch, each region matches the lines the chunk removes and is replaced by the lines it
  adds, and the context line of the chunk is found before the region. A chunk whose last
  removed line is empty may stand for the region without that line.
\<close>

definition lines_match :: "string list \<Rightarrow> string list \<Rightarrow> bool" where
  "lines_match old pat = list_ex (\<lambda>f. map f old = map f pat) comparisons"

definition chunk_edit :: "update_file_chunk \<Rightarrow> string list \<Rightarrow> string list \<Rightarrow> bool" where
  "chunk_edit c old new =
     (lines_match old (old_lines c) \<and> new = new_lines c
      \<or> last_satisfies (\<lambda>l. l = []) (old_lines c) \<and> lines_match old (butlast (old_lines c))
        \<and> new = (if last_satisfies (\<lambda>l. l = []) (new_lines c) then butlast (new_lines c) else new_lines c))"

definition context_before :: "update_file_chunk \<Rightarrow> string list \<Rightarrow> bool" where
  "context_before c pre =
     (case change_context c of None \<Rightarrow> True | Some ctx \<Rightarrow> list_ex (\<lambda>l. lines_match [l] [ctx]) pre)"

inductive updated :: "update_file_chunk list \<Rightarrow> string list \<Rightarrow> string list \<Rightarrow> bool" where
  none: "updated [] ls ls"
| region: "context_before c pre \<Longrightarrow> chunk_edit c old new \<Longrightarrow> updated cs rest rest' \<Longrightarrow>
    updated (c # cs) (pre @ old @ rest) (pre @ new @ rest')"

inductive_cases updated_NilE: "updated [] ls ls'"
inductive_cases updated_ConsE: "updated (c # cs) ls ls'"

fun ordered_from :: "nat \<Rightarrow> replacement list \<Rightarrow> bool" where
  "ordered_from k [] = True"
| "ordered_from k ((i, n, new) # rs) = (k \<le> i \<and> ordered_from (i + n) rs)"

fun splice :: "nat \<Rightarrow> replacement list \<Rightarrow> string list \<Rightarrow> string list" where
  "splice k [] ls = drop k ls"
| "splice k ((i, n, new) # rs) ls = drop k (take i ls) @ new @ splice (i + n) rs ls"

lemma ordered_from_ge: "ordered_from k rs \<Longrightarrow> r \<in> set rs \<Longrightarrow> k \<le> fst r"
  by (induction k rs rule: ordered_from.induct) force+

lemma ordered_sort_key: "ordered_from k rs \<Longrightarrow> sort_key fst rs = rs"
proof (induction k rs rule: ordered_from.induct)
  case (2 k i n new rs)
  then have "insort_key fst (i, n, new) rs = (i, n, new) # rs"
    using ordered_from_ge [of "i + n" rs] by (intro insort_is_Cons) fastforce
  with 2 show ?case by simp
qed simp

lemma replace_from_last_append:
  "replace_from_last (rs @ rs') ls = Option.bind (replace_from_last rs ls) (replace_from_last rs')"
  by (induction rs ls rule: replace_from_last.induct) (simp_all split: Option.bind_split)

lemma replace_splice:
  "ordered_from k rs \<Longrightarrow> \<forall>(i, n, new) \<in> set rs. i + n \<le> length ls \<Longrightarrow> k \<le> length ls \<Longrightarrow>
   replace_from_last (rev rs) ls = Some (take k ls @ splice k rs ls)"
proof (induction k rs ls rule: splice.induct)
  case (2 k i n new rs ls)
  then have i: "k \<le> i" "i \<le> length ls"
    and run: "replace_from_last (rev rs) ls = Some (take (i + n) ls @ splice (i + n) rs ls)"
    by simp_all
  have len: "length (take (i + n) ls) = i + n" using 2(3) by simp
  have "take i ls = take k ls @ drop k (take i ls)"
    using i(1) by (metis append_take_drop_id min.absorb1 take_take)
  with len i 2(3) show ?case
    by (simp add: replace_from_last_append run replace_one)
qed simp

lemma best_match_lines:
  assumes "best_match comparisons ls pat R i" "i + length pat \<le> length ls"
  shows "lines_match (take (length pat) (drop i ls)) pat"
proof -
  obtain stricter f rest where eq: "comparisons = stricter @ f # rest" and m: "matches_at f ls pat i"
    using assms(1) unfolding best_match_def by blast
  have f: "f \<in> set comparisons" "matches_at f ls pat i"
    using m by (simp_all add: eq)
  have "map f (take (length pat) (drop i ls)) = map f pat"
    using f(2) assms(2) by (intro nth_equalityI) (auto simp: matches_at_iff)
  with f(1) show ?thesis by (auto simp: lines_match_def list_ex_iff)
qed

lemma seek_sequenceD:
  assumes "seek_sequence ls pat k False = Some i" "k \<le> length ls"
  shows "k \<le> i \<and> i + length pat \<le> length ls \<and> lines_match (take (length pat) (drop i ls)) pat"
proof (cases "pat = []")
  case True
  with assms show ?thesis
    by (simp add: seek_sequence_def lines_match_def comparisons_def)
next
  case False
  have b: "i + length pat \<le> length ls" using seek_sequence_bound [OF assms] .
  have m: "best_match comparisons ls pat (in_search ls pat k False) i"
    using seek_sequence_spec [OF False, of ls k False] assms(1) by simp
  then have "in_search ls pat k False i" unfolding best_match_def by blast
  then show ?thesis
    using b best_match_lines [OF m b] by (simp add: in_search_def)
qed

lemma seek_contextD:
  assumes "seek_context ls path c k = Ok k'" "k \<le> length ls"
  shows "k \<le> k' \<and> k' \<le> length ls \<and> context_before c (drop k (take k' ls))"
proof (cases "change_context c")
  case None
  with assms show ?thesis by (simp add: seek_context_def context_before_def)
next
  case (Some ctx)
  then obtain i where i: "seek_sequence ls [ctx] k False = Some i" "k' = Suc i"
    using assms(1) by (auto simp: seek_context_def split: option.splits)
  then have "k \<le> i" "i < length ls" "lines_match (take 1 (drop i ls)) [ctx]"
    using seek_sequenceD [OF i(1) assms(2)] by auto
  then have "lines_match [ls ! i] [ctx]" "ls ! i \<in> set (drop k (take k' ls))"
    using i(2) by (auto simp: take_Suc_conv_app_nth hd_drop_conv_nth [symmetric] take_Suc)
  with \<open>k \<le> i\<close> \<open>i < length ls\<close> i(2) Some show ?thesis
    by (auto simp: context_before_def list_ex_iff)
qed

lemma locate_chunk_edit:
  assumes "locate_chunk ls c k = Some (i, pat, new)" "\<not> is_end_of_file c" "k \<le> length ls"
  shows "k \<le> i \<and> i + length pat \<le> length ls \<and> chunk_edit c (take (length pat) (drop i ls)) new"
proof -
  have "seek_sequence ls pat k False = Some i" using locate_chunkD(1) [OF assms(1)] assms(2) by simp
  then show ?thesis
    using seek_sequenceD [of ls pat k i] assms(3) locate_chunkD(2) [OF assms(1)]
    by (auto simp: chunk_edit_def)
qed

lemma context_before_mono: "context_before c pre \<Longrightarrow> set pre \<subseteq> set pre' \<Longrightarrow> context_before c pre'"
  by (auto simp: context_before_def list_ex_iff split: option.splits)

lemma split_region:
  assumes "k \<le> i" "i \<le> length ls"
  shows "drop k ls = drop k (take i ls) @ take n (drop i ls) @ drop (i + n) ls"
proof -
  have "drop k ls = drop k (take i ls @ drop i ls)" by simp
  also have "\<dots> = drop k (take i ls) @ drop i ls" using assms by (simp del: append_take_drop_id)
  also have "drop i ls = take n (drop i ls) @ drop (i + n) ls"
    by (metis append_take_drop_id drop_drop add.commute)
  finally show ?thesis by simp
qed

lemma drop_take_subset:
  assumes "k' \<le> i"
  shows "set (drop k (take k' ls)) \<subseteq> set (drop k (take i ls))"
proof -
  have "drop k (take k' ls) = take (k' - k) (drop k (take i ls))"
    using assms by (simp add: drop_take min_def)
  then show ?thesis by (metis set_take_subset)
qed

lemma collect_updated:
  assumes "collect_replacements ls path k cs = Ok rs" "k \<le> length ls"
    and "\<forall>c \<in> set cs. old_lines c \<noteq> [] \<and> \<not> is_end_of_file c"
  shows "ordered_from k rs \<and> (\<forall>(i, n, new) \<in> set rs. i + n \<le> length ls)
    \<and> updated cs (drop k ls) (splice k rs ls)"
  using assms
proof (induction cs arbitrary: k rs)
  case Nil
  then show ?case by (simp add: updated.none)
next
  case (Cons c cs)
  obtain k' i pat new rest where step: "seek_context ls path c k = Ok k'"
    "locate_chunk ls c k' = Some (i, pat, new)"
    "collect_replacements ls path (i + length pat) cs = Ok rest" "rs = (i, length pat, new) # rest"
    using Cons.prems(1) by (rule collect_ConsE) (use Cons.prems(3) in auto)
  have k': "k \<le> k'" "k' \<le> length ls" "context_before c (drop k (take k' ls))"
    using seek_contextD [OF step(1) Cons.prems(2)] by blast+
  have i: "k' \<le> i" "i + length pat \<le> length ls" "chunk_edit c (take (length pat) (drop i ls)) new"
    using locate_chunk_edit [OF step(2)] Cons.prems(3) k'(2) by auto
  have IH: "ordered_from (i + length pat) rest" "\<forall>(i, n, new) \<in> set rest. i + n \<le> length ls"
    "updated cs (drop (i + length pat) ls) (splice (i + length pat) rest ls)"
    using Cons.IH [OF step(3) i(2)] Cons.prems(3) by auto
  have "context_before c (drop k (take i ls))"
    using context_before_mono [OF k'(3) drop_take_subset [OF i(1)]] .
  moreover have "drop k ls = drop k (take i ls) @ take (length pat) (drop i ls) @ drop (i + length pat) ls"
    using k'(1) i(1,2) by (intro split_region) simp_all
  ultimately have "updated (c # cs) (drop k ls) (splice k rs ls)"
    using updated.region [OF _ i(3) IH(3)] step(4) by simp
  with step(4) IH(1,2) k'(1) i(1,2) show ?case by simp
qed


definition demo_update :: "update_file_chunk list" where
  "demo_update =
     [\<lparr>change_context = Some ''b'', old_lines = [''x''], new_lines = [''y'', ''z''], is_end_of_file = False\<rparr>,
      \<lparr>change_context = None, old_lines = [''d '', []], new_lines = [[]], is_end_of_file = False\<rparr>]"

definition demo_file :: string where
  "demo_file = join [nl] [''x'', ''b'', ''x'', ''c'', ''d'', []]"

lemma demo_update_result:
  "new_contents_of ''f'' demo_update demo_file
   = Some (Ok (join [nl] [''x'', ''b'', ''y'', ''z'', ''c'', []]))"
  by code_simp


section \<open>Patches that must apply\<close>

text \<open>The removed lines and the context lines of the chunks occur in the file, in this order.\<close>

inductive occurs :: "update_file_chunk list \<Rightarrow> string list \<Rightarrow> bool" where
  none: "occurs [] ls"
| region: "old_lines c \<noteq> [] \<Longrightarrow> \<not> is_end_of_file c \<Longrightarrow>
    (\<And>ctx. change_context c = Some ctx \<Longrightarrow> ctx \<in> set pre) \<Longrightarrow> occurs cs rest \<Longrightarrow>
    occurs (c # cs) (pre @ old_lines c @ rest)"

inductive_cases occurs_ConsE: "occurs (c # cs) ls"

lemma seek_finds_exact:
  assumes "pat \<noteq> []" "take (length pat) (drop j ls) = pat" "k \<le> j" "j + length pat \<le> length ls"
  obtains i where "seek_sequence ls pat k False = Some i" "i \<le> j"
proof -
  have m: "matches_at id ls pat j" using assms(2,4) exact_at_iff by (auto simp: exact_at_def)
  have j: "in_search ls pat k False j" using assms(3,4) by (simp add: in_search_def)
  have id: "id \<in> set comparisons" by (simp add: comparisons_def)
  show thesis
  proof (cases "seek_sequence ls pat k False")
    case None
    with seek_sequence_spec [OF assms(1), of ls k False] m j id show thesis by auto
  next
    case (Some i)
    with seek_sequence_spec [OF assms(1), of ls k False]
    obtain st f rest where st: "comparisons = st @ f # rest" "matches_at f ls pat i"
      "\<forall>j < i. in_search ls pat k False j \<longrightarrow> \<not> matches_at f ls pat j"
      "\<forall>g \<in> set st. \<forall>j. in_search ls pat k False j \<longrightarrow> \<not> matches_at g ls pat j"
      by (auto simp: best_match_def)
    have "st = []" using st(1,4) m j by (cases st) (auto simp: comparisons_def)
    then have "f = id" using st(1) by (simp add: comparisons_def)
    then have "i \<le> j" using st(3) m j by (meson not_le)
    with Some that show thesis by blast
  qed
qed

lemma seek_context_finds:
  assumes "drop m ls = pre @ rest" "k \<le> m" "m \<le> length ls"
    and "\<And>ctx. change_context c = Some ctx \<Longrightarrow> ctx \<in> set pre"
  obtains k' where "seek_context ls path c k = Ok k'" "k' \<le> m + length pre"
proof (cases "change_context c")
  case None
  with that [of k] assms(2) show thesis by (simp add: seek_context_def)
next
  case (Some ctx)
  then obtain p where p: "p < length pre" "pre ! p = ctx"
    using assms(4) by (metis in_set_conv_nth)
  have len: "length ls = m + length pre + length rest"
    using assms(1,3) by (metis length_append length_drop le_add_diff_inverse add.assoc)
  have "ls ! (m + p) = ctx"
    using assms(1,3) p by (metis nth_append nth_drop)
  then have "take (length [ctx]) (drop (m + p) ls) = [ctx]"
    using p len by (simp add: take_Suc hd_drop_conv_nth)
  then obtain i where "seek_sequence ls [ctx] k False = Some i" "i \<le> m + p"
    using seek_finds_exact [of "[ctx]" "m + p" ls k] assms(2) p len by auto
  with Some p that [of "i + 1"] show thesis by (simp add: seek_context_def)
qed

lemma collect_succeeds:
  "occurs cs (drop m ls) \<Longrightarrow> k \<le> m \<Longrightarrow> m \<le> length ls \<Longrightarrow>
   \<exists>rs. collect_replacements ls path k cs = Ok rs"
proof (induction cs arbitrary: k m)
  case (Cons c cs)
  from Cons.prems(1) obtain pre rest where o: "drop m ls = pre @ old_lines c @ rest"
    "old_lines c \<noteq> []" "\<not> is_end_of_file c" "\<And>ctx. change_context c = Some ctx \<Longrightarrow> ctx \<in> set pre"
    "occurs cs rest"
    by (rule occurs_ConsE) blast
  obtain k' where k': "seek_context ls path c k = Ok k'" "k' \<le> m + length pre"
    using seek_context_finds [OF o(1) Cons.prems(2,3) o(4)] by blast
  let ?j = "m + length pre" and ?n = "length (old_lines c)"
  have d: "drop ?j ls = old_lines c @ rest"
    using o(1) by (metis append_eq_conv_conj drop_drop add.commute)
  have len: "?j + ?n \<le> length ls"
    using o(1) Cons.prems(3) by (metis add.assoc add_le_cancel_left le_add1 le_add_diff_inverse
        length_append length_drop)
  have "take ?n (drop ?j ls) = old_lines c" using d by simp
  then obtain i where i: "seek_sequence ls (old_lines c) k' False = Some i" "i \<le> ?j"
    using seek_finds_exact [OF o(2) _ k'(2) len] by blast
  then have "locate_chunk ls c k' = Some (i, old_lines c, new_lines c)"
    using o(3) by (simp add: locate_chunk_def)
  moreover have "drop (?j + ?n) ls = rest" using d by (metis append_eq_conv_conj drop_drop add.commute)
  then obtain rs where "collect_replacements ls path (i + ?n) cs = Ok rs"
    using Cons.IH [of "?j + ?n" "i + ?n"] o(5) i(2) len by auto
  ultimately show ?case using k'(1) o(2) by simp
qed simp



section \<open>Edits that are lost\<close>

text \<open>
  Replacements are applied from the last index to the first, each at the index it has in the
  original file, which is right only if they do not overlap. Two kinds of chunks can overlap
  another one: a pure addition goes before a final empty line even if that line is being
  replaced, and an end-of-file chunk is matched at the end of the file even if an earlier
  chunk has been matched there. The later edit is then removed again, without an error.
\<close>

lemma pure_addition_lost:
  "new_contents_of ''f''
     [\<lparr>change_context = None, old_lines = [''a'', []], new_lines = [''b'', []], is_end_of_file = False\<rparr>,
      \<lparr>change_context = None, old_lines = [], new_lines = [''c''], is_end_of_file = False\<rparr>]
     (''a'' @ [nl, nl])
   = Some (Ok (''b'' @ [nl, nl]))"
  by code_simp

lemma end_of_file_edit_lost:
  "new_contents_of ''f''
     [\<lparr>change_context = None, old_lines = [''a'', ''b''], new_lines = [''A'', ''b''], is_end_of_file = False\<rparr>,
      \<lparr>change_context = None, old_lines = [''b''], new_lines = [''B''], is_end_of_file = True\<rparr>]
     (''a'' @ [nl] @ ''b'' @ [nl])
   = Some (Ok (''A'' @ [nl] @ ''b'' @ [nl]))"
  by code_simp

end
