(* ===== verification/Patch_Files.thy ===== *)
theory Patch_Files
  imports Patch_Apply
begin

text \<open>
  Applying the hunks of a patch to files: \<open>apply_hunks_to_files\<close> and its helpers in
  \<open>codex/codex-rs/apply-patch/src/lib.rs\<close>.

  The file system is the object \<open>dyn ExecutorFileSystem\<close> the code is given. It is a record of
  operations on an abstract state; reading leaves the state alone. Resolving a path against
  the working directory, its parent and its native spelling (\<open>PathUri\<close>) are fields of the
  same record. Output goes to buffers, for which writing does not fail.
\<close>

section \<open>The environment\<close>

type_synonym uri = string

record file_metadata =
  md_is_directory :: bool
  md_is_file :: bool
  md_is_symlink :: bool

record 'st patch_env =
  fs_read_file_text :: "uri \<Rightarrow> 'st \<Rightarrow> (io_error, string) result"
  fs_get_metadata :: "uri \<Rightarrow> 'st \<Rightarrow> (io_error, file_metadata) result"
  fs_write_file :: "uri \<Rightarrow> string \<Rightarrow> 'st \<Rightarrow> (io_error, unit) result \<times> 'st"
  fs_create_directory :: "uri \<Rightarrow> 'st \<Rightarrow> (io_error, unit) result \<times> 'st"
  fs_remove :: "uri \<Rightarrow> 'st \<Rightarrow> (io_error, unit) result \<times> 'st"
  cwd_join :: "string \<Rightarrow> (string, uri) result"
  uri_parent :: "uri \<Rightarrow> uri option"
  native_path_string :: "uri \<Rightarrow> string"

text \<open>
  \<open>anyhow::Error\<close>: a message, an \<open>io::Error\<close> with the context put on it, or one of the
  library's errors. \<open>Panicked\<close> is no error value: the program would have panicked.
\<close>

datatype anyhow_error =
    Bail string
  | WithContext string io_error
  | ApplyError apply_patch_error
  | PathError string
  | Panicked

section \<open>The delta\<close>

datatype applied_patch_file_change =
    Added string "string option"
  | Deleted string
  | Updated "uri option" string "string option" string

record applied_patch_change =
  change_path :: uri
  file_change :: applied_patch_file_change

record applied_patch_delta =
  delta_changes :: "applied_patch_change list"
  delta_exact :: bool

definition empty_delta :: applied_patch_delta where
  "empty_delta = \<lparr>delta_changes = [], delta_exact = True\<rparr>"

definition append_delta :: "applied_patch_delta \<Rightarrow> applied_patch_delta \<Rightarrow> applied_patch_delta" where
  "append_delta d other =
     \<lparr>delta_changes = delta_changes d @ delta_changes other,
      delta_exact = (delta_exact d \<and> delta_exact other)\<rparr>"

text \<open>A run of the patch: the delta so far and the file system.\<close>

type_synonym 'st run = "applied_patch_delta \<times> 'st"

definition and_exact :: "bool \<Rightarrow> applied_patch_delta \<Rightarrow> applied_patch_delta" where
  "and_exact b d = d\<lparr>delta_exact := delta_exact d \<and> b\<rparr>"

definition push_change ::
  "uri \<Rightarrow> applied_patch_file_change \<Rightarrow> applied_patch_delta \<Rightarrow> applied_patch_delta" where
  "push_change path ch d =
     d\<lparr>delta_changes := delta_changes d @ [\<lparr>change_path = path, file_change = ch\<rparr>]\<rparr>"

section \<open>Helpers\<close>

definition ensure_not_directory :: "'st patch_env \<Rightarrow> uri \<Rightarrow> 'st \<Rightarrow> (io_error, unit) result" where
  "ensure_not_directory env path st =
     bindR (fs_get_metadata env path st) (\<lambda>metadata.
     if md_is_directory metadata
     then Err \<lparr>io_kind = InvalidInput, io_text = ''path is a directory''\<rparr>
     else Ok ())"

definition remove_failure_was_side_effect_free ::
  "'st patch_env \<Rightarrow> uri \<Rightarrow> string option \<Rightarrow> 'st \<Rightarrow> bool" where
  "remove_failure_was_side_effect_free env path expected_content st =
     (case expected_content of
        Some expected \<Rightarrow>
          (case fs_read_file_text env path st of Inr content \<Rightarrow> content = expected | Inl _ \<Rightarrow> False)
      | None \<Rightarrow> False)"

text \<open>Whether the delta stays exact when this path is touched.\<close>

definition note_existing_path_delta_support :: "'st patch_env \<Rightarrow> uri \<Rightarrow> 'st \<Rightarrow> bool" where
  "note_existing_path_delta_support env path st =
     (case fs_get_metadata env path st of
        Inr metadata \<Rightarrow> md_is_file metadata \<and> \<not> md_is_symlink metadata
      | Inl source \<Rightarrow> io_kind source = NotFound)"

definition read_optional_file_text_for_delta ::
  "'st patch_env \<Rightarrow> uri \<Rightarrow> 'st \<Rightarrow> string option \<times> bool" where
  "read_optional_file_text_for_delta env path st =
     (let noted = note_existing_path_delta_support env path st in
      case fs_read_file_text env path st of
        Inr content \<Rightarrow> (Some content, noted)
      | Inl source \<Rightarrow> if io_kind source = NotFound then (None, noted) else (None, False))"

definition write_file_with_missing_parent_retry ::
  "'st patch_env \<Rightarrow> uri \<Rightarrow> string \<Rightarrow> 'st \<Rightarrow> (anyhow_error, unit) result \<times> 'st" where
  "write_file_with_missing_parent_retry env path contents st =
     (let failed = (\<lambda>err. Err (WithContext (''Failed to write file '' @ native_path_string env path) err))
      in case fs_write_file env path contents st of
           (Inr _, st1) \<Rightarrow> (Ok (), st1)
         | (Inl err, st1) \<Rightarrow>
             if io_kind err = NotFound then
               (case (case uri_parent env path of
                        Some parent \<Rightarrow> fs_create_directory env parent st1
                      | None \<Rightarrow> (Ok (), st1)) of
                  (Inl e, st2) \<Rightarrow>
                    (Err (WithContext
                       (''Failed to create parent directories for '' @ native_path_string env path) e), st2)
                | (Inr _, st2) \<Rightarrow>
                    (case fs_write_file env path contents st2 of
                       (Inl e, st3) \<Rightarrow> (failed e, st3)
                     | (Inr _, st3) \<Rightarrow> (Ok (), st3)))
             else (failed err, st1))"

definition derive_new_contents_from_chunks ::
  "'st patch_env \<Rightarrow> uri \<Rightarrow> update_file_chunk list \<Rightarrow> 'st \<Rightarrow> (anyhow_error, string \<times> string) result" where
  "derive_new_contents_from_chunks env path chunks st =
     (case fs_read_file_text env path st of
        Inl err \<Rightarrow>
          Err (ApplyError (IoError (''Failed to read file to update '' @ native_path_string env path) err))
      | Inr original_contents \<Rightarrow>
          (case new_contents_of (native_path_string env path) chunks original_contents of
             None \<Rightarrow> Err Panicked
           | Some (Inl e) \<Rightarrow> Err (ApplyError e)
           | Some (Inr new_contents) \<Rightarrow> Ok (original_contents, new_contents)))"

text \<open>Removing a file, after the check that it is not a directory.\<close>

definition remove_file ::
  "'st patch_env \<Rightarrow> string \<Rightarrow> uri \<Rightarrow> string option \<Rightarrow> 'st run \<Rightarrow> (anyhow_error, unit) result \<times> 'st run" where
  "remove_file env action path expected_content = (\<lambda>(d, st).
     let context = action @ native_path_string env path in
     case ensure_not_directory env path st of
       Inl e \<Rightarrow> (Err (WithContext context e), d, st)
     | Inr _ \<Rightarrow>
         (case fs_remove env path st of
            (Inl e, st1) \<Rightarrow>
              (Err (WithContext context e),
               and_exact (remove_failure_was_side_effect_free env path expected_content st1) d, st1)
          | (Inr _, st1) \<Rightarrow> (Ok (), d, st1)))"

section \<open>The hunks\<close>

definition apply_add ::
  "'st patch_env \<Rightarrow> uri \<Rightarrow> string \<Rightarrow> 'st run \<Rightarrow> (anyhow_error, unit) result \<times> 'st run" where
  "apply_add env path contents = (\<lambda>(d, st).
     let (overwritten_content, exact) = read_optional_file_text_for_delta env path st;
         d = and_exact exact d
     in case write_file_with_missing_parent_retry env path contents st of
          (Inl e, st1) \<Rightarrow> (Err e, and_exact False d, st1)
        | (Inr _, st1) \<Rightarrow> (Ok (), push_change path (Added contents overwritten_content) d, st1))"

definition apply_delete ::
  "'st patch_env \<Rightarrow> uri \<Rightarrow> 'st run \<Rightarrow> (anyhow_error, unit) result \<times> 'st run" where
  "apply_delete env path = (\<lambda>(d, st).
     let d = and_exact (note_existing_path_delta_support env path st) d;
         deleted_content = (case fs_read_file_text env path st of Inr c \<Rightarrow> Some c | Inl _ \<Rightarrow> None);
         d = and_exact (deleted_content \<noteq> None) d
     in case remove_file env ''Failed to delete file '' path deleted_content (d, st) of
          (Inl e, d, st1) \<Rightarrow> (Err e, d, st1)
        | (Inr _, d, st1) \<Rightarrow>
            (Ok (), (case deleted_content of
                       Some content \<Rightarrow> push_change path (Deleted content) d | None \<Rightarrow> d), st1))"

definition apply_move ::
  "'st patch_env \<Rightarrow> uri \<Rightarrow> uri \<Rightarrow> string \<Rightarrow> string \<Rightarrow> 'st run \<Rightarrow> (anyhow_error, unit) result \<times> 'st run" where
  "apply_move env path dest original_contents new_contents = (\<lambda>(d, st).
     let (overwritten_move_content, exact) = read_optional_file_text_for_delta env dest st;
         d = and_exact exact d
     in case write_file_with_missing_parent_retry env dest new_contents st of
          (Inl e, st1) \<Rightarrow> (Err e, and_exact False d, st1)
        | (Inr _, st1) \<Rightarrow>
            let dest_write_change_index = length (delta_changes d);
                d = push_change dest (Added new_contents overwritten_move_content) d
            in case remove_file env ''Failed to remove original '' path (Some original_contents) (d, st1) of
                 (Inl e, d, st2) \<Rightarrow> (Err e, d, st2)
               | (Inr _, d, st2) \<Rightarrow>
                   (Ok (), d\<lparr>delta_changes := (delta_changes d)[dest_write_change_index :=
                      \<lparr>change_path = path,
                       file_change = Updated (Some dest) original_contents overwritten_move_content
                                       new_contents\<rparr>]\<rparr>, st2))"

definition apply_update ::
  "'st patch_env \<Rightarrow> uri \<Rightarrow> string option \<Rightarrow> update_file_chunk list \<Rightarrow> 'st run
   \<Rightarrow> (anyhow_error, unit) result \<times> 'st run" where
  "apply_update env path move_path chunks = (\<lambda>(d, st).
     let d = and_exact (note_existing_path_delta_support env path st) d in
     case derive_new_contents_from_chunks env path chunks st of
       Inl e \<Rightarrow> (Err e, d, st)
     | Inr (original_contents, new_contents) \<Rightarrow>
         (case move_path of
            Some dest \<Rightarrow>
              (case cwd_join env dest of
                 Inl e \<Rightarrow> (Err (PathError e), d, st)
               | Inr dest_uri \<Rightarrow> apply_move env path dest_uri original_contents new_contents (d, st))
          | None \<Rightarrow>
              (case fs_write_file env path new_contents st of
                 (Inl e, st1) \<Rightarrow>
                   (Err (WithContext (''Failed to write file '' @ native_path_string env path) e),
                    and_exact False d, st1)
               | (Inr _, st1) \<Rightarrow>
                   (Ok (), push_change path (Updated None original_contents None new_contents) d, st1))))"

text \<open>\<open>Hunk::resolve_path\<close>: the path of the file a hunk starts from.\<close>

fun source_path :: "hunk \<Rightarrow> string" where
  "source_path (UpdateFile path move_path chunks) = path"
| "source_path h = hunk_path h"

definition resolve_path :: "'st patch_env \<Rightarrow> hunk \<Rightarrow> (string, uri) result" where
  "resolve_path env h = cwd_join env (source_path h)"

definition apply_hunk :: "'st patch_env \<Rightarrow> hunk \<Rightarrow> 'st run \<Rightarrow> (anyhow_error, unit) result \<times> 'st run" where
  "apply_hunk env h r =
     (case resolve_path env h of
        Inl e \<Rightarrow> (Err (PathError e), r)
      | Inr path \<Rightarrow>
          (case h of
             AddFile _ contents \<Rightarrow> apply_add env path contents r
           | DeleteFile _ \<Rightarrow> apply_delete env path r
           | UpdateFile _ move_path chunks \<Rightarrow> apply_update env path move_path chunks r))"

record affected_paths =
  added_paths :: "string list"
  modified_paths :: "string list"
  deleted_paths :: "string list"

fun note_affected :: "hunk \<Rightarrow> affected_paths \<Rightarrow> affected_paths" where
  "note_affected (AddFile p c) a = a\<lparr>added_paths := added_paths a @ [hunk_path (AddFile p c)]\<rparr>"
| "note_affected (DeleteFile p) a = a\<lparr>deleted_paths := deleted_paths a @ [hunk_path (DeleteFile p)]\<rparr>"
| "note_affected (UpdateFile p mv cs) a =
     a\<lparr>modified_paths := modified_paths a @ [hunk_path (UpdateFile p mv cs)]\<rparr>"

fun apply_each ::
  "'st patch_env \<Rightarrow> hunk list \<Rightarrow> affected_paths \<Rightarrow> 'st run
   \<Rightarrow> (anyhow_error, affected_paths) result \<times> 'st run" where
  "apply_each env [] a r = (Ok a, r)"
| "apply_each env (h # hs) a r =
     (case apply_hunk env h r of
        (Inl e, r1) \<Rightarrow> (Err e, r1)
      | (Inr _, r1) \<Rightarrow> apply_each env hs (note_affected h a) r1)"

definition apply_hunks_to_files ::
  "'st patch_env \<Rightarrow> hunk list \<Rightarrow> 'st run \<Rightarrow> (anyhow_error, affected_paths) result \<times> 'st run" where
  "apply_hunks_to_files env hs r =
     (if hs = [] then (Err (Bail ''No files were modified.''), r)
      else apply_each env hs \<lparr>added_paths = [], modified_paths = [], deleted_paths = []\<rparr> r)"

section \<open>Whole patches\<close>

definition writeln :: "string \<Rightarrow> string \<Rightarrow> string" where
  "writeln line out = out @ line @ [nl]"

definition print_summary :: "affected_paths \<Rightarrow> string \<Rightarrow> string" where
  "print_summary a out =
     fold (\<lambda>p. writeln (''D '' @ p)) (deleted_paths a)
       (fold (\<lambda>p. writeln (''M '' @ p)) (modified_paths a)
         (fold (\<lambda>p. writeln (''A '' @ p)) (added_paths a)
           (writeln ''Success. Updated the following files:'' out)))"

fun display_parse_error :: "parse_error \<Rightarrow> string" where
  "display_parse_error (InvalidPatchError message) = ''invalid patch: '' @ message"
| "display_parse_error (InvalidHunkError message n) =
     ''invalid hunk at line '' @ display_usize n @ '', '' @ message"

fun display_apply_error :: "apply_patch_error \<Rightarrow> string" where
  "display_apply_error (ParseError e) = display_parse_error e"
| "display_apply_error (IoError context source) = context @ '': '' @ io_text source"
| "display_apply_error (ComputeReplacements message) = message"
| "display_apply_error (PathUri message) = message"
| "display_apply_error ImplicitInvocation =
     ''patch detected without explicit call to apply_patch. Rerun as ['' @ [CHR 0x22] @ ''apply_patch'' @
     [CHR 0x22] @ '', '' @ [CHR 0x22] @ ''<patch>'' @ [CHR 0x22] @ '']''"

fun display_anyhow :: "anyhow_error \<Rightarrow> string" where
  "display_anyhow (Bail message) = message"
| "display_anyhow (WithContext context source) = context"
| "display_anyhow (ApplyError e) = display_apply_error e"
| "display_anyhow (PathError message) = message"
| "display_anyhow Panicked = []"

text \<open>\<open>downcast_ref\<close> finds the \<open>io::Error\<close> under a context.\<close>

fun to_apply_patch_error :: "anyhow_error \<Rightarrow> apply_patch_error" where
  "to_apply_patch_error (WithContext context source) = IoError ''I/O error'' source"
| "to_apply_patch_error e =
     IoError (display_anyhow e) \<lparr>io_kind = OtherKind, io_text = display_anyhow e\<rparr>"

record 'st patch_outcome =
  outcome :: "(apply_patch_error, unit) result"
  outcome_delta :: applied_patch_delta
  out_stdout :: string
  out_stderr :: string
  outcome_fs :: 'st

definition apply_hunks :: "'st patch_env \<Rightarrow> hunk list \<Rightarrow> 'st \<Rightarrow> 'st patch_outcome" where
  "apply_hunks env hs st =
     (case apply_hunks_to_files env hs (empty_delta, st) of
        (Inr affected, d, st1) \<Rightarrow>
          \<lparr>outcome = Ok (), outcome_delta = d, out_stdout = print_summary affected [],
           out_stderr = [], outcome_fs = st1\<rparr>
      | (Inl e, d, st1) \<Rightarrow>
          \<lparr>outcome = Err (to_apply_patch_error e), outcome_delta = d, out_stdout = [],
           out_stderr = writeln (display_anyhow e) [], outcome_fs = st1\<rparr>)"

fun report_parse_error :: "parse_error \<Rightarrow> string" where
  "report_parse_error (InvalidPatchError message) = ''Invalid patch: '' @ message"
| "report_parse_error (InvalidHunkError message n) =
     ''Invalid patch hunk on line '' @ display_usize n @ '': '' @ message"

definition apply_patch :: "'st patch_env \<Rightarrow> string \<Rightarrow> 'st \<Rightarrow> 'st patch_outcome" where
  "apply_patch env patch st =
     (case parse_patch patch of
        Inl e \<Rightarrow>
          \<lparr>outcome = Err (ParseError e), outcome_delta = empty_delta, out_stdout = [],
           out_stderr = writeln (report_parse_error e) [], outcome_fs = st\<rparr>
      | Inr args \<Rightarrow> apply_hunks env (patch_hunks args) st)"

section \<open>What the file system promises\<close>

text \<open>
  The text of the files of a state, and the laws of the operations over it: a file that is read
  has the text that is returned, a missing file has none, a write or a removal that succeeds
  has its effect and no other, a write that fails touches at most the file it is about, a
  removal that fails leaves that file as it was or gone and touches no other, and making
  directories touches no file.
\<close>

definition lawful_fs :: "'st patch_env \<Rightarrow> ('st \<Rightarrow> uri \<Rightarrow> string option) \<Rightarrow> bool" where
  "lawful_fs env files \<longleftrightarrow>
     (\<forall>p st c. fs_read_file_text env p st = Ok c \<longrightarrow> files st p = Some c)
     \<and> (\<forall>p st e. fs_read_file_text env p st = Err e \<longrightarrow> io_kind e = NotFound \<longrightarrow> files st p = None)
     \<and> (\<forall>p c st u st'. fs_write_file env p c st = (Ok u, st') \<longrightarrow> files st' = (files st)(p \<mapsto> c))
     \<and> (\<forall>p c st e st'. fs_write_file env p c st = (Err e, st') \<longrightarrow> (\<forall>q. q \<noteq> p \<longrightarrow> files st' q = files st q))
     \<and> (\<forall>p st r st'. fs_create_directory env p st = (r, st') \<longrightarrow> files st' = files st)
     \<and> (\<forall>p st u st'. fs_remove env p st = (Ok u, st') \<longrightarrow> files st' = (files st)(p := None))
     \<and> (\<forall>p st e st'. fs_remove env p st = (Err e, st') \<longrightarrow>
            (\<forall>q. files st' q = files st q \<or> q = p \<and> files st' q = None))"

lemma lawful_fsD:
  assumes "lawful_fs env files"
  shows "fs_read_file_text env p st = Ok c \<Longrightarrow> files st p = Some c"
    and "fs_read_file_text env p st = Err e \<Longrightarrow> io_kind e = NotFound \<Longrightarrow> files st p = None"
    and "fs_write_file env p c st = (Ok u, st') \<Longrightarrow> files st' = (files st)(p \<mapsto> c)"
    and "fs_write_file env p c st = (Err e, st') \<Longrightarrow> q \<noteq> p \<Longrightarrow> files st' q = files st q"
    and "fs_create_directory env p st = (r, st') \<Longrightarrow> files st' = files st"
    and "fs_remove env p st = (Ok u, st') \<Longrightarrow> files st' = (files st)(p := None)"
    and "fs_remove env p st = (Err e, st') \<Longrightarrow>
      files st' q = files st q \<or> q = p \<and> files st' q = None"
  by (insert assms [unfolded lawful_fs_def]; elim conjE; metis)+

lemma write_retry_files:
  assumes "lawful_fs env files"
    and "write_file_with_missing_parent_retry env p c st = (Ok u, st')"
  shows "files st' = (files st)(p \<mapsto> c)"
proof (cases "fs_write_file env p c st")
  case (Pair r st1)
  show ?thesis
  proof (cases r)
    case (Inr v)
    with Pair assms lawful_fsD(3) [OF assms(1)] show ?thesis
      by (auto simp: write_file_with_missing_parent_retry_def)
  next
    case (Inl e)
    define mk where "mk = (case uri_parent env p of
      Some parent \<Rightarrow> fs_create_directory env parent st1 | None \<Rightarrow> (Ok (), st1))"
    obtain r2 st2 where mk2: "mk = (r2, st2)" by fastforce
    have st2: "files st2 = files st1"
      using mk2 lawful_fsD(5) [OF assms(1)] by (auto simp: mk_def split: option.splits)
    obtain r3 st3 where w: "fs_write_file env p c st2 = (r3, st3)" by fastforce
    have "r3 = Ok () \<and> st' = st3"
      using assms(2) Pair Inl mk2 w
      by (cases r2; cases r3) (auto simp: write_file_with_missing_parent_retry_def Let_def
          mk_def [symmetric] split: if_splits)
    with w have "files st' = (files st2)(p \<mapsto> c)" using lawful_fsD(3) [OF assms(1)] by simp
    moreover have "files st1 q = files st q" if "q \<noteq> p" for q
      using Pair Inl lawful_fsD(4) [OF assms(1)] that by blast
    ultimately show ?thesis using st2 by (auto simp: fun_eq_iff)
  qed
qed

section \<open>The delta describes what happened\<close>

fun replay_change :: "applied_patch_change \<Rightarrow> (uri \<rightharpoonup> string) \<Rightarrow> (uri \<rightharpoonup> string)" where
  "replay_change \<lparr>change_path = p, file_change = Added new overwritten\<rparr> m = m(p \<mapsto> new)"
| "replay_change \<lparr>change_path = p, file_change = Deleted old\<rparr> m = m(p := None)"
| "replay_change \<lparr>change_path = p, file_change = Updated None old overwritten new\<rparr> m = m(p \<mapsto> new)"
| "replay_change \<lparr>change_path = p, file_change = Updated (Some dest) old overwritten new\<rparr> m =
     (m(dest \<mapsto> new))(p := None)"

fun revert_change :: "applied_patch_change \<Rightarrow> (uri \<rightharpoonup> string) \<Rightarrow> (uri \<rightharpoonup> string)" where
  "revert_change \<lparr>change_path = p, file_change = Added new overwritten\<rparr> m = m(p := overwritten)"
| "revert_change \<lparr>change_path = p, file_change = Deleted old\<rparr> m = m(p \<mapsto> old)"
| "revert_change \<lparr>change_path = p, file_change = Updated None old overwritten new\<rparr> m = m(p \<mapsto> old)"
| "revert_change \<lparr>change_path = p, file_change = Updated (Some dest) old overwritten new\<rparr> m =
     (m(dest := overwritten))(p \<mapsto> old)"

definition replay :: "applied_patch_change list \<Rightarrow> (uri \<rightharpoonup> string) \<Rightarrow> (uri \<rightharpoonup> string)" where
  "replay cs m = fold replay_change cs m"

definition revert :: "applied_patch_change list \<Rightarrow> (uri \<rightharpoonup> string) \<Rightarrow> (uri \<rightharpoonup> string)" where
  "revert cs m = foldr revert_change cs m"

text \<open>A run from one delta and files to others, with the changes in between.\<close>

definition traced ::
  "applied_patch_delta \<Rightarrow> (uri \<rightharpoonup> string) \<Rightarrow> applied_patch_delta \<Rightarrow> (uri \<rightharpoonup> string) \<Rightarrow> bool" where
  "traced d m d' m' \<longleftrightarrow>
     (\<exists>cs. delta_changes d' = delta_changes d @ cs
        \<and> (delta_exact d' \<longrightarrow> delta_exact d \<and> m' = replay cs m \<and> m = revert cs m'))"

lemma replay_append: "replay (cs @ cs') m = replay cs' (replay cs m)"
  by (simp add: replay_def)

lemma revert_append: "revert (cs @ cs') m = revert cs (revert cs' m)"
  by (simp add: revert_def)

lemma traced_trans:
  assumes "traced d m d' m'" "traced d' m' d'' m''"
  shows "traced d m d'' m''"
proof -
  obtain cs where cs: "delta_changes d' = delta_changes d @ cs"
    "delta_exact d' \<longrightarrow> delta_exact d \<and> m' = replay cs m \<and> m = revert cs m'"
    using assms(1) unfolding traced_def by blast
  obtain cs' where cs': "delta_changes d'' = delta_changes d' @ cs'"
    "delta_exact d'' \<longrightarrow> delta_exact d' \<and> m'' = replay cs' m' \<and> m' = revert cs' m''"
    using assms(2) unfolding traced_def by blast
  have "delta_changes d'' = delta_changes d @ (cs @ cs')" using cs(1) cs'(1) by simp
  moreover have "delta_exact d \<and> m'' = replay (cs @ cs') m \<and> m = revert (cs @ cs') m''"
    if "delta_exact d''"
  proof -
    have "delta_exact d'" "m'' = replay cs' m'" "m' = revert cs' m''" using cs'(2) that by blast+
    moreover from this(1) have "delta_exact d" "m' = replay cs m" "m = revert cs m'"
      using cs(2) by blast+
    ultimately show ?thesis by (metis replay_append revert_append)
  qed
  ultimately show ?thesis unfolding traced_def by blast
qed

lemma traced_refl [simp]: "traced d m d m"
  by (auto simp: traced_def replay_def revert_def)

lemma traced_and_exact: "(delta_exact d \<Longrightarrow> b \<Longrightarrow> m' = m) \<Longrightarrow> traced d m (and_exact b d) m'"
  by (auto simp: traced_def and_exact_def replay_def revert_def intro!: exI [of _ "[]"])

lemma traced_change:
  assumes "delta_exact d \<Longrightarrow> m' = replay_change \<lparr>change_path = p, file_change = ch\<rparr> m"
    and "delta_exact d \<Longrightarrow> m = revert_change \<lparr>change_path = p, file_change = ch\<rparr> m'"
  shows "traced d m (push_change p ch d) m'"
  unfolding traced_def
proof (intro exI conjI impI)
  let ?cs = "[\<lparr>change_path = p, file_change = ch\<rparr>]"
  show "delta_changes (push_change p ch d) = delta_changes d @ ?cs"
    by (simp add: push_change_def)
  assume "delta_exact (push_change p ch d)"
  then show d: "delta_exact d" by (simp add: push_change_def)
  show "m' = replay ?cs m" using assms(1) [OF d] by (simp add: replay_def)
  show "m = revert ?cs m'" using assms(2) [OF d] by (simp add: revert_def)
qed

lemma remove_file_cases:
  assumes "lawful_fs env files" "remove_file env act p expected (d, st) = (res, d', st')"
  obtains (failed) e where "res = Err e" "traced d (files st) d' (files st')"
  | (removed) "res = Ok ()" "d' = d" "files st' = (files st)(p := None)"
proof (cases "ensure_not_directory env p st")
  case (Inl e)
  with assms(2) failed show thesis by (auto simp: remove_file_def)
next
  case (Inr u)
  obtain r st1 where r: "fs_remove env p st = (r, st1)" by fastforce
  show thesis
  proof (cases r)
    case (Inr v)
    with \<open>ensure_not_directory env p st = Inr u\<close> r assms(2) lawful_fsD(6) [OF assms(1)] removed
    show thesis by (auto simp: remove_file_def)
  next
    case (Inl e)
    let ?b = "remove_failure_was_side_effect_free env p expected st1"
    have eq: "res = Err (WithContext (act @ native_path_string env p) e)" "d' = and_exact ?b d" "st' = st1"
      using \<open>ensure_not_directory env p st = Inr u\<close> Inl r assms(2) by (auto simp: remove_file_def)
    have "files st1 = files st" if b: ?b
    proof
      fix q
      obtain c where "fs_read_file_text env p st1 = Ok c"
        using b by (auto simp: remove_failure_was_side_effect_free_def split: option.splits sum.splits)
      then have "files st1 p = Some c" using lawful_fsD(1) [OF assms(1)] by simp
      moreover have "files st1 q = files st q \<or> q = p \<and> files st1 q = None"
        using lawful_fsD(7) [OF assms(1)] r Inl by blast
      ultimately show "files st1 q = files st q" by auto
    qed
    then have "traced d (files st) d' (files st')"
      unfolding eq by (intro traced_and_exact)
    with eq(1) failed show thesis by blast
  qed
qed

lemma read_optional_exact:
  assumes "lawful_fs env files" "read_optional_file_text_for_delta env p st = (ow, True)"
  shows "files st p = ow"
  using assms(2) lawful_fsD(1,2) [OF assms(1)]
  by (auto simp: read_optional_file_text_for_delta_def Let_def split: sum.splits if_splits)

lemma apply_add_cases:
  assumes "lawful_fs env files" "apply_add env p c (d, st) = (res, d', st')"
  shows "traced d (files st) d' (files st')"
    and "res = Ok () \<Longrightarrow> files st' = (files st)(p \<mapsto> c)"
proof -
  obtain ow ex where o: "read_optional_file_text_for_delta env p st = (ow, ex)" by fastforce
  obtain r st1 where w: "write_file_with_missing_parent_retry env p c st = (r, st1)" by fastforce
  have "traced d (files st) d' (files st') \<and> (res = Ok () \<longrightarrow> files st' = (files st)(p \<mapsto> c))"
  proof (cases r)
    case (Inl e)
    then have "res = Err e" "d' = and_exact False (and_exact ex d)"
      using assms(2) o w by (auto simp: apply_add_def)
    then show ?thesis by (auto simp: traced_def and_exact_def)
  next
    case (Inr u)
    then have eq: "res = Ok ()" "d' = push_change p (Added c ow) (and_exact ex d)" "st' = st1"
      using assms(2) o w by (auto simp: apply_add_def)
    have f: "files st1 = (files st)(p \<mapsto> c)" using write_retry_files [OF assms(1)] w Inr by blast
    have "ex \<Longrightarrow> files st p = ow" using read_optional_exact [OF assms(1)] o by simp
    then have "traced (and_exact ex d) (files st) d' (files st')"
      unfolding eq by (intro traced_change) (auto simp: f and_exact_def)
    then have "traced d (files st) d' (files st')"
      using traced_trans traced_and_exact by blast
    with eq f show ?thesis by simp
  qed
  then show "traced d (files st) d' (files st')"
    and "res = Ok () \<Longrightarrow> files st' = (files st)(p \<mapsto> c)" by blast+
qed

lemma apply_delete_cases:
  assumes "lawful_fs env files" "apply_delete env p (d, st) = (res, d', st')"
  shows "traced d (files st) d' (files st')"
    and "res = Ok () \<Longrightarrow> files st' = (files st)(p := None)"
proof -
  define dc where "dc = (case fs_read_file_text env p st of Inr c \<Rightarrow> Some c | Inl _ \<Rightarrow> None)"
  define d1 where "d1 = and_exact (dc \<noteq> None) (and_exact (note_existing_path_delta_support env p st) d)"
  obtain r d2 st1 where r: "remove_file env ''Failed to delete file '' p dc (d1, st) = (r, d2, st1)"
    by (metis prod_cases3)
  have dc: "dc = Some c \<Longrightarrow> files st p = Some c" for c
    using lawful_fsD(1) [OF assms(1)] by (auto simp: dc_def split: sum.splits)
  have d1: "traced d (files st) d1 (files st)"
    unfolding d1_def by (rule traced_trans; rule traced_and_exact; simp)
  have run: "apply_delete env p (d, st) =
    (case r of Inl e \<Rightarrow> (Err e, d2, st1)
     | Inr _ \<Rightarrow> (Ok (), (case dc of Some content \<Rightarrow> push_change p (Deleted content) d2 | None \<Rightarrow> d2), st1))"
    unfolding apply_delete_def Let_def prod.case dc_def [symmetric] d1_def [symmetric] r
    by (cases r) simp_all
  have "traced d1 (files st) d' (files st') \<and> (res = Ok () \<longrightarrow> files st' = (files st)(p := None))"
    using assms(1) r
  proof (cases rule: remove_file_cases)
    case (failed e)
    with run assms(2) show ?thesis by auto
  next
    case removed
    then have eq: "res = Ok ()" "d' = (case dc of Some c \<Rightarrow> push_change p (Deleted c) d1 | None \<Rightarrow> d1)"
      "st' = st1"
      using run assms(2) by auto
    have "traced d1 (files st) d' (files st')"
    proof (cases dc)
      case None
      then show ?thesis by (simp add: eq traced_def d1_def and_exact_def)
    next
      case (Some c)
      then have "traced d1 (files st) (push_change p (Deleted c) d1) (files st1)"
        using dc removed(3) by (intro traced_change) (auto simp: fun_eq_iff)
      with Some eq show ?thesis by simp
    qed
    with removed eq show ?thesis by simp
  qed
  then show "traced d (files st) d' (files st')"
    and "res = Ok () \<Longrightarrow> files st' = (files st)(p := None)"
    using d1 traced_trans by blast+
qed

lemma apply_move_cases:
  assumes "lawful_fs env files" "apply_move env p dest old new (d, st) = (res, d', st')"
    and "files st p = Some old"
  shows "traced d (files st) d' (files st')"
    and "res = Ok () \<Longrightarrow> files st' = ((files st)(dest \<mapsto> new))(p := None)"
proof -
  obtain ow ex where o: "read_optional_file_text_for_delta env dest st = (ow, ex)" by fastforce
  obtain r st1 where w: "write_file_with_missing_parent_retry env dest new st = (r, st1)" by fastforce
  have "traced d (files st) d' (files st') \<and>
    (res = Ok () \<longrightarrow> files st' = ((files st)(dest \<mapsto> new))(p := None))"
  proof (cases r)
    case (Inl e)
    then have "res = Err e" "d' = and_exact False (and_exact ex d)"
      using assms(2) o w by (auto simp: apply_move_def)
    then show ?thesis by (auto simp: traced_def and_exact_def)
  next
    case (Inr u)
    have f: "files st1 = (files st)(dest \<mapsto> new)" using write_retry_files [OF assms(1)] w Inr by blast
    have ow: "ex \<Longrightarrow> files st dest = ow" using read_optional_exact [OF assms(1)] o by simp
    define d1 where "d1 = and_exact ex d"
    define d2 where "d2 = push_change dest (Added new ow) d1"
    obtain r2 d3 st2 where r2: "remove_file env ''Failed to remove original '' p (Some old) (d2, st1) = (r2, d3, st2)"
      by (metis prod_cases3)
    have run: "apply_move env p dest old new (d, st) =
      (case r2 of Inl e \<Rightarrow> (Err e, d3, st2)
       | Inr _ \<Rightarrow> (Ok (), d3\<lparr>delta_changes := (delta_changes d3)[length (delta_changes d1) :=
           \<lparr>change_path = p, file_change = Updated (Some dest) old ow new\<rparr>]\<rparr>, st2))"
      using Inr unfolding apply_move_def Let_def prod.case o w d1_def [symmetric] d2_def [symmetric] r2
      by (cases r2) (simp_all add: d1_def [symmetric] d2_def [symmetric] r2)
    have d1: "traced d (files st) d1 (files st)" unfolding d1_def by (rule traced_and_exact) simp
    have "traced d1 (files st) d' (files st') \<and>
      (res = Ok () \<longrightarrow> files st' = ((files st)(dest \<mapsto> new))(p := None))"
      using assms(1) r2
    proof (cases rule: remove_file_cases)
      case (failed e)
      have "traced d1 (files st) d2 (files st1)"
        unfolding d2_def using ow by (intro traced_change) (auto simp: f d1_def and_exact_def)
      with failed run assms(2) traced_trans show ?thesis by auto
    next
      case removed
      then have eq: "res = Ok ()" "d' = push_change p (Updated (Some dest) old ow new) d1" "st' = st2"
        using run assms(2) by (auto simp: d2_def push_change_def)
      have "traced d1 (files st) d' (files st')"
        unfolding eq using ow assms(3) removed(3)
        by (intro traced_change) (auto simp: f d1_def and_exact_def fun_eq_iff)
      with removed eq f show ?thesis by simp
    qed
    with d1 traced_trans show ?thesis by blast
  qed
  then show "traced d (files st) d' (files st')"
    and "res = Ok () \<Longrightarrow> files st' = ((files st)(dest \<mapsto> new))(p := None)" by blast+
qed

text \<open>
  What a hunk means, without a file system: a partial function on the texts of files. An update
  takes the new text from the chunks; a move puts it at the destination and removes the source.
\<close>

definition update_meaning ::
  "'st patch_env \<Rightarrow> uri \<Rightarrow> string option \<Rightarrow> update_file_chunk list \<Rightarrow> (uri \<rightharpoonup> string) \<Rightarrow> (uri \<rightharpoonup> string) option" where
  "update_meaning env p mv cs m =
     (case m p of
        None \<Rightarrow> None
      | Some old \<Rightarrow>
          (case new_contents_of (native_path_string env p) cs old of
             Some (Inr new) \<Rightarrow>
               (case mv of
                  None \<Rightarrow> Some (m(p \<mapsto> new))
                | Some dest \<Rightarrow>
                    (case cwd_join env dest of
                       Inr q \<Rightarrow> Some ((m(q \<mapsto> new))(p := None))
                     | Inl _ \<Rightarrow> None))
           | _ \<Rightarrow> None))"

definition hunk_meaning :: "'st patch_env \<Rightarrow> hunk \<Rightarrow> (uri \<rightharpoonup> string) \<Rightarrow> (uri \<rightharpoonup> string) option" where
  "hunk_meaning env h m =
     (case resolve_path env h of
        Inl _ \<Rightarrow> None
      | Inr p \<Rightarrow>
          (case h of
             AddFile _ contents \<Rightarrow> Some (m(p \<mapsto> contents))
           | DeleteFile _ \<Rightarrow> Some (m(p := None))
           | UpdateFile _ mv cs \<Rightarrow> update_meaning env p mv cs m))"

fun patch_meaning :: "'st patch_env \<Rightarrow> hunk list \<Rightarrow> (uri \<rightharpoonup> string) \<Rightarrow> (uri \<rightharpoonup> string) option" where
  "patch_meaning env [] m = Some m"
| "patch_meaning env (h # hs) m = Option.bind (hunk_meaning env h m) (patch_meaning env hs)"

lemma derive_new_contentsD:
  assumes "lawful_fs env files" "derive_new_contents_from_chunks env p cs st = Ok (old, new)"
  shows "files st p = Some old \<and> new_contents_of (native_path_string env p) cs old = Some (Ok new)"
  using assms(2) lawful_fsD(1) [OF assms(1)]
  by (auto simp: derive_new_contents_from_chunks_def split: sum.splits option.splits)

lemma update_in_place:
  assumes "lawful_fs env files" "apply_update env p None cs (d, st) = (res, d', st')"
    and derived: "derive_new_contents_from_chunks env p cs st = Ok (old, new)"
  shows "traced d (files st) d' (files st') \<and> (res = Ok () \<longrightarrow> files st' = (files st)(p \<mapsto> new))"
proof -
  obtain r st1 where w: "fs_write_file env p new st = (r, st1)" by fastforce
  define d1 where "d1 = and_exact (note_existing_path_delta_support env p st) d"
  show ?thesis
  proof (cases r)
    case (Inl e)
    with w derived assms(2) show ?thesis
      by (auto simp: apply_update_def traced_def and_exact_def)
  next
    case (Inr u)
    with w derived assms(2)
    have eq: "res = Ok ()" "d' = push_change p (Updated None old None new) d1" "st' = st1"
      by (auto simp: apply_update_def d1_def)
    have f: "files st1 = (files st)(p \<mapsto> new)" using w Inr lawful_fsD(3) [OF assms(1)] by simp
    have "traced d1 (files st) d' (files st')"
      unfolding eq using derive_new_contentsD [OF assms(1) derived]
      by (intro traced_change) (auto simp: f fun_eq_iff)
    moreover have "traced d (files st) d1 (files st)"
      unfolding d1_def by (rule traced_and_exact) simp
    ultimately show ?thesis using eq f traced_trans by blast
  qed
qed

lemma apply_update_cases:
  assumes "lawful_fs env files" "apply_update env p mv cs (d, st) = (res, d', st')"
  shows "traced d (files st) d' (files st') \<and>
    (res = Ok () \<longrightarrow> update_meaning env p mv cs (files st) = Some (files st'))"
proof -
  define d1 where "d1 = and_exact (note_existing_path_delta_support env p st) d"
  have d1: "traced d (files st) d1 (files st)" unfolding d1_def by (rule traced_and_exact) simp
  consider (error) e where "derive_new_contents_from_chunks env p cs st = Err e"
    | (place) old new where "derive_new_contents_from_chunks env p cs st = Ok (old, new)" "mv = None"
    | (bad) old new dest e where "derive_new_contents_from_chunks env p cs st = Ok (old, new)"
        "mv = Some dest" "cwd_join env dest = Err e"
    | (move) old new dest q where "derive_new_contents_from_chunks env p cs st = Ok (old, new)"
        "mv = Some dest" "cwd_join env dest = Ok q"
    by (metis obj_sumE option.exhaust surj_pair)
  then show ?thesis
  proof cases
    case error
    with assms(2) d1 show ?thesis by (auto simp: apply_update_def d1_def)
  next
    case place
    with update_in_place [OF assms(1) _ place(1)] derive_new_contentsD [OF assms(1) place(1)] assms(2)
    show ?thesis by (auto simp: update_meaning_def)
  next
    case bad
    with assms(2) d1 show ?thesis by (auto simp: apply_update_def d1_def)
  next
    case move
    with assms(2) have run: "apply_move env p q old new (d1, st) = (res, d', st')"
      by (simp add: apply_update_def d1_def)
    from apply_move_cases [OF assms(1) run] d1 traced_trans derive_new_contentsD [OF assms(1) move(1)]
    have "traced d (files st) d' (files st')"
      "res = Ok () \<Longrightarrow> files st' = ((files st)(q \<mapsto> new))(p := None)" by blast+
    with move derive_new_contentsD [OF assms(1) move(1)] show ?thesis by (simp add: update_meaning_def)
  qed
qed

lemma apply_hunk_cases:
  assumes "lawful_fs env files" "apply_hunk env h (d, st) = (res, d', st')"
  shows "traced d (files st) d' (files st') \<and>
    (res = Ok () \<longrightarrow> hunk_meaning env h (files st) = Some (files st'))"
proof (cases "resolve_path env h")
  case (Inl e)
  with assms(2) show ?thesis by (auto simp: apply_hunk_def)
next
  case (Inr p)
  show ?thesis
  proof (cases h)
    case (AddFile x c)
    with Inr assms(2) have "apply_add env p c (d, st) = (res, d', st')" by (simp add: apply_hunk_def)
    from apply_add_cases [OF assms(1) this] AddFile Inr show ?thesis by (simp add: hunk_meaning_def)
  next
    case (DeleteFile x)
    with Inr assms(2) have "apply_delete env p (d, st) = (res, d', st')" by (simp add: apply_hunk_def)
    from apply_delete_cases [OF assms(1) this] DeleteFile Inr show ?thesis by (simp add: hunk_meaning_def)
  next
    case (UpdateFile x mv cs)
    with Inr assms(2) have "apply_update env p mv cs (d, st) = (res, d', st')" by (simp add: apply_hunk_def)
    from apply_update_cases [OF assms(1) this] UpdateFile Inr show ?thesis by (simp add: hunk_meaning_def)
  qed
qed

lemma apply_each_cases:
  assumes "lawful_fs env files" "apply_each env hs a (d, st) = (res, d', st')"
  shows "traced d (files st) d' (files st') \<and>
    (\<forall>a'. res = Ok a' \<longrightarrow> patch_meaning env hs (files st) = Some (files st'))"
  using assms(2)
proof (induction hs arbitrary: a d st)
  case (Cons h hs)
  obtain r d1 st1 where r: "apply_hunk env h (d, st) = (r, d1, st1)" by (metis prod_cases3)
  note step = apply_hunk_cases [OF assms(1) r]
  show ?case
  proof (cases r)
    case (Inl e)
    with r Cons.prems step show ?thesis by auto
  next
    case (Inr u)
    with r Cons.prems have "apply_each env hs (note_affected h a) (d1, st1) = (res, d', st')" by simp
    from Cons.IH [OF this] step Inr traced_trans show ?thesis by auto
  qed
qed auto

lemma apply_patch_cases:
  assumes "lawful_fs env files"
  shows "traced empty_delta (files st) (outcome_delta (apply_patch env patch st))
           (files (outcome_fs (apply_patch env patch st)))"
    and "outcome (apply_patch env patch st) = Ok () \<Longrightarrow>
      \<exists>args. parse_patch patch = Ok args \<and> patch_hunks args \<noteq> []
        \<and> patch_meaning env (patch_hunks args) (files st)
          = Some (files (outcome_fs (apply_patch env patch st)))"
proof -
  have "traced empty_delta (files st) (outcome_delta (apply_patch env patch st))
           (files (outcome_fs (apply_patch env patch st)))
    \<and> (outcome (apply_patch env patch st) = Ok () \<longrightarrow>
      (\<exists>args. parse_patch patch = Ok args \<and> patch_hunks args \<noteq> []
        \<and> patch_meaning env (patch_hunks args) (files st)
          = Some (files (outcome_fs (apply_patch env patch st)))))"
  proof (cases "parse_patch patch")
    case (Inl e)
    then show ?thesis by (simp add: apply_patch_def)
  next
    case (Inr args)
    let ?a = "\<lparr>added_paths = [], modified_paths = [], deleted_paths = []\<rparr>"
    obtain r d1 st1 where r: "apply_each env (patch_hunks args) ?a (empty_delta, st) = (r, d1, st1)"
      by (metis prod_cases3)
    from apply_each_cases [OF assms r] r Inr show ?thesis
      by (cases r) (simp_all add: apply_patch_def apply_hunks_def apply_hunks_to_files_def)
  qed
  then show "traced empty_delta (files st) (outcome_delta (apply_patch env patch st))
           (files (outcome_fs (apply_patch env patch st)))"
    and "outcome (apply_patch env patch st) = Ok () \<Longrightarrow>
      \<exists>args. parse_patch patch = Ok args \<and> patch_hunks args \<noteq> []
        \<and> patch_meaning env (patch_hunks args) (files st)
          = Some (files (outcome_fs (apply_patch env patch st)))"
    by blast+
qed

section \<open>Properties\<close>

text \<open>A file system in memory, for the examples.\<close>

type_synonym memory = "(uri \<times> string) list"

definition missing :: io_error where
  "missing = \<lparr>io_kind = NotFound, io_text = ''No such file or directory''\<rparr>"

definition memory_env :: "memory patch_env" where
  "memory_env =
     \<lparr>fs_read_file_text = (\<lambda>p st. ok_or missing (map_of st p)),
      fs_get_metadata = (\<lambda>p st. ok_or missing (map_option
        (\<lambda>_. \<lparr>md_is_directory = False, md_is_file = True, md_is_symlink = False\<rparr>) (map_of st p))),
      fs_write_file = (\<lambda>p c st. (Ok (), (p, c) # st)),
      fs_create_directory = (\<lambda>p st. (Ok (), st)),
      fs_remove = (\<lambda>p st. if map_of st p = None then (Err missing, st)
                          else (Ok (), filter (\<lambda>(q, _). q \<noteq> p) st)),
      cwd_join = (\<lambda>p. Ok (''/w/'' @ p)),
      uri_parent = (\<lambda>p. None),
      native_path_string = (\<lambda>p. p)\<rparr>"

lemma map_of_filter_key: "map_of (filter (\<lambda>(q, _). q \<noteq> p) st) = (map_of st)(p := None)"
  by (induction st) (auto simp: fun_eq_iff)

lemma memory_lawful: "lawful_fs memory_env map_of"
  by (auto simp: lawful_fs_def memory_env_def missing_def map_of_filter_key ok_or_def
      split: option.splits if_splits)

lemma apply_rendered:
  assumes "list_all printable_hunk hs"
  shows "apply_patch env (render_patch None hs) st = apply_hunks env hs st"
  using parse_rendered [OF assms, of None] by (simp add: apply_patch_def printable_environment_def)

definition rename_hunk :: "string \<Rightarrow> hunk" where
  "rename_hunk dest =
     UpdateFile ''a'' (Some dest)
       [\<lparr>change_context = None, old_lines = [''x''], new_lines = [''y''], is_end_of_file = False\<rparr>]"

definition demo_patch :: string where
  "demo_patch =
     render_patch None [AddFile ''new'' (''n'' @ [nl]), DeleteFile ''old'', rename_hunk ''b'']"

definition demo_memory :: memory where
  "demo_memory = [(''/w/a'', ''x'' @ [nl]), (''/w/old'', ''o'')]"

lemma demo_patch_run:
  "apply_patch memory_env demo_patch demo_memory =
   apply_hunks memory_env [AddFile ''new'' (''n'' @ [nl]), DeleteFile ''old'', rename_hunk ''b''] demo_memory"
  unfolding demo_patch_def by (rule apply_rendered) code_simp

lemma demo_outcome:
  "outcome (apply_patch memory_env demo_patch demo_memory) = Ok ()"
  "delta_exact (outcome_delta (apply_patch memory_env demo_patch demo_memory))"
  "outcome_fs (apply_patch memory_env demo_patch demo_memory)
   = [(''/w/b'', ''y'' @ [nl]), (''/w/new'', ''n'' @ [nl])]"
  "length (delta_changes (outcome_delta (apply_patch memory_env demo_patch demo_memory))) = 3"
  unfolding demo_patch_run by code_simp+

text \<open>
  C2. Applying a patch does what the patch means: when \<open>apply_patch\<close> succeeds on a file system
  that keeps its promises, the patch has been parsed to at least one hunk and the files are
  exactly those that the meaning of the hunks, one after the other, gives: added files with their
  contents, deleted files gone, updated files with the new contents of their chunks, moved files
  at their destination only, and every other file as before.
\<close>

theorem apply_patch_refines_meaning:
  assumes "lawful_fs env files" and "outcome (apply_patch env patch st) = Ok ()"
  shows "\<exists>args. parse_patch patch = Ok args \<and> patch_hunks args \<noteq> []
    \<and> patch_meaning env (patch_hunks args) (files st)
      = Some (files (outcome_fs (apply_patch env patch st)))"
  using apply_patch_cases(2) [OF assms] .

theorem apply_patch_refines_meaning_witness:
  "lawful_fs memory_env map_of
   \<and> outcome (apply_patch memory_env demo_patch demo_memory) = Ok ()
   \<and> (\<exists>args. parse_patch demo_patch = Ok args \<and> patch_hunks args \<noteq> []
       \<and> patch_meaning memory_env (patch_hunks args) (map_of demo_memory)
         = Some (map_of [(''/w/b'', ''y'' @ [nl]), (''/w/new'', ''n'' @ [nl])]))"
  using apply_patch_refines_meaning [OF memory_lawful demo_outcome(1)] memory_lawful demo_outcome
  by simp



text \<open>
  A move to the file's own path deletes the file: the new contents are written to the
  destination and the source, which is the same file, is removed.
\<close>

lemma move_to_itself_deletes:
  "outcome_fs (apply_patch memory_env (render_patch None [rename_hunk ''a'']) [(''/w/a'', ''x'' @ [nl])]) = []"
proof -
  have "list_all printable_hunk [rename_hunk ''a'']" by code_simp
  moreover have "outcome_fs (apply_hunks memory_env [rename_hunk ''a''] [(''/w/a'', ''x'' @ [nl])]) = []"
    by code_simp
  ultimately show ?thesis by (simp only: apply_rendered)
qed

end
