(* ===== verification/Stream_Text.thy ===== *)
theory Stream_Text
  imports Codex_Prelude
begin

text \<open>
  Parsers of streamed text: \<open>codex/codex-rs/utils/stream-parser/src/stream_text.rs\<close>. A parser is
  pushed chunks of text, gives what can be shown and what it has extracted so far, and keeps
  the rest in its state. The contract is that the cut into chunks does not matter; it is
  the locale \<open>stream_text_parser\<close>, with the sequence of two parsers as a second locale.

  The chunks are \<open>str\<close> values, so they consist of whole code points (\<open>whole_text\<close>).
\<close>

section \<open>Code points\<close>

definition is_continuation :: "char \<Rightarrow> bool" where
  "is_continuation c = (let n = of_char c :: nat in 128 \<le> n \<and> n < 192)"

text \<open>The length of an encoding by its first byte, and 0 for a byte that starts none.\<close>

definition encoding_length :: "char \<Rightarrow> nat" where
  "encoding_length c =
     (let n = of_char c :: nat in
      if n < 128 then 1 else if n < 192 then 0 else if n < 224 then 2
      else if n < 240 then 3 else if n < 248 then 4 else 0)"

text \<open>\<open>chars()\<close>: the encodings of the code points of a text.\<close>

function chars :: "string \<Rightarrow> string list" where
  "chars [] = []"
| "chars (c # cs) = (c # takeWhile is_continuation cs) # chars (dropWhile is_continuation cs)"
  by pat_completeness auto
termination
  by (relation "measure length") (auto simp: le_imp_less_Suc length_dropWhile_le)

definition whole_text :: "string \<Rightarrow> bool" where
  "whole_text s = list_all (\<lambda>ch. length ch = encoding_length (hd ch)) (chars s)"

definition is_ascii :: "char \<Rightarrow> bool" where
  "is_ascii c = ((of_char c :: nat) < 128)"

lemma concat_chars [simp]: "concat (chars s) = s"
  by (induction s rule: chars.induct) simp_all

lemma chars_not_Nil: "ch \<in> set (chars s) \<Longrightarrow> ch \<noteq> []"
  by (induction s rule: chars.induct) auto

lemma dropWhile_append_Cons: "\<not> P c \<Longrightarrow> dropWhile P (a @ c # b) = dropWhile P a @ c # b"
  by (induction a) auto

lemma takeWhile_append_Cons: "\<not> P c \<Longrightarrow> takeWhile P (a @ c # b) = takeWhile P a"
  by (induction a) auto

lemma chars_append_Cons: "\<not> is_continuation c \<Longrightarrow> chars (a @ c # b) = chars a @ chars (c # b)"
proof (induction a rule: chars.induct)
  case (2 d ds)
  then show ?case
    by (simp add: dropWhile_append_Cons takeWhile_append_Cons del: chars.simps(2))
      (simp add: dropWhile_append_Cons takeWhile_append_Cons chars.simps(2) [of d])
qed simp

lemma whole_text_Nil [simp]: "whole_text []"
  by (simp add: whole_text_def)

lemma whole_text_Cons: "whole_text (c # s) \<Longrightarrow> \<not> is_continuation c"
  by (auto simp: whole_text_def encoding_length_def is_continuation_def Let_def split: if_splits)

lemma chars_append: "whole_text b \<Longrightarrow> chars (a @ b) = chars a @ chars b"
  by (cases b) (simp_all add: whole_text_Cons chars_append_Cons)

lemma whole_text_append: "whole_text a \<Longrightarrow> whole_text b \<Longrightarrow> whole_text (a @ b)"
  by (simp add: whole_text_def chars_append)

lemma whole_text_concat: "list_all whole_text cs \<Longrightarrow> whole_text (concat cs)"
  by (induction cs) (simp_all add: whole_text_append)

lemma ascii_not_continuation: "is_ascii c \<Longrightarrow> \<not> is_continuation c"
  by (simp add: is_ascii_def is_continuation_def Let_def)

lemma whole_text_ascii_Cons: "is_ascii c \<Longrightarrow> whole_text (c # b) \<longleftrightarrow> whole_text b"
proof
  assume c: "is_ascii c" and w: "whole_text (c # b)"
  have "length (c # takeWhile is_continuation b) = 1"
    using c w by (simp add: whole_text_def encoding_length_def is_ascii_def)
  then have "takeWhile is_continuation b = []" by simp
  then have "dropWhile is_continuation b = b" by (metis append_Nil takeWhile_dropWhile_id)
  with w show "whole_text b" by (simp add: whole_text_def)
next
  assume c: "is_ascii c" and w: "whole_text b"
  have "takeWhile is_continuation b = []" "dropWhile is_continuation b = b"
    using w whole_text_Cons by (cases b; force)+
  with c w show "whole_text (c # b)" by (simp add: whole_text_def encoding_length_def is_ascii_def)
qed

lemma whole_text_ascii: "list_all is_ascii d \<Longrightarrow> whole_text (d @ b) \<longleftrightarrow> whole_text b"
  by (induction d) (simp_all add: whole_text_ascii_Cons)

text \<open>Around an ASCII delimiter a text falls into whole texts.\<close>

lemma whole_text_around:
  assumes "whole_text (a @ d @ b)" "list_all is_ascii d" "d \<noteq> []"
  shows "whole_text a" "whole_text b"
proof -
  obtain c e where d: "d = c # e" "\<not> is_continuation c"
    using assms(2,3) ascii_not_continuation by (cases d) auto
  have "whole_text a \<and> whole_text (d @ b)"
    using assms(1) d by (simp add: whole_text_def chars_append_Cons del: chars.simps)
  then show "whole_text a" "whole_text b" using whole_text_ascii [OF assms(2)] by simp_all
qed

lemma whole_text_before: "whole_text (a @ d) \<Longrightarrow> list_all is_ascii d \<Longrightarrow> whole_text a"
  using whole_text_around [of a d "[]"] by (cases "d = []") simp_all

section \<open>Chunks\<close>

record 'a text_chunk =
  visible_text :: string
  extracted :: "'a list"

definition empty_chunk :: "'a text_chunk" where
  "empty_chunk = \<lparr>visible_text = [], extracted = []\<rparr>"

definition chunk_is_empty :: "'a text_chunk \<Rightarrow> bool" where
  "chunk_is_empty c = (visible_text c = [] \<and> extracted c = [])"

text \<open>Two outputs, one after the other.\<close>

definition cat_chunk :: "'a text_chunk \<Rightarrow> 'a text_chunk \<Rightarrow> 'a text_chunk" where
  "cat_chunk a b =
     \<lparr>visible_text = visible_text a @ visible_text b, extracted = extracted a @ extracted b\<rparr>"

lemma cat_chunk_simps [simp]:
  "visible_text (cat_chunk a b) = visible_text a @ visible_text b"
  "extracted (cat_chunk a b) = extracted a @ extracted b"
  "cat_chunk a empty_chunk = a" "cat_chunk empty_chunk a = a"
  by (simp_all add: cat_chunk_def empty_chunk_def)

lemma cat_chunk_assoc: "cat_chunk (cat_chunk a b) c = cat_chunk a (cat_chunk b c)"
  by (simp add: cat_chunk_def)

section \<open>The contract of a stream parser\<close>

text \<open>The chunks of a stream pushed one after the other, their outputs put together.\<close>

fun feed ::
  "('p \<Rightarrow> string \<Rightarrow> ('o \<times> 'p) option) \<Rightarrow> 'o \<Rightarrow> ('o \<Rightarrow> 'o \<Rightarrow> 'o) \<Rightarrow> 'p \<Rightarrow> string list \<Rightarrow> ('o \<times> 'p) option" where
  "feed push none cat p [] = Some (none, p)"
| "feed push none cat p (c # cs) =
     Option.bind (push p c) (\<lambda>(out, q).
     Option.bind (feed push none cat q cs) (\<lambda>(out', r). Some (cat out out', r)))"

text \<open>A parser that does what another one does on translated states gives the translated output.\<close>

lemma feed_map:
  assumes "\<And>p s. push' (F p) s = map_option (map_prod G F) (push p s)"
    and "G none = none'" "\<And>a b. G (cat a b) = cat' (G a) (G b)"
  shows "feed push' none' cat' (F p) cs = map_option (map_prod G F) (feed push none cat p cs)"
proof (induction cs arbitrary: p)
  case (Cons c cs)
  then show ?case by (cases "push p c") (auto simp: assms option.map_comp comp_def split: Option.bind_splits)
qed (simp add: assms)

text \<open>
  \<open>push\<close> is \<open>push_str\<close>, with \<^const>\<open>None\<close> for a call that does not return; \<open>ok\<close> holds of the
  states that occur; \<open>cat\<close> puts two outputs together and \<open>none\<close> is the output of no chunk.
\<close>

locale stream_text_parser =
  fixes push :: "'p \<Rightarrow> string \<Rightarrow> ('o \<times> 'p) option"
    and none :: 'o
    and cat :: "'o \<Rightarrow> 'o \<Rightarrow> 'o"
    and ok :: "'p \<Rightarrow> bool"
  assumes push_returns: "ok p \<Longrightarrow> whole_text s \<Longrightarrow> \<exists>out q. push p s = Some (out, q) \<and> ok q"
    and push_nothing: "ok p \<Longrightarrow> push p [] = Some (none, p)"
    and push_append: "ok p \<Longrightarrow> whole_text a \<Longrightarrow> whole_text b \<Longrightarrow> push p a = Some (out, q) \<Longrightarrow>
      push q b = Some (out', r) \<Longrightarrow> push p (a @ b) = Some (cat out out', r)"
begin

lemma push_ok: "ok p \<Longrightarrow> whole_text s \<Longrightarrow> push p s = Some (out, q) \<Longrightarrow> ok q"
  using push_returns by force

lemma feed_concat:
  "ok p \<Longrightarrow> list_all whole_text cs \<Longrightarrow> feed push none cat p cs = push p (concat cs)"
proof (induction cs arbitrary: p)
  case Nil
  then show ?case by (simp add: push_nothing)
next
  case (Cons c cs)
  have c: "whole_text c" "whole_text (concat cs)"
    using Cons.prems(2) by (simp_all add: whole_text_concat)
  obtain out q where q: "push p c = Some (out, q)" "ok q"
    using push_returns [OF Cons.prems(1) c(1)] by blast
  obtain out' r where r: "push q (concat cs) = Some (out', r)"
    using push_returns [OF q(2) c(2)] by blast
  with Cons.IH [OF q(2)] Cons.prems(2) q(1) push_append [OF Cons.prems(1) c q(1) r]
  show ?case by simp
qed

end

text \<open>
  A parser that reads what another one leaves visible: the first one is given the chunk, the
  second one the visible text of the first. Both outputs are kept.
\<close>

definition chain_push ::
  "('p \<Rightarrow> string \<Rightarrow> ('o \<times> 'p) option) \<Rightarrow> ('o \<Rightarrow> string) \<Rightarrow> ('q \<Rightarrow> string \<Rightarrow> ('r \<times> 'q) option)
   \<Rightarrow> 'p \<times> 'q \<Rightarrow> string \<Rightarrow> (('o \<times> 'r) \<times> ('p \<times> 'q)) option" where
  "chain_push push visible push' = (\<lambda>(p, q) s.
     Option.bind (push p s) (\<lambda>(out, p').
     Option.bind (push' q (visible out)) (\<lambda>(out', q'). Some ((out, out'), (p', q')))))"

definition pair_cat :: "('o \<Rightarrow> 'o \<Rightarrow> 'o) \<Rightarrow> ('r \<Rightarrow> 'r \<Rightarrow> 'r) \<Rightarrow> 'o \<times> 'r \<Rightarrow> 'o \<times> 'r \<Rightarrow> 'o \<times> 'r" where
  "pair_cat cat cat' = (\<lambda>(a, b) (c, d). (cat a c, cat' b d))"

locale chained_parsers =
  first: stream_text_parser push none cat ok + second: stream_text_parser push' none' cat' ok'
  for push :: "'p \<Rightarrow> string \<Rightarrow> ('o \<times> 'p) option" and none cat ok
    and push' :: "'q \<Rightarrow> string \<Rightarrow> ('r \<times> 'q) option" and none' cat' ok' +
  fixes visible :: "'o \<Rightarrow> string"
  assumes visible_none: "visible none = []"
    and visible_cat: "visible (cat a b) = visible a @ visible b"
    and visible_whole: "ok p \<Longrightarrow> whole_text s \<Longrightarrow> push p s = Some (out, q) \<Longrightarrow> whole_text (visible out)"
begin

lemma chain_pushD:
  assumes "chain_push push visible push' pq s = Some (out, pq')"
  shows "push (fst pq) s = Some (fst out, fst pq')"
    and "push' (snd pq) (visible (fst out)) = Some (snd out, snd pq')"
  using assms
  by (auto simp: chain_push_def split: prod.splits Option.bind_splits)

lemma chain_is_parser:
  "stream_text_parser (chain_push push visible push') (none, none') (pair_cat cat cat')
     (\<lambda>(p, q). ok p \<and> ok' q)"
proof
  fix pq s
  assume ok: "case pq of (p, q) \<Rightarrow> ok p \<and> ok' q"
  obtain p q where pq: "pq = (p, q)" "ok p" "ok' q" using ok by (cases pq) simp
  show "chain_push push visible push' pq [] = Some ((none, none'), pq)"
    using pq first.push_nothing second.push_nothing by (simp add: chain_push_def visible_none)
  assume s: "whole_text s"
  obtain o1 p1 where p1: "push p s = Some (o1, p1)" "ok p1" using first.push_returns pq(2) s by blast
  moreover obtain o2 q1 where "push' q (visible o1) = Some (o2, q1)" "ok' q1"
    using second.push_returns pq(3) visible_whole [OF pq(2) s p1(1)] by blast
  ultimately show "\<exists>out r. chain_push push visible push' pq s = Some (out, r) \<and> (case r of (p, q) \<Rightarrow> ok p \<and> ok' q)"
    using pq(1) by (simp add: chain_push_def)
next
  fix pq a b out r out' t
  assume ok: "case pq of (p, q) \<Rightarrow> ok p \<and> ok' q" and w: "whole_text a" "whole_text b"
    and r: "chain_push push visible push' pq a = Some (out, r)"
    and t: "chain_push push visible push' r b = Some (out', t)"
  have p: "ok (fst pq)" "ok' (snd pq)" using ok by (simp_all split: prod.splits)
  note r = chain_pushD [OF r] and t = chain_pushD [OF t]
  have "ok (fst r)" using first.push_ok [OF p(1) w(1) r(1)] .
  note v = visible_whole [OF p(1) w(1) r(1)] visible_whole [OF this w(2) t(1)]
  have "push (fst pq) (a @ b) = Some (cat (fst out) (fst out'), fst t)"
    using first.push_append [OF p(1) w r(1) t(1)] .
  moreover have "push' (snd pq) (visible (fst out) @ visible (fst out')) = Some (cat' (snd out) (snd out'), snd t)"
    using second.push_append [OF p(2) v r(2) t(2)] .
  ultimately show "chain_push push visible push' pq (a @ b) = Some (pair_cat cat cat' out out', t)"
    by (cases pq; cases out; cases out'; cases t) (simp add: chain_push_def pair_cat_def visible_cat)
qed

end

sublocale chained_parsers \<subseteq> chain: stream_text_parser
  "chain_push push visible push'" "(none, none')" "pair_cat cat cat'" "\<lambda>(p, q). ok p \<and> ok' q"
  by (rule chain_is_parser)

end
