(* ===== verification/Inline_Tags.thy ===== *)
theory Inline_Tags
  imports Stream_Text
begin

text \<open>
  Hidden inline tags in streamed text:
  \<open>codex/codex-rs/utils/stream-parser/src/inline_hidden_tag.rs\<close>.

  The loop of \<open>push_str\<close> ends because every delimiter has at least one byte, which \<open>new\<close>
  asserts. It is a partial function here, and that it returns is a theorem.
\<close>

section \<open>The parser\<close>

record 'a inline_tag_spec =
  spec_tag :: 'a
  spec_open :: string
  spec_close :: string

record 'a extracted_tag =
  et_tag :: 'a
  et_content :: string

record 'a open_tag =
  ot_tag :: 'a
  ot_close :: string
  ot_content :: string

record 'a inline_parser =
  ip_specs :: "'a inline_tag_spec list"
  ip_pending :: string
  ip_active :: "'a open_tag option"

text \<open>\<open>new\<close>; \<^const>\<open>None\<close> is a failed assertion.\<close>

definition new_inline :: "'a inline_tag_spec list \<Rightarrow> 'a inline_parser option" where
  "new_inline specs =
     (if specs = [] \<or> list_ex (\<lambda>sp. spec_open sp = [] \<or> spec_close sp = []) specs then None
      else Some \<lparr>ip_specs = specs, ip_pending = [], ip_active = None\<rparr>)"

text \<open>The comparison of \<open>min_by\<close>: the earliest place, then the longest tag, then the first.\<close>

definition better_open :: "nat \<times> nat \<times> nat \<Rightarrow> nat \<times> nat \<times> nat \<Rightarrow> bool" where
  "better_open = (\<lambda>(pos_a, len_a, idx_a) (pos_b, len_b, idx_b).
     pos_a < pos_b \<or> pos_a = pos_b \<and> (len_a > len_b \<or> len_a = len_b \<and> idx_a < idx_b))"

fun min_open :: "(nat \<times> nat \<times> nat) list \<Rightarrow> (nat \<times> nat \<times> nat) option" where
  "min_open [] = None"
| "min_open (x # xs) =
     (case min_open xs of
        None \<Rightarrow> Some x
      | Some y \<Rightarrow> if better_open y x then Some y else Some x)"

definition find_next_open :: "'a inline_parser \<Rightarrow> (nat \<times> nat) option" where
  "find_next_open p =
     map_option (\<lambda>(pos, len, idx). (pos, idx))
       (min_open (List.map_filter (\<lambda>(idx, spec).
          map_option (\<lambda>pos. (pos, length (spec_open spec), idx))
            (find_str (spec_open spec) (ip_pending p)))
        (enumerate 0 (ip_specs p))))"

definition is_char_boundary :: "string \<Rightarrow> nat \<Rightarrow> bool" where
  "is_char_boundary s k = (k = 0 \<or> k = length s \<or> k < length s \<and> \<not> is_continuation (s ! k))"

definition longest_suffix_prefix_len :: "string \<Rightarrow> string \<Rightarrow> nat" where
  "longest_suffix_prefix_len s needle =
     (case find (\<lambda>k. is_char_boundary needle k \<and> ends_with s (take k needle))
             (rev [1 ..< Suc (min (length s) (length needle - 1))]) of
        Some k \<Rightarrow> k | None \<Rightarrow> 0)"

definition max_open_prefix_suffix_len :: "'a inline_parser \<Rightarrow> nat" where
  "max_open_prefix_suffix_len p =
     foldr max (map (\<lambda>sp. longest_suffix_prefix_len (ip_pending p) (spec_open sp)) (ip_specs p)) 0"

definition show_text :: "string \<Rightarrow> 'b text_chunk \<Rightarrow> 'b text_chunk" where
  "show_text s out = out\<lparr>visible_text := visible_text out @ s\<rparr>"

definition close_tag :: "string \<Rightarrow> 'a open_tag \<Rightarrow> 'a extracted_tag text_chunk \<Rightarrow> 'a extracted_tag text_chunk" where
  "close_tag s active out =
     out\<lparr>extracted := extracted out @ [\<lparr>et_tag = ot_tag active, et_content = ot_content active @ s\<rparr>]\<rparr>"

partial_function (option) push_loop ::
  "'a inline_parser \<Rightarrow> 'a extracted_tag text_chunk \<Rightarrow> ('a extracted_tag text_chunk \<times> 'a inline_parser) option" where
  "push_loop p out =
     (case ip_active p of
        Some active \<Rightarrow>
          (case find_str (ot_close active) (ip_pending p) of
             Some close_idx \<Rightarrow>
               push_loop (p\<lparr>ip_active := None,
                            ip_pending := drop (close_idx + length (ot_close active)) (ip_pending p)\<rparr>)
                 (close_tag (take close_idx (ip_pending p)) active out)
           | None \<Rightarrow>
               (let keep = longest_suffix_prefix_len (ip_pending p) (ot_close active);
                    n = length (ip_pending p) - keep
                in Some (out, p\<lparr>ip_active := Some (active\<lparr>ot_content := ot_content active @ take n (ip_pending p)\<rparr>),
                                ip_pending := drop n (ip_pending p)\<rparr>)))
      | None \<Rightarrow>
          (case find_next_open p of
             Some (open_idx, spec_idx) \<Rightarrow>
               (let spec = ip_specs p ! spec_idx in
                push_loop (p\<lparr>ip_pending := drop (open_idx + length (spec_open spec)) (ip_pending p),
                             ip_active := Some \<lparr>ot_tag = spec_tag spec, ot_close = spec_close spec,
                                                ot_content = []\<rparr>\<rparr>)
                  (show_text (take open_idx (ip_pending p)) out))
           | None \<Rightarrow>
               (let n = length (ip_pending p) - max_open_prefix_suffix_len p
                in Some (show_text (take n (ip_pending p)) out,
                         p\<lparr>ip_pending := drop n (ip_pending p)\<rparr>))))"

declare push_loop.simps [code]

definition inline_push_str ::
  "'a inline_parser \<Rightarrow> string \<Rightarrow> ('a extracted_tag text_chunk \<times> 'a inline_parser) option" where
  "inline_push_str p chunk = push_loop (p\<lparr>ip_pending := ip_pending p @ chunk\<rparr>) empty_chunk"

definition inline_finish ::
  "'a inline_parser \<Rightarrow> 'a extracted_tag text_chunk \<times> 'a inline_parser" where
  "inline_finish p =
     (case ip_active p of
        Some active \<Rightarrow>
          (close_tag (ip_pending p) active empty_chunk, p\<lparr>ip_active := None, ip_pending := []\<rparr>)
      | None \<Rightarrow> (show_text (ip_pending p) empty_chunk, p\<lparr>ip_pending := []\<rparr>))"

section \<open>Searching\<close>

lemma find_str_eq_SomeI:
  "prefix pat (drop i s) \<Longrightarrow> i \<le> length s \<Longrightarrow> (\<And>j. j < i \<Longrightarrow> \<not> prefix pat (drop j s)) \<Longrightarrow>
   find_str pat s = Some i"
proof (induction s arbitrary: i)
  case (Cons c cs)
  show ?case
  proof (cases i)
    case (Suc k)
    have "find_str pat cs = Some k"
    proof (rule Cons.IH)
      show "\<not> prefix pat (drop j cs)" if "j < k" for j
        using Cons.prems(3) [of "Suc j"] that Suc by simp
    qed (use Cons.prems Suc in simp_all)
    with Cons.prems(3) [of 0] Suc show ?thesis by simp
  qed (use Cons.prems in simp)
qed simp

lemma find_str_skip:
  "(\<And>j. j < n \<Longrightarrow> \<not> prefix pat (drop j s)) \<Longrightarrow> n \<le> length s \<Longrightarrow>
   find_str pat s = map_option ((+) n) (find_str pat (drop n s))"
proof (induction n arbitrary: s)
  case 0
  show ?case by (cases "find_str pat s") simp_all
next
  case (Suc n)
  then obtain c cs where s: "s = c # cs" by (cases s) auto
  have "find_str pat cs = map_option ((+) n) (find_str pat (drop n cs))"
    using Suc.prems(1) [of "Suc j" for j] Suc.prems(2) s by (intro Suc.IH) auto
  with Suc.prems(1) [of 0] s show ?case by (cases "find_str pat (drop n cs)") simp_all
qed

lemma prefix_append_long: "prefix d (a @ b) \<Longrightarrow> length d \<le> length a \<Longrightarrow> prefix d a"
  by (meson prefix_length_prefix prefixI)

lemma find_str_append:
  assumes "find_str d s = Some i"
  shows "find_str d (s @ b) = Some i"
proof (rule find_str_eq_SomeI)
  have i: "i + length d \<le> length s" "prefix d (drop i s)" using find_str_SomeD [OF assms] by simp_all
  then show "prefix d (drop i (s @ b))" "i \<le> length (s @ b)" by simp_all
  fix j assume j: "j < i"
  show "\<not> prefix d (drop j (s @ b))"
  proof
    assume "prefix d (drop j (s @ b))"
    then have "prefix d (drop j s)"
      using i(1) j by (intro prefix_append_long [of d "drop j s" b]) auto
    with find_str_least [OF assms j] show False by simp
  qed
qed

lemma find_rev_upt_Some:
  "find P (rev [1 ..< Suc m]) = Some k \<Longrightarrow> P k \<and> k \<le> m \<and> (\<forall>j. k < j \<and> j \<le> m \<longrightarrow> \<not> P j)"
proof (induction m)
  case (Suc m)
  have r: "rev [1 ..< Suc (Suc m)] = Suc m # rev [1 ..< Suc m]" by simp
  show ?case
  proof (cases "P (Suc m)")
    case True
    with Suc.prems r show ?thesis by auto
  next
    case False
    then have "find P (rev [1 ..< Suc m]) = Some k" using Suc.prems unfolding r by simp
    from Suc.IH [OF this] False show ?thesis by (metis le_SucE le_SucI)
  qed
qed simp

lemma find_rev_upt_None:
  "find P (rev [1 ..< Suc m]) = None \<Longrightarrow> 0 < j \<Longrightarrow> j \<le> m \<Longrightarrow> \<not> P j"
  by (simp only: find_None_iff set_rev set_upt atLeastLessThan_iff) (metis Suc_leI One_nat_def le_imp_less_Suc)

lemma longest_suffix_prefix_le:
  fixes d s :: string
  assumes "d \<noteq> []"
  shows "longest_suffix_prefix_len s d < length d" "longest_suffix_prefix_len s d \<le> length s"
    "suffix (take (longest_suffix_prefix_len s d) d) s"
proof -
  let ?P = "\<lambda>k. is_char_boundary d k \<and> ends_with s (take k d)"
  let ?m = "min (length s) (length d - 1)"
  have "longest_suffix_prefix_len s d < length d \<and> longest_suffix_prefix_len s d \<le> length s \<and>
    suffix (take (longest_suffix_prefix_len s d) d) s"
  proof (cases "find ?P (rev [1 ..< Suc ?m])")
    case None
    with assms show ?thesis by (simp add: longest_suffix_prefix_len_def del: upt_Suc)
  next
    case (Some i)
    then have "longest_suffix_prefix_len s d = i" by (simp add: longest_suffix_prefix_len_def del: upt_Suc)
    moreover have "?P i" "i \<le> ?m" using find_rev_upt_Some [OF Some] by blast+
    moreover have "i < length d" using \<open>i \<le> ?m\<close> assms by (cases d) auto
    ultimately show ?thesis by simp
  qed
  then show "longest_suffix_prefix_len s d < length d" "longest_suffix_prefix_len s d \<le> length s"
    "suffix (take (longest_suffix_prefix_len s d) d) s" by blast+
qed

lemma longest_suffix_prefix_max:
  assumes "list_all is_ascii d" "j < length d" "suffix (take j d) s"
  shows "j \<le> longest_suffix_prefix_len s d"
proof (rule ccontr)
  let ?P = "\<lambda>k. is_char_boundary d k \<and> ends_with s (take k d)"
  let ?m = "min (length s) (length d - 1)"
  assume "\<not> j \<le> longest_suffix_prefix_len s d"
  moreover have "\<not> is_continuation (d ! j)"
    using assms(1,2) ascii_not_continuation by (auto simp: list_all_length)
  then have "?P j" using assms by (simp add: is_char_boundary_def)
  moreover have "j \<le> ?m" using assms(2) suffix_length_le [OF assms(3)] by simp
  ultimately show False
  proof (cases "find ?P (rev [1 ..< Suc ?m])")
    case None
    then show False
      using find_rev_upt_None [OF None, of j] \<open>?P j\<close> \<open>j \<le> ?m\<close> \<open>\<not> j \<le> _\<close> by simp
  next
    case (Some i)
    then have "longest_suffix_prefix_len s d = i" by (simp add: longest_suffix_prefix_len_def del: upt_Suc)
    with \<open>\<not> j \<le> _\<close> have "i < j" by simp
    with find_rev_upt_Some [OF Some] \<open>?P j\<close> \<open>j \<le> ?m\<close> show False by blast
  qed
qed

text \<open>
  A text without the delimiter is kept from the place where the delimiter may have begun. More
  text changes nothing before that place.
\<close>

definition settled_len :: "string \<Rightarrow> string \<Rightarrow> nat" where
  "settled_len s d = length s - longest_suffix_prefix_len s d"

lemma no_partial:
  assumes "list_all is_ascii d" "d \<noteq> []" "j < settled_len s d" "length s - j < length d"
  shows "\<not> prefix (drop j s) d"
proof
  assume p: "prefix (drop j s) d"
  then have "take (length s - j) d = drop j s"
    by (metis append_eq_conv_conj length_drop prefix_def)
  then have "suffix (take (length s - j) d) s" by (simp add: suffix_drop)
  then have "length s - j \<le> longest_suffix_prefix_len s d"
    by (rule longest_suffix_prefix_max [OF assms(1,4)])
  with assms(3) show False by (simp add: settled_len_def)
qed

lemma no_start:
  assumes "list_all is_ascii d" "d \<noteq> []" "find_str d s = None" "j < settled_len s d"
  shows "\<not> prefix d (drop j (s @ b))"
proof
  assume p: "prefix d (drop j (s @ b))"
  have j: "j \<le> length s" using assms(4) by (simp add: settled_len_def)
  then have d: "prefix d (drop j s @ b)" using p by simp
  show False
  proof (cases "length d \<le> length s - j")
    case True
    with d have "prefix d (drop j s)" by (intro prefix_append_long [of d "drop j s" b]) simp_all
    then have "contains_str s d"
      by (meson prefix_imp_sublist sublist_order.order.trans suffix_drop suffix_imp_sublist)
    with assms(3) show False by (simp add: find_str_None_iff)
  next
    case False
    then have "prefix (drop j s) d"
      using d by (intro prefix_length_prefix [of "drop j s" "drop j s @ b" d]) simp_all
    with no_partial [OF assms(1,2,4)] False show False by simp
  qed
qed

lemma settled_len_le: "settled_len s d \<le> length s"
  by (simp add: settled_len_def)

lemma find_str_settled:
  assumes "list_all is_ascii d" "d \<noteq> []" "find_str d s = None"
  shows "find_str d (s @ b) = map_option ((+) (settled_len s d)) (find_str d (drop (settled_len s d) s @ b))"
proof -
  have "find_str d (s @ b) = map_option ((+) (settled_len s d)) (find_str d (drop (settled_len s d) (s @ b)))"
    using no_start [OF assms] settled_len_le [of s d] by (intro find_str_skip) auto
  then show ?thesis using settled_len_le [of s d] by simp
qed

lemma suffix_as_drop: "suffix u v \<Longrightarrow> u = drop (length v - length u) v"
  by (auto simp: suffix_def)

lemma longest_settled:
  assumes "list_all is_ascii d" "d \<noteq> []"
  shows "longest_suffix_prefix_len (drop (settled_len s d) s @ b) d = longest_suffix_prefix_len (s @ b) d"
    (is "?k2 = ?k1")
proof (rule antisym)
  let ?r = "drop (settled_len s d) s @ b"
  note k1 = longest_suffix_prefix_le [OF assms(2), of "s @ b"] longest_suffix_prefix_max [OF assms(1), where s = "s @ b"]
  note k2 = longest_suffix_prefix_le [OF assms(2), of ?r] longest_suffix_prefix_max [OF assms(1), where s = ?r]
  have "drop (settled_len s d) (s @ b) = ?r" using settled_len_le [of s d] by simp
  then have "suffix ?r (s @ b)" using suffix_drop [of "settled_len s d" "s @ b"] by simp
  then have "suffix (take ?k2 d) (s @ b)" by (rule suffix_order.trans [OF k2(3)])
  then show "?k2 \<le> ?k1" by (rule k1(4) [OF k2(1)])
  show "?k1 \<le> ?k2"
  proof (cases "?k1 \<le> length ?r")
    case True
    then have "length (take ?k1 d) \<le> length ?r" by simp
    from suffix_length_suffix [OF k1(3) \<open>suffix ?r (s @ b)\<close> this]
    show ?thesis by (rule k2(4) [OF k1(1)])
  next
    case False
    define j where "j = length s + length b - ?k1"
    have j: "j < settled_len s d" "length s - j < length d" "length s + length b - j = ?k1" "j \<le> length s"
      using False k1(1,2) settled_len_le [of s d] unfolding j_def by simp_all
    have "take ?k1 d = drop j (s @ b)"
      using suffix_as_drop [OF k1(3)] k1(1) by (simp add: j_def)
    then have "take ?k1 d = drop j s @ b" using j(4) by simp
    then have "prefix (drop j s) (take ?k1 d)" by simp
    then have "prefix (drop j s) d" by (rule prefix_order.trans) (rule take_is_prefix)
    with no_partial [OF assms j(1,2)] show ?thesis by blast
  qed
qed

lemma kept_is_start:
  assumes "d \<noteq> []"
  shows "drop (settled_len s d) s = take (longest_suffix_prefix_len s d) d"
  using suffix_as_drop [OF longest_suffix_prefix_le(3) [OF assms, of s]]
    longest_suffix_prefix_le(1,2) [OF assms, of s]
  by (simp add: settled_len_def)

section \<open>The loop ends\<close>

text \<open>What \<open>new\<close> asserts, and the tag that is open has its delimiter from the specifications.\<close>

definition delims_ok :: "'a inline_parser \<Rightarrow> bool" where
  "delims_ok p \<longleftrightarrow> ip_specs p \<noteq> [] \<and>
     list_all (\<lambda>sp. spec_open sp \<noteq> [] \<and> spec_close sp \<noteq> []) (ip_specs p) \<and>
     (case ip_active p of None \<Rightarrow> True | Some a \<Rightarrow> ot_close a \<in> spec_close ` set (ip_specs p))"

text \<open>Between two calls the parser holds back only what may be the start of a delimiter.\<close>

definition held_ok :: "'a inline_parser \<Rightarrow> bool" where
  "held_ok p =
     (case ip_active p of
        Some a \<Rightarrow> strict_prefix (ip_pending p) (ot_close a)
      | None \<Rightarrow> list_ex (\<lambda>sp. strict_prefix (ip_pending p) (spec_open sp)) (ip_specs p))"

lemma new_inline_ok: "new_inline specs = Some p \<Longrightarrow> delims_ok p \<and> held_ok p"
  by (cases specs) (auto simp: strict_prefix_def new_inline_def delims_ok_def held_ok_def list_all_iff list_ex_iff split: if_splits)

lemma min_open_mem: "min_open xs = Some x \<Longrightarrow> x \<in> set xs"
  by (induction xs arbitrary: x) (auto split: option.splits if_splits)

lemma find_next_open_SomeD:
  assumes "find_next_open p = Some (i, n)"
  shows "n < length (ip_specs p)" "find_str (spec_open (ip_specs p ! n)) (ip_pending p) = Some i"
  using assms
  by (auto simp: find_next_open_def List.map_filter_def in_set_enumerate_eq dest!: min_open_mem)

lemma take_strict_prefix: "k < length d \<Longrightarrow> strict_prefix (take k d) d"
  by (metis length_take min.absorb4 nat_less_le strict_prefix_def take_is_prefix)

lemma foldr_max_mem: "xs \<noteq> [] \<Longrightarrow> foldr max xs 0 \<in> set (xs :: nat list)"
proof (induction xs)
  case (Cons x xs)
  then show ?case by (cases "xs = []") (auto simp: max_def)
qed simp

lemma open_prefix_kept:
  assumes "delims_ok p"
  shows "list_ex (\<lambda>sp. strict_prefix
    (drop (length (ip_pending p) - max_open_prefix_suffix_len p) (ip_pending p)) (spec_open sp)) (ip_specs p)"
proof -
  have "max_open_prefix_suffix_len p
    \<in> (\<lambda>sp. longest_suffix_prefix_len (ip_pending p) (spec_open sp)) ` set (ip_specs p)"
    using assms foldr_max_mem [of "map (\<lambda>sp. longest_suffix_prefix_len (ip_pending p) (spec_open sp)) (ip_specs p)"]
    by (simp add: max_open_prefix_suffix_len_def delims_ok_def)
  then obtain sp where sp: "sp \<in> set (ip_specs p)"
    "max_open_prefix_suffix_len p = longest_suffix_prefix_len (ip_pending p) (spec_open sp)" by blast
  have "spec_open sp \<noteq> []" using assms sp(1) by (simp add: delims_ok_def list_all_iff)
  from kept_is_start [OF this, of "ip_pending p"] longest_suffix_prefix_le(1) [OF this, of "ip_pending p"] sp
  show ?thesis unfolding list_ex_iff settled_len_def by (metis take_strict_prefix)
qed

lemma find_str_shrinks: "find_str d s = Some i \<Longrightarrow> d \<noteq> [] \<Longrightarrow> length s - (i + length d) < length s"
  using find_str_SomeD(1) [of d s i] by (cases d) auto

lemma push_loop_returns:
  "delims_ok p \<Longrightarrow> \<exists>out' q. push_loop p out = Some (out', q) \<and> delims_ok q \<and> held_ok q"
proof (induction "length (ip_pending p)" arbitrary: p out rule: less_induct)
  case less
  show ?case
  proof (cases "ip_active p")
    case (Some a)
    have d: "ot_close a \<noteq> []" using less.prems Some by (auto simp: delims_ok_def list_all_iff)
    show ?thesis
    proof (cases "find_str (ot_close a) (ip_pending p)")
      case (Some i)
      let ?p = "p\<lparr>ip_active := None, ip_pending := drop (i + length (ot_close a)) (ip_pending p)\<rparr>"
      have "length (ip_pending ?p) < length (ip_pending p)" using find_str_shrinks [OF Some d] by simp
      moreover have "delims_ok ?p" using less.prems by (simp add: delims_ok_def)
      ultimately show ?thesis
        using less.hyps [of ?p] \<open>ip_active p = Some a\<close> Some by (subst push_loop.simps) simp
    next
      case None
      then show ?thesis
        using \<open>ip_active p = Some a\<close> less.prems kept_is_start [OF d, of "ip_pending p"]
          longest_suffix_prefix_le(1) [OF d, of "ip_pending p"]
        by (subst push_loop.simps)
          (simp add: Let_def delims_ok_def held_ok_def settled_len_def take_strict_prefix)
    qed
  next
    case None
    show ?thesis
    proof (cases "find_next_open p")
      case (Some in')
      then obtain i n where n: "find_next_open p = Some (i, n)" by (cases in') simp
      let ?sp = "ip_specs p ! n"
      let ?p = "p\<lparr>ip_pending := drop (i + length (spec_open ?sp)) (ip_pending p),
        ip_active := Some \<lparr>ot_tag = spec_tag ?sp, ot_close = spec_close ?sp, ot_content = []\<rparr>\<rparr>"
      note i = find_next_open_SomeD [OF n]
      have "spec_open ?sp \<noteq> []" using less.prems i(1) by (simp add: delims_ok_def list_all_length)
      then have "length (ip_pending ?p) < length (ip_pending p)" using find_str_shrinks [OF i(2)] by simp
      moreover have "delims_ok ?p" using less.prems i(1) by (simp add: delims_ok_def)
      ultimately show ?thesis
        using less.hyps [of ?p] None n by (subst push_loop.simps) (simp add: Let_def)
    next
      case none: None
      then show ?thesis
        using None less.prems open_prefix_kept [OF less.prems]
        by (subst push_loop.simps) (simp add: Let_def delims_ok_def held_ok_def)
    qed
  qed
qed

section \<open>One tag with ASCII delimiters\<close>

definition ascii_delim :: "string \<Rightarrow> bool" where
  "ascii_delim d \<longleftrightarrow> d \<noteq> [] \<and> list_all is_ascii d"

definition one_tag :: "'a inline_parser \<Rightarrow> bool" where
  "one_tag p =
     (case ip_specs p of
        [sp] \<Rightarrow> ascii_delim (spec_open sp) \<and> ascii_delim (spec_close sp) \<and>
          (case ip_active p of None \<Rightarrow> True | Some a \<Rightarrow> ot_close a = spec_close sp)
      | _ \<Rightarrow> False)"

text \<open>The delimiter the parser waits for, what is done with the text before it and where it goes on.\<close>

definition awaited :: "'a inline_parser \<Rightarrow> string" where
  "awaited p = (case ip_active p of Some a \<Rightarrow> ot_close a | None \<Rightarrow> spec_open (hd (ip_specs p)))"

definition emit :: "'a inline_parser \<Rightarrow> string \<Rightarrow> 'a extracted_tag text_chunk \<Rightarrow> 'a extracted_tag text_chunk" where
  "emit p s out = (case ip_active p of Some a \<Rightarrow> close_tag s a out | None \<Rightarrow> show_text s out)"

definition past :: "'a inline_parser \<Rightarrow> string \<Rightarrow> 'a inline_parser" where
  "past p rest =
     (case ip_active p of
        Some a \<Rightarrow> p\<lparr>ip_active := None, ip_pending := rest\<rparr>
      | None \<Rightarrow> let spec = hd (ip_specs p) in
          p\<lparr>ip_pending := rest,
            ip_active := Some \<lparr>ot_tag = spec_tag spec, ot_close = spec_close spec, ot_content = []\<rparr>\<rparr>)"

definition hold ::
  "'a inline_parser \<Rightarrow> nat \<Rightarrow> 'a extracted_tag text_chunk \<Rightarrow> 'a extracted_tag text_chunk \<times> 'a inline_parser" where
  "hold p n out =
     (case ip_active p of
        Some a \<Rightarrow> (out, p\<lparr>ip_active := Some (a\<lparr>ot_content := ot_content a @ take n (ip_pending p)\<rparr>),
                         ip_pending := drop n (ip_pending p)\<rparr>)
      | None \<Rightarrow> (show_text (take n (ip_pending p)) out, p\<lparr>ip_pending := drop n (ip_pending p)\<rparr>))"

lemma one_tagE:
  assumes "one_tag p"
  obtains sp where "ip_specs p = [sp]" "ascii_delim (spec_open sp)" "ascii_delim (spec_close sp)"
    "\<And>a. ip_active p = Some a \<Longrightarrow> ot_close a = spec_close sp"
  using assms by (auto simp: one_tag_def split: list.splits option.splits)

lemma one_tag_delims: "one_tag p \<Longrightarrow> delims_ok p"
  by (elim one_tagE) (auto simp: delims_ok_def ascii_delim_def split: option.splits)

lemma one_tag_awaited: "one_tag p \<Longrightarrow> ascii_delim (awaited p)"
  by (elim one_tagE) (auto simp: awaited_def split: option.splits)

lemma one_tag_pending [simp]:
  "one_tag (p\<lparr>ip_pending := s\<rparr>) = one_tag p" "awaited (p\<lparr>ip_pending := s\<rparr>) = awaited p"
  "past (p\<lparr>ip_pending := s\<rparr>) r = past p r" "emit (p\<lparr>ip_pending := s\<rparr>) t = emit p t"
  by (simp_all add: one_tag_def awaited_def past_def emit_def fun_eq_iff Let_def split: option.splits list.splits)

lemma one_tag_past [simp]: "one_tag p \<Longrightarrow> one_tag (past p r)" "ip_pending (past p r) = r"
   apply (elim one_tagE)
   apply (auto simp: one_tag_def past_def Let_def split: option.splits)
  done

lemma past_pending [simp]: "(past p r)\<lparr>ip_pending := s\<rparr> = past p s"
  by (simp add: past_def Let_def split: option.splits)

lemma push_loop_one:
  assumes "one_tag p"
  shows "push_loop p out =
    (case find_str (awaited p) (ip_pending p) of
       Some i \<Rightarrow> push_loop (past p (drop (i + length (awaited p)) (ip_pending p))) (emit p (take i (ip_pending p)) out)
     | None \<Rightarrow> Some (hold p (settled_len (ip_pending p) (awaited p)) out))"
proof -
  obtain sp where sp: "ip_specs p = [sp]" using assms by (rule one_tagE)
  have "find_next_open p = map_option (\<lambda>i. (i, 0)) (find_str (spec_open sp) (ip_pending p))"
    by (cases "find_str (spec_open sp) (ip_pending p)")
      (simp_all add: find_next_open_def sp List.map_filter_def)
  then show ?thesis
    by (subst push_loop.simps)
      (simp add: sp awaited_def past_def emit_def hold_def settled_len_def max_open_prefix_suffix_len_def
         Let_def split: option.splits)
qed

text \<open>What is held back is taken up again by the next chunk.\<close>

lemma hold_facts:
  assumes "hold p n out = (out1, q)"
  shows "ip_pending q = drop n (ip_pending p)" "one_tag q = one_tag p" "awaited q = awaited p"
    "past q r = past p r" "emit q t out1 = emit p (take n (ip_pending p) @ t) out"
  using assms
  by (auto simp: hold_def one_tag_def awaited_def past_def emit_def show_text_def close_tag_def Let_def
      split: option.splits list.splits)

lemma take_drop_past:
  assumes "n \<le> length s"
  shows "take (n + m) (s @ b) = take n s @ take m (drop n s @ b)" "drop (n + m) (s @ b) = drop m (drop n s @ b)"
proof -
  have "take n (s @ b) = take n s" "drop n (s @ b) = drop n s @ b" using assms by simp_all
  then show "take (n + m) (s @ b) = take n s @ take m (drop n s @ b)" "drop (n + m) (s @ b) = drop m (drop n s @ b)"
    by (metis take_add, metis drop_drop add.commute)
qed

lemma hold_hold:
  assumes "hold p n out = (out1, q)" "n \<le> length (ip_pending p)"
  shows "hold (q\<lparr>ip_pending := ip_pending q @ b\<rparr>) m out1 =
    hold (p\<lparr>ip_pending := ip_pending p @ b\<rparr>) (n + m) out"
  using assms
  by (auto simp: hold_def show_text_def take_drop_past simp del: take_append drop_append split: option.splits)

lemma push_loop_append:
  "one_tag p \<Longrightarrow> push_loop p out = Some (out1, q) \<Longrightarrow>
   push_loop (p\<lparr>ip_pending := ip_pending p @ b\<rparr>) out = push_loop (q\<lparr>ip_pending := ip_pending q @ b\<rparr>) out1"
proof (induction "length (ip_pending p)" arbitrary: p out rule: less_induct)
  case less
  let ?d = "awaited p" and ?s = "ip_pending p"
  have d: "?d \<noteq> []" "list_all is_ascii ?d" using one_tag_awaited [OF less.prems(1)] by (simp_all add: ascii_delim_def)
  show ?case
  proof (cases "find_str ?d ?s")
    case (Some i)
    let ?p = "past p (drop (i + length ?d) ?s)"
    have "i + length ?d \<le> length ?s" using find_str_SomeD [OF Some] by simp
    then have "push_loop (p\<lparr>ip_pending := ?s @ b\<rparr>) out
      = push_loop (?p\<lparr>ip_pending := ip_pending ?p @ b\<rparr>) (emit p (take i ?s) out)"
      using less.prems(1) Some find_str_append [OF Some, of b] by (subst push_loop_one) simp_all
    moreover have "push_loop ?p (emit p (take i ?s) out) = Some (out1, q)"
      using less.prems Some by (subst (asm) push_loop_one) simp_all
    ultimately show ?thesis
      using less.hyps [of ?p] less.prems(1) find_str_shrinks [OF Some d(1)] by simp
  next
    case None
    let ?n = "settled_len ?s ?d"
    have h: "hold p ?n out = (out1, q)" using less.prems None by (subst (asm) push_loop_one) simp_all
    note hf = hold_facts [OF h] and n = settled_len_le [of ?s ?d]
    let ?r = "drop ?n ?s @ b"
    show ?thesis
    proof (cases "find_str ?d ?r")
      case f: None
      have k: "settled_len (?s @ b) ?d = ?n + settled_len ?r ?d"
        using longest_settled [OF d(2,1), of ?s b] longest_suffix_prefix_le(2) [OF d(1), of ?r] n
        by (simp add: settled_len_def)
      show ?thesis
        using less.prems(1) f find_str_settled [OF d(2,1) None, of b] hf hold_hold [OF h n] k
        by (simp add: push_loop_one)
    next
      case (Some j)
      show ?thesis
        using less.prems(1) Some find_str_settled [OF d(2,1) None, of b] hf take_drop_past [OF n]
        by (simp add: push_loop_one add.assoc del: take_append drop_append)
    qed
  qed
qed

lemma emit_cat: "emit p t (cat_chunk a out) = cat_chunk a (emit p t out)"
  by (simp add: emit_def close_tag_def show_text_def cat_chunk_def split: option.splits)

lemma hold_cat: "hold p n (cat_chunk a out) = map_prod (cat_chunk a) id (hold p n out)"
  by (simp add: hold_def show_text_def cat_chunk_def split: option.splits)

lemma push_loop_cat:
  "one_tag p \<Longrightarrow> push_loop p (cat_chunk a out) = map_option (map_prod (cat_chunk a) id) (push_loop p out)"
proof (induction "length (ip_pending p)" arbitrary: p out rule: less_induct)
  case less
  let ?d = "awaited p" and ?s = "ip_pending p"
  have d: "?d \<noteq> []" using one_tag_awaited [OF less.prems] by (simp add: ascii_delim_def)
  show ?case
  proof (cases "find_str ?d ?s")
    case (Some i)
    then show ?thesis
      using less.hyps [of "past p (drop (i + length ?d) ?s)"] less.prems find_str_shrinks [OF Some d]
      by (simp add: push_loop_one [OF less.prems] emit_cat)
  qed (simp add: push_loop_one [OF less.prems] hold_cat)
qed

lemma push_loop_one_returns:
  "one_tag p \<Longrightarrow> \<exists>out' q. push_loop p out = Some (out', q) \<and> one_tag q \<and> ip_specs q = ip_specs p \<and>
     strict_prefix (ip_pending q) (awaited q)"
proof (induction "length (ip_pending p)" arbitrary: p out rule: less_induct)
  case less
  let ?d = "awaited p" and ?s = "ip_pending p"
  have d: "?d \<noteq> []" using one_tag_awaited [OF less.prems] by (simp add: ascii_delim_def)
  show ?case
  proof (cases "find_str ?d ?s")
    case (Some i)
    have "ip_specs (past p r) = ip_specs p" for r by (simp add: past_def Let_def split: option.splits)
    then show ?thesis
      using less.hyps [of "past p (drop (i + length ?d) ?s)" "emit p (take i ?s) out"] less.prems
        find_str_shrinks [OF Some d] Some by (simp add: push_loop_one [OF less.prems])
  next
    case None
    obtain out1 q where h: "hold p (settled_len ?s ?d) out = (out1, q)" by force
    have "strict_prefix (ip_pending q) (awaited q)"
      using hold_facts [OF h] kept_is_start [OF d, of ?s] longest_suffix_prefix_le(1) [OF d, of ?s]
      by (simp add: take_strict_prefix)
    moreover have "ip_specs q = ip_specs p" using h by (auto simp: hold_def split: option.splits)
    ultimately show ?thesis
      using hold_facts [OF h] less.prems None h by (simp add: push_loop_one [OF less.prems])
  qed
qed

lemma push_loop_whole:
  "one_tag p \<Longrightarrow> whole_text (ip_pending p) \<Longrightarrow> whole_text (visible_text out) \<Longrightarrow>
   push_loop p out = Some (out', q) \<Longrightarrow> whole_text (visible_text out')"
proof (induction "length (ip_pending p)" arbitrary: p out rule: less_induct)
  case less
  let ?d = "awaited p" and ?s = "ip_pending p"
  have d: "?d \<noteq> []" "list_all is_ascii ?d"
    using one_tag_awaited [OF less.prems(1)] by (simp_all add: ascii_delim_def)
  show ?case
  proof (cases "find_str ?d ?s")
    case (Some i)
    have "?s = take i ?s @ ?d @ drop (i + length ?d) ?s" by (rule find_str_split [OF Some])
    then have w: "whole_text (take i ?s)" "whole_text (drop (i + length ?d) ?s)"
      using whole_text_around [OF _ d(2,1)] less.prems(2) by metis+
    then have "whole_text (visible_text (emit p (take i ?s) out))"
      using less.prems(3) by (simp add: emit_def show_text_def close_tag_def whole_text_append split: option.splits)
    with w less.hyps [of "past p (drop (i + length ?d) ?s)" "emit p (take i ?s) out"] less.prems
      find_str_shrinks [OF Some d(1)] Some show ?thesis by (simp add: push_loop_one [OF less.prems(1)])
  next
    case None
    let ?n = "settled_len ?s ?d"
    have "?s = take ?n ?s @ take (longest_suffix_prefix_len ?s ?d) ?d"
      using kept_is_start [OF d(1), of ?s] by (metis append_take_drop_id)
    then have "whole_text (take ?n ?s)"
      using whole_text_before [of "take ?n ?s" "take (longest_suffix_prefix_len ?s ?d) ?d"] d(2) less.prems(2)
      by (metis list_all_append append_take_drop_id)
    moreover have "hold p ?n out = (out', q)" using less.prems None by (simp add: push_loop_one [OF less.prems(1)])
    ultimately show ?thesis
      using less.prems(3) by (auto simp: hold_def show_text_def whole_text_append split: option.splits)
  qed
qed

lemma push_nothing_one:
  assumes "one_tag p" "strict_prefix (ip_pending p) (awaited p)"
  shows "push_loop p out = Some (out, p)"
proof -
  let ?d = "awaited p" and ?s = "ip_pending p"
  have d: "?d \<noteq> []" "list_all is_ascii ?d"
    using one_tag_awaited [OF assms(1)] by (simp_all add: ascii_delim_def)
  have l: "length ?s < length ?d" using assms(2) by (simp add: prefix_length_less)
  then have "find_str ?d ?s = None" using find_str_SomeD [of ?d ?s] by (cases "find_str ?d ?s") auto
  moreover have "take (length ?s) ?d = ?s"
    using assms(2) by (auto simp: strict_prefix_def prefix_def)
  then have "settled_len ?s ?d = 0"
    using longest_suffix_prefix_max [OF d(2) l, of ?s] by (simp add: settled_len_def)
  ultimately show ?thesis
    by (simp add: push_loop_one [OF assms(1)] hold_def show_text_def split: option.splits)
qed

lemma feed_inline_returns:
  "delims_ok p \<Longrightarrow> held_ok p \<Longrightarrow>
   \<exists>out q. feed inline_push_str empty_chunk cat_chunk p cs = Some (out, q) \<and> held_ok q"
proof (induction cs arbitrary: p)
  case (Cons c cs)
  have "delims_ok (p\<lparr>ip_pending := ip_pending p @ c\<rparr>)"
    using Cons.prems(1) by (simp add: delims_ok_def split: option.splits)
  then obtain out q where q: "inline_push_str p c = Some (out, q)" "delims_ok q" "held_ok q"
    using push_loop_returns unfolding inline_push_str_def by blast
  with Cons.IH [OF q(2,3)] show ?case by auto
qed simp

text \<open>
  With several tags the cut does matter when one opener begins another. Within a chunk the longest opener is
  taken, but a chunk that ends after the shorter one opens that one.
\<close>

definition nested_openers :: "nat inline_parser" where
  "nested_openers =
     \<lparr>ip_specs = [\<lparr>spec_tag = 1, spec_open = ''<a'', spec_close = ''</a>''\<rparr>,
                   \<lparr>spec_tag = 2, spec_open = ''<ab'', spec_close = ''</ab>''\<rparr>],
      ip_pending = [], ip_active = None\<rparr>"

lemma longest_opener_depends_on_cut:
  "map_option (\<lambda>(out, p). cat_chunk out (fst (inline_finish p)))
     (feed inline_push_str empty_chunk cat_chunk nested_openers [''x<aby</ab>z'']) =
   Some \<lparr>visible_text = ''xz'', extracted = [\<lparr>et_tag = 2, et_content = ''y''\<rparr>]\<rparr>"
  "map_option (\<lambda>(out, p). cat_chunk out (fst (inline_finish p)))
     (feed inline_push_str empty_chunk cat_chunk nested_openers [''x<a'', ''by</ab>z'']) =
   Some \<lparr>visible_text = ''x'', extracted = [\<lparr>et_tag = 1, et_content = ''by</ab>z''\<rparr>]\<rparr>"
  by code_simp+

text \<open>
  C29. Parsing hidden tags always ends: for every parser that \<open>InlineHiddenTagParser::new\<close> accepts,
  with any number of tags, and any chunks, the loop of every \<open>push_str\<close> returns, and
  afterwards the parser holds back no more than a proper start of the delimiter it waits for.
\<close>

theorem inline_loop_ends:
  assumes "new_inline specs = Some p"
  shows "\<exists>out q. feed inline_push_str empty_chunk cat_chunk p cs = Some (out, q) \<and> held_ok q"
  using new_inline_ok [OF assms] feed_inline_returns by blast

definition two_tags :: "nat inline_tag_spec list" where
  "two_tags = [\<lparr>spec_tag = 1, spec_open = ''<a>'', spec_close = ''</a>''\<rparr>,
               \<lparr>spec_tag = 2, spec_open = ''<ab>'', spec_close = ''</ab>''\<rparr>]"

theorem inline_loop_ends_witness:
  "new_inline two_tags = Some \<lparr>ip_specs = two_tags, ip_pending = [], ip_active = None\<rparr> \<and>
   (\<exists>out q. feed inline_push_str empty_chunk cat_chunk
      \<lparr>ip_specs = two_tags, ip_pending = [], ip_active = None\<rparr> [''x<a'', ''b>y</'', ''ab>z<''] = Some (out, q) \<and>
      held_ok q)"
proof -
  have "new_inline two_tags = Some \<lparr>ip_specs = two_tags, ip_pending = [], ip_active = None\<rparr>" by code_simp
  with inline_loop_ends [OF this] show ?thesis by blast
qed

end
