(* ===== verification/Citation_Stream.thy ===== *)
theory Citation_Stream
  imports Inline_Tags
begin

text \<open>
  The parser of memory citations: \<open>codex/codex-rs/utils/stream-parser/src/citation.rs\<close>, an
  instance of the hidden tags of \<open>Inline_Tags\<close>. It meets the contract \<open>stream_text_parser\<close>, and
  what it gives for a stream is what a plain cut of the whole text gives.
\<close>

section \<open>Citations\<close>

datatype citation_tag = Citation

definition CITATION_OPEN :: string where "CITATION_OPEN = ''<oai-mem-citation>''"
definition CITATION_CLOSE :: string where "CITATION_CLOSE = ''</oai-mem-citation>''"

definition citation_specs :: "citation_tag inline_tag_spec list" where
  "citation_specs = [\<lparr>spec_tag = Citation, spec_open = CITATION_OPEN, spec_close = CITATION_CLOSE\<rparr>]"

definition new_citation :: "citation_tag inline_parser" where
  "new_citation = \<lparr>ip_specs = citation_specs, ip_pending = [], ip_active = None\<rparr>"

definition citation_chunk :: "'a extracted_tag text_chunk \<Rightarrow> string text_chunk" where
  "citation_chunk inner =
     \<lparr>visible_text = visible_text inner, extracted = map et_content (extracted inner)\<rparr>"

definition citation_push_str ::
  "citation_tag inline_parser \<Rightarrow> string \<Rightarrow> (string text_chunk \<times> citation_tag inline_parser) option" where
  "citation_push_str p chunk =
     map_option (\<lambda>(inner, q). (citation_chunk inner, q)) (inline_push_str p chunk)"

definition citation_finish ::
  "citation_tag inline_parser \<Rightarrow> string text_chunk \<times> citation_tag inline_parser" where
  "citation_finish p = (let (inner, q) = inline_finish p in (citation_chunk inner, q))"

definition strip_citations :: "string \<Rightarrow> (string \<times> string list) option" where
  "strip_citations s =
     map_option (\<lambda>(out, p).
       let tail = fst (citation_finish p) in
       (visible_text out @ visible_text tail, extracted out @ extracted tail))
     (citation_push_str new_citation s)"

section \<open>Citations are found however the text is cut\<close>

definition citation_ok :: "citation_tag inline_parser \<Rightarrow> bool" where
  "citation_ok p \<longleftrightarrow> ip_specs p = citation_specs \<and> one_tag p \<and> strict_prefix (ip_pending p) (awaited p)"

lemma citation_chunk_cat: "citation_chunk (cat_chunk a b) = cat_chunk (citation_chunk a) (citation_chunk b)"
  by (simp add: citation_chunk_def cat_chunk_def)

lemma new_citation_new: "new_inline citation_specs = Some new_citation"
  by (simp add: new_inline_def citation_specs_def CITATION_OPEN_def CITATION_CLOSE_def new_citation_def)

lemma new_citation_ok: "citation_ok new_citation"
  by code_simp

interpretation citations: stream_text_parser citation_push_str empty_chunk cat_chunk citation_ok
proof
  fix p :: "citation_tag inline_parser" and s a b :: string and q r out out'
  assume ok: "citation_ok p"
  then have p: "one_tag p" "ip_specs p = citation_specs" by (simp_all add: citation_ok_def)
  show "citation_push_str p [] = Some (empty_chunk, p)"
    using ok push_nothing_one [of p empty_chunk]
    by (simp add: citation_push_str_def inline_push_str_def citation_ok_def citation_chunk_def empty_chunk_def)
  show "\<exists>out q. citation_push_str p s = Some (out, q) \<and> citation_ok q"
    using push_loop_one_returns [of "p\<lparr>ip_pending := ip_pending p @ s\<rparr>" empty_chunk] p
    by (auto simp: citation_push_str_def inline_push_str_def citation_ok_def)
  assume "citation_push_str p a = Some (out, q)" "citation_push_str q b = Some (out', r)"
  then obtain o1 o2 where o1: "inline_push_str p a = Some (o1, q)" "out = citation_chunk o1"
    and o2: "inline_push_str q b = Some (o2, r)" "out' = citation_chunk o2"
    by (auto simp: citation_push_str_def)
  have q: "one_tag q"
    using push_loop_one_returns [of "p\<lparr>ip_pending := ip_pending p @ a\<rparr>" empty_chunk] p(1) o1(1)
    by (auto simp: inline_push_str_def)
  have "inline_push_str p (a @ b) = push_loop (q\<lparr>ip_pending := ip_pending q @ b\<rparr>) (cat_chunk o1 empty_chunk)"
    using push_loop_append [of "p\<lparr>ip_pending := ip_pending p @ a\<rparr>" empty_chunk o1 q b] p(1) o1(1)
    by (simp add: inline_push_str_def)
  also have "\<dots> = Some (cat_chunk o1 o2, r)"
    using q o2(1) by (simp only: push_loop_cat one_tag_pending) (simp add: inline_push_str_def)
  finally show "citation_push_str p (a @ b) = Some (cat_chunk out out', r)"
    by (simp add: citation_push_str_def citation_chunk_cat o1 o2)
qed

text \<open>The reference: citations are cut out of a whole text, and one without an end goes up to the end.\<close>

function cut_citations :: "string \<Rightarrow> string text_chunk" where
  "cut_citations s =
     (case find_str CITATION_OPEN s of
        None \<Rightarrow> \<lparr>visible_text = s, extracted = []\<rparr>
      | Some i \<Rightarrow>
          (let r = drop (i + length CITATION_OPEN) s in
           case find_str CITATION_CLOSE r of
             None \<Rightarrow> \<lparr>visible_text = take i s, extracted = [r]\<rparr>
           | Some j \<Rightarrow> cat_chunk \<lparr>visible_text = take i s, extracted = [take j r]\<rparr>
               (cut_citations (drop (j + length CITATION_CLOSE) r))))"
  by pat_completeness auto
termination
proof (relation "measure length", simp)
  fix s i r j
  assume f: "find_str CITATION_OPEN s = Some i" and r: "r = drop (i + length CITATION_OPEN) s"
  have "length r < length s" using find_str_shrinks [OF f] r by (simp add: CITATION_OPEN_def)
  then show "(drop (j + length CITATION_CLOSE) r, s) \<in> measure length" by simp
qed

declare cut_citations.simps [simp del]

lemma citation_delims:
  "CITATION_OPEN \<noteq> []" "CITATION_CLOSE \<noteq> []"
  by (simp_all add: CITATION_OPEN_def CITATION_CLOSE_def)

definition at_text :: "string \<Rightarrow> citation_tag inline_parser" where
  "at_text s = new_citation\<lparr>ip_pending := s\<rparr>"

definition in_citation :: "string \<Rightarrow> citation_tag inline_parser" where
  "in_citation s =
     \<lparr>ip_specs = citation_specs, ip_pending = s,
      ip_active = Some \<lparr>ot_tag = Citation, ot_close = CITATION_CLOSE, ot_content = []\<rparr>\<rparr>"

lemma citation_states:
  "one_tag (at_text s)" "one_tag (in_citation s)"
  "awaited (at_text s) = CITATION_OPEN" "awaited (in_citation s) = CITATION_CLOSE"
  "past (at_text s) r = in_citation r" "past (in_citation s) r = at_text r"
proof -
  have "one_tag new_citation" using new_citation_ok by (simp add: citation_ok_def)
  then show "one_tag (at_text s)" by (simp add: at_text_def)
  show "past (at_text s) r = in_citation r" for s r
    by (simp add: past_def at_text_def new_citation_def in_citation_def citation_specs_def)
  then show "one_tag (in_citation s)" using one_tag_past(1) [OF \<open>one_tag (at_text s)\<close>, of s] by simp
qed (simp_all add: awaited_def past_def at_text_def in_citation_def new_citation_def citation_specs_def)

lemma citation_fields [simp]:
  "ip_pending (at_text s) = s" "ip_pending (in_citation s) = s"
  "ip_active (at_text s) = None"
  "ip_active (in_citation s) = Some \<lparr>ot_tag = Citation, ot_close = CITATION_CLOSE, ot_content = []\<rparr>"
  by (simp_all add: at_text_def in_citation_def new_citation_def)

lemmas chunk_defs = citation_chunk_def cat_chunk_def show_text_def close_tag_def empty_chunk_def emit_def

lemma finish_held:
  assumes "hold p n out = (out', q)"
  shows "cat_chunk (citation_chunk out') (fst (citation_finish q)) = citation_chunk (emit p (ip_pending p) out)"
  using assms
  by (auto simp: hold_def citation_finish_def inline_finish_def chunk_defs split: option.splits)

lemma loop_held:
  assumes "one_tag p" "find_str (awaited p) (ip_pending p) = None"
  shows "\<exists>out' q. push_loop p out = Some (out', q) \<and>
    cat_chunk (citation_chunk out') (fst (citation_finish q)) = citation_chunk (emit p (ip_pending p) out)"
  using push_loop_one [OF assms(1)] assms(2) finish_held
  by (cases "hold p (settled_len (ip_pending p) (awaited p)) out") simp

lemma loop_cut:
  "\<exists>out' q. push_loop (at_text s) out = Some (out', q) \<and>
     cat_chunk (citation_chunk out') (fst (citation_finish q)) = cat_chunk (citation_chunk out) (cut_citations s)"
proof (induction s arbitrary: out rule: cut_citations.induct)
  case (1 s)
  show ?case
  proof (cases "find_str CITATION_OPEN s")
    case None
    then show ?thesis
      using loop_held [OF citation_states(1), of s out]
      by (simp add: citation_states chunk_defs cut_citations.simps [of s])
  next
    case (Some i)
    let ?r = "drop (i + length CITATION_OPEN) s" and ?out = "show_text (take i s) out"
    have step: "push_loop (at_text s) out = push_loop (in_citation ?r) ?out"
      using Some by (simp add: push_loop_one [OF citation_states(1)] citation_states emit_def)
    show ?thesis
    proof (cases "find_str CITATION_CLOSE ?r")
      case None
      then show ?thesis
        using Some loop_held [OF citation_states(2), of ?r ?out]
        by (simp add: step citation_states chunk_defs cut_citations.simps [of s])
    next
      case close: (Some j)
      let ?out' = "emit (in_citation ?r) (take j ?r) ?out"
      have "push_loop (at_text s) out = push_loop (at_text (drop (j + length CITATION_CLOSE) ?r)) ?out'"
        using close by (simp add: step push_loop_one [OF citation_states(2)] citation_states)
      moreover have "citation_chunk ?out' = cat_chunk (citation_chunk out) \<lparr>visible_text = take i s, extracted = [take j ?r]\<rparr>"
        by (simp add: chunk_defs)
      ultimately show ?thesis
        using 1 [OF Some refl close, of ?out'] Some close
        by (simp add: cut_citations.simps [of s] Let_def cat_chunk_assoc)
    qed
  qed
qed

lemma push_then_finish:
  "\<exists>out q. citation_push_str new_citation s = Some (out, q) \<and>
     cat_chunk out (fst (citation_finish q)) = cut_citations s"
  using loop_cut [of s empty_chunk]
  by (auto simp: citation_push_str_def inline_push_str_def at_text_def new_citation_def citation_chunk_def empty_chunk_def cat_chunk_def)

text \<open>
  C30. Citations are found however the stream is cut: the visible text and the citations that
  \<open>CitationStreamParser\<close> gives for the chunks of a text, with those of \<open>finish\<close>, are the
  text with its citations cut out and their contents; \<open>strip_citations\<close> computes the same.
\<close>

theorem citation_stream_is_cut:
  assumes "list_all whole_text cs"
  shows "map_option (\<lambda>(out, p). cat_chunk out (fst (citation_finish p)))
      (feed citation_push_str empty_chunk cat_chunk new_citation cs) = Some (cut_citations (concat cs)) \<and>
    strip_citations s = Some (visible_text (cut_citations s), extracted (cut_citations s))"
proof -
  have "strip_citations s = Some (visible_text (cut_citations s), extracted (cut_citations s))"
    using push_then_finish [of s] by (auto simp: strip_citations_def Let_def simp flip: cat_chunk_simps(1,2))
  then show ?thesis
    using push_then_finish [of "concat cs"] citations.feed_concat [OF new_citation_ok assms] by force
qed

theorem citation_stream_is_cut_witness:
  "list_all whole_text [''a<oai-mem'', ''-citation>m1</oai-mem-'', ''citation>b''] \<and>
   map_option (\<lambda>(out, p). cat_chunk out (fst (citation_finish p)))
     (feed citation_push_str empty_chunk cat_chunk new_citation
        [''a<oai-mem'', ''-citation>m1</oai-mem-'', ''citation>b'']) =
     Some \<lparr>visible_text = ''ab'', extracted = [''m1'']\<rparr>"
proof -
  have w: "list_all whole_text [''a<oai-mem'', ''-citation>m1</oai-mem-'', ''citation>b'']" by code_simp
  have c: "cut_citations (concat [''a<oai-mem'', ''-citation>m1</oai-mem-'', ''citation>b'']) =
    \<lparr>visible_text = ''ab'', extracted = [''m1'']\<rparr>" by code_simp
  from w conjunct1 [OF citation_stream_is_cut [OF w]] show ?thesis unfolding c by (rule conjI)
qed

end
