(* ===== verification/Text_Trimming.thy ===== *)
theory Text_Trimming
  imports Stream_Text
begin

text \<open>
  What \<open>trim_start\<close> and \<open>trim_end\<close> do to a text of whole code points, and how they behave when
  the text grows. The parsers that decide on a line before it has ended rest on it.
\<close>

section \<open>Trimming, by code points\<close>

definition code_point :: "string \<Rightarrow> bool" where
  "code_point ch \<longleftrightarrow> chars ch = [ch] \<and> length ch = encoding_length (hd ch)"

lemma code_point_whole: "code_point ch \<Longrightarrow> whole_text ch \<and> ch \<noteq> []"
  by (auto simp: code_point_def whole_text_def)

lemma code_points: "whole_text s \<Longrightarrow> list_all code_point (chars s)"
proof (induction s rule: chars.induct)
  case (2 c cs)
  have t: "takeWhile is_continuation (takeWhile is_continuation cs) = takeWhile is_continuation cs"
    by simp
  have d: "dropWhile is_continuation (takeWhile is_continuation cs) = []"
    by (simp add: dropWhile_eq_Nil_conv) (meson set_takeWhileD)
  have "chars (c # takeWhile is_continuation cs) = [c # takeWhile is_continuation cs]"
    by (simp only: chars.simps t d)
  with 2 show ?case by (simp add: code_point_def whole_text_def)
qed simp

lemma chars_concat: "list_all code_point xs \<Longrightarrow> chars (concat xs) = xs \<and> whole_text (concat xs)"
proof (induction xs)
  case (Cons x xs)
  then show ?case
    using code_point_whole [of x] by (auto simp: chars_append whole_text_append code_point_def)
qed simp

lemma code_point_prefix:
  assumes "code_point w" "code_point x" "prefix w (x @ s)"
  shows "w = x"
proof -
  have "hd w = hd x"
    using assms code_point_whole by (cases w; cases x) auto
  then have "length w = length x" using assms(1,2) by (simp add: code_point_def)
  with assms(3) show ?thesis by (auto simp: prefix_def append_eq_append_conv)
qed

lemma code_point_suffix:
  assumes "code_point w" "list_all code_point (xs @ [x])" "suffix w (concat xs @ x)"
  shows "w = x"
proof -
  obtain a where a: "concat xs @ x = a @ w" using assms(3) by (auto simp: suffix_def)
  have "chars (concat xs @ x) = xs @ [x]" using chars_concat [OF assms(2)] by simp
  moreover have "chars (a @ w) = chars a @ [w]"
    using assms(1) code_point_whole by (simp add: chars_append code_point_def)
  ultimately show ?thesis using a by simp
qed

definition is_ws :: "string \<Rightarrow> bool" where
  "is_ws ch = (ch \<in> set unicode_ws)"

lemma ws_code_points: "list_all code_point unicode_ws"
  by code_simp

lemma ws_code_point: "w \<in> set unicode_ws \<Longrightarrow> code_point w"
  using ws_code_points by (simp add: list_all_iff)

lemma strip_all_one:
  assumes "\<And>w. w \<in> set ws \<Longrightarrow> w \<noteq> [] \<Longrightarrow> prefix w (x @ s) \<Longrightarrow> w = x" "x \<in> set ws" "x \<noteq> []"
  shows "strip_all ws (x @ s) = strip_all ws s"
proof -
  obtain r where r: "strip_one ws (x @ s) = Some r"
    using assms(2,3) strip_one_eq_None [of ws "x @ s"] by (cases "strip_one ws (x @ s)") auto
  then obtain w where "w \<in> set ws" "w \<noteq> []" "x @ s = w @ r" using strip_one_SomeD by blast
  then have "r = s" using assms(1) [of w] by (metis prefixI same_append_eq)
  with r show ?thesis by (simp add: strip_all.simps [of ws "x @ s"])
qed

lemma trim_start_chars: "list_all code_point xs \<Longrightarrow> trim_start (concat xs) = concat (dropWhile is_ws xs)"
proof (induction xs)
  case (Cons x xs)
  have p: "w = x" if "w \<in> set unicode_ws" "prefix w (x @ concat xs)" for w
    using code_point_prefix [OF ws_code_point [OF that(1)] _ that(2)] Cons.prems by simp
  show ?case
  proof (cases "is_ws x")
    case True
    then have "trim_start (x @ concat xs) = trim_start (concat xs)"
      unfolding trim_start_def
      using p Cons.prems code_point_whole [of x] by (intro strip_all_one) (simp_all add: is_ws_def)
    with Cons True show ?thesis by simp
  next
    case False
    then have "trim_start (x @ concat xs) = x @ concat xs"
      using p unfolding trim_start_eq_self is_ws_def by blast
    with False show ?thesis by simp
  qed
qed simp

lemma trim_end_chars:
  "list_all code_point xs \<Longrightarrow> trim_end (concat xs) = concat (rev (dropWhile is_ws (rev xs)))"
proof (induction xs rule: rev_induct)
  case (snoc x xs)
  have p: "w = x" if "w \<in> set unicode_ws" "suffix w (concat xs @ x)" for w
    using code_point_suffix [OF ws_code_point [OF that(1)] _ that(2)] snoc.prems by simp
  show ?case
  proof (cases "is_ws x")
    case True
    have "strip_all (map rev unicode_ws) (rev x @ rev (concat xs)) = strip_all (map rev unicode_ws) (rev (concat xs))"
    proof (rule strip_all_one)
      fix w assume "w \<in> set (map rev unicode_ws)" "prefix w (rev x @ rev (concat xs))"
      then have "rev w \<in> set unicode_ws" "suffix (rev w) (concat xs @ x)"
        by (auto simp: suffix_to_prefix)
      then show "w = rev x" using p by (metis rev_rev_ident)
    qed (use True snoc.prems code_point_whole [of x] in \<open>simp_all add: is_ws_def\<close>)
    then have "trim_end (concat xs @ x) = trim_end (concat xs)" by (simp add: trim_end_def)
    with snoc True show ?thesis by simp
  next
    case False
    then have "trim_end (concat xs @ x) = concat xs @ x"
      using p unfolding trim_end_eq_self is_ws_def by blast
    with False show ?thesis by simp
  qed
qed simp

text \<open>More text after a text that is not blank: what was trimmed before stays in front.\<close>

lemma trim_start_append:
  assumes "whole_text a" "whole_text b" "trim_start a \<noteq> []"
  shows "trim_start (a @ b) = trim_start a @ b"
proof -
  let ?x = "chars a" and ?y = "chars b"
  have c: "list_all code_point ?x" "list_all code_point (?x @ ?y)" using assms code_points by simp_all
  have "\<not> (\<forall>x \<in> set ?x. is_ws x)"
    using assms(3) trim_start_chars [OF c(1)] dropWhile_eq_Nil_conv [of is_ws ?x] by (metis concat.simps(1) concat_chars)
  then have "dropWhile is_ws (?x @ ?y) = dropWhile is_ws ?x @ ?y" by (auto simp: dropWhile_append)
  with trim_start_chars [OF c(1)] trim_start_chars [OF c(2)] show ?thesis by simp
qed

lemma trim_end_mono:
  assumes "whole_text a" "whole_text b"
  shows "prefix (trim_end a) (trim_end (a @ b))"
proof -
  let ?x = "chars a" and ?y = "chars b"
  have c: "list_all code_point ?x" "list_all code_point (?x @ ?y)" using assms code_points by simp_all
  have "\<exists>z. rev (dropWhile is_ws (rev (?x @ ?y))) = rev (dropWhile is_ws (rev ?x)) @ z"
  proof (cases "dropWhile is_ws (rev ?y) = []")
    case True
    then show ?thesis by (auto simp: dropWhile_append dropWhile_eq_Nil_conv)
  next
    case False
    have "rev (dropWhile is_ws (rev (?x @ ?y))) = ?x @ rev (dropWhile is_ws (rev ?y))"
      using False by (auto simp: dropWhile_append dropWhile_eq_Nil_conv)
    moreover have "?x = rev (dropWhile is_ws (rev ?x)) @ rev (takeWhile is_ws (rev ?x))"
      by (metis rev_append rev_rev_ident takeWhile_dropWhile_id)
    ultimately show ?thesis by (metis append_assoc)
  qed
  then obtain z where "rev (dropWhile is_ws (rev (?x @ ?y))) = rev (dropWhile is_ws (rev ?x)) @ z" ..
  with trim_end_chars [OF c(1)] trim_end_chars [OF c(2)] show ?thesis by simp
qed

lemma trim_start_whole: "whole_text a \<Longrightarrow> whole_text (trim_start a)"
  using trim_start_chars [OF code_points, of a] chars_concat [of "dropWhile is_ws (chars a)"] code_points [of a]
  by (metis concat_chars list_all_append takeWhile_dropWhile_id)

end
