(* ===== verification/Tagged_Lines.thy ===== *)
theory Tagged_Lines
  imports Text_Trimming
begin

text \<open>
  Tag blocks in streamed text whose tags stand alone on a line:
  \<open>codex/codex-rs/utils/stream-parser/src/tagged_line_parser.rs\<close>. A line is buffered until it is
  certain that it is no tag.
\<close>

section \<open>The parser\<close>

record 'a tag_spec =
  ts_open :: string
  ts_close :: string
  ts_tag :: 'a

datatype 'a tagged_segment =
    Normal string
  | TagStart 'a
  | TagDelta 'a string
  | TagEnd 'a

record 'a line_parser =
  lp_specs :: "'a tag_spec list"
  active_tag :: "'a option"
  detect_tag :: bool
  line_buffer :: string

definition new_lines :: "'a tag_spec list \<Rightarrow> 'a line_parser" where
  "new_lines specs = \<lparr>lp_specs = specs, active_tag = None, detect_tag = True, line_buffer = []\<rparr>"

definition push_segment :: "'a tagged_segment list \<Rightarrow> 'a tagged_segment \<Rightarrow> 'a tagged_segment list" where
  "push_segment segments segment =
     (case segment of
        Normal delta \<Rightarrow>
          if delta = [] then segments
          else (case rev segments of
                  Normal existing # _ \<Rightarrow> butlast segments @ [Normal (existing @ delta)]
                | _ \<Rightarrow> segments @ [Normal delta])
      | TagDelta tag delta \<Rightarrow>
          if delta = [] then segments
          else (case rev segments of
                  TagDelta existing_tag existing # _ \<Rightarrow>
                    if existing_tag = tag then butlast segments @ [TagDelta tag (existing @ delta)]
                    else segments @ [TagDelta tag delta]
                | _ \<Rightarrow> segments @ [TagDelta tag delta])
      | TagStart tag \<Rightarrow> segments @ [TagStart tag]
      | TagEnd tag \<Rightarrow> segments @ [TagEnd tag])"

definition push_text :: "'a line_parser \<Rightarrow> string \<Rightarrow> 'a tagged_segment list \<Rightarrow> 'a tagged_segment list" where
  "push_text p s segments =
     (case active_tag p of
        Some tag \<Rightarrow> push_segment segments (TagDelta tag s)
      | None \<Rightarrow> push_segment segments (Normal s))"

definition is_tag_prefix :: "'a line_parser \<Rightarrow> string \<Rightarrow> bool" where
  "is_tag_prefix p slug =
     (let slug = trim_end slug in
      list_ex (\<lambda>spec. starts_with (ts_open spec) slug \<or> starts_with (ts_close spec) slug) (lp_specs p))"

definition match_open :: "'a line_parser \<Rightarrow> string \<Rightarrow> 'a option" where
  "match_open p slug = map_option ts_tag (find (\<lambda>spec. ts_open spec = slug) (lp_specs p))"

definition match_close :: "'a line_parser \<Rightarrow> string \<Rightarrow> 'a option" where
  "match_close p slug = map_option ts_tag (find (\<lambda>spec. ts_close spec = slug) (lp_specs p))"

definition line_slug :: "string \<Rightarrow> string" where
  "line_slug line =
     trim_end (trim_start (case strip_suffix [nl] line of Some l \<Rightarrow> l | None \<Rightarrow> line))"

definition finish_tag_line ::
  "'a line_parser \<Rightarrow> 'a tagged_segment list \<Rightarrow> 'a line_parser \<times> 'a tagged_segment list" where
  "finish_tag_line p segments =
     (let line = line_buffer p;
          q = p\<lparr>line_buffer := [], detect_tag := True\<rparr>;
          slug = line_slug line
      in if match_open p slug \<noteq> None \<and> active_tag p = None then
           (q\<lparr>active_tag := match_open p slug\<rparr>, push_segment segments (TagStart (the (match_open p slug))))
         else if match_close p slug \<noteq> None \<and> active_tag p = match_close p slug then
           (q\<lparr>active_tag := None\<rparr>, push_segment segments (TagEnd (the (match_close p slug))))
         else (q, push_text q line segments))"

text \<open>One character of the loop of \<open>parse\<close>, with the segments and the run of text so far.\<close>

definition parse_char ::
  "'a line_parser \<times> 'a tagged_segment list \<times> string \<Rightarrow> string
   \<Rightarrow> 'a line_parser \<times> 'a tagged_segment list \<times> string" where
  "parse_char = (\<lambda>(p, segments, run) ch.
     if detect_tag p then
       (let segments = (if run \<noteq> [] then push_text p run segments else segments);
            p = p\<lparr>line_buffer := line_buffer p @ ch\<rparr>
        in if ch = [nl] then (let (q, segments) = finish_tag_line p segments in (q, segments, []))
           else
             (let slug = trim_start (line_buffer p) in
              if slug = [] \<or> is_tag_prefix p slug then (p, segments, [])
              else (p\<lparr>line_buffer := [], detect_tag := False\<rparr>, push_text p (line_buffer p) segments, [])))
     else
       (let run = run @ ch in
        if ch = [nl] then (p\<lparr>detect_tag := True\<rparr>, push_text p run segments, [])
        else (p, segments, run)))"

definition parse_lines :: "'a line_parser \<Rightarrow> string \<Rightarrow> 'a tagged_segment list \<times> 'a line_parser" where
  "parse_lines p delta =
     (let (q, segments, run) = foldl parse_char (p, [], []) (chars delta)
      in (if run \<noteq> [] then push_text q run segments else segments, q))"

definition finish_lines :: "'a line_parser \<Rightarrow> 'a tagged_segment list \<times> 'a line_parser" where
  "finish_lines p =
     (let slug = line_slug (line_buffer p);
          (q, segments) =
            (if line_buffer p = [] then (p, [])
             else if match_open p slug \<noteq> None \<and> active_tag p = None then
               (p\<lparr>line_buffer := [], active_tag := match_open p slug\<rparr>,
                push_segment [] (TagStart (the (match_open p slug))))
             else if match_close p slug \<noteq> None \<and> active_tag p = match_close p slug then
               (p\<lparr>line_buffer := [], active_tag := None\<rparr>,
                push_segment [] (TagEnd (the (match_close p slug))))
             else (p\<lparr>line_buffer := []\<rparr>, push_text p (line_buffer p) []));
          segments = (case active_tag q of Some tag \<Rightarrow> push_segment segments (TagEnd tag) | None \<Rightarrow> segments)
      in (segments, q\<lparr>active_tag := None, detect_tag := True\<rparr>))"

section \<open>The cut into chunks\<close>

text \<open>Segments one after the other, neighbouring texts joined.\<close>

definition cat_segments :: "'a tagged_segment list \<Rightarrow> 'a tagged_segment list \<Rightarrow> 'a tagged_segment list" where
  "cat_segments a b = foldl push_segment a b"

abbreviation joined :: "'a tagged_segment list \<Rightarrow> 'a tagged_segment list" where
  "joined \<equiv> cat_segments []"

lemma push_segment_Nil [simp]:
  "push_segment segs (Normal []) = segs" "push_segment segs (TagDelta t []) = segs"
  by (simp_all add: push_segment_def)

lemma push_segment_simps:
  "push_segment segs (TagStart t) = segs @ [TagStart t]"
  "push_segment segs (TagEnd t) = segs @ [TagEnd t]"
  "push_segment [] (Normal v) = (if v = [] then [] else [Normal v])"
  "push_segment [] (TagDelta t v) = (if v = [] then [] else [TagDelta t v])"
  "push_segment (s @ [y]) (Normal v) =
     (if v = [] then s @ [y] else case y of Normal u \<Rightarrow> s @ [Normal (u @ v)] | _ \<Rightarrow> s @ [y, Normal v])"
  "push_segment (s @ [y]) (TagDelta t v) =
     (if v = [] then s @ [y] else case y of
        TagDelta t' u \<Rightarrow> if t' = t then s @ [TagDelta t (u @ v)] else s @ [y, TagDelta t v]
      | _ \<Rightarrow> s @ [y, TagDelta t v])"
  by (simp_all add: push_segment_def split: tagged_segment.split)

lemmas push_segment_more =
  push_segment_simps(5,6) [where s = "[]", unfolded append_Nil]
  push_segment_simps(5,6) [where s = "s @ [y]" for s y, unfolded append_assoc append_Cons append_Nil]

lemma push_segment_merge:
  "push_segment (push_segment segs (Normal u)) (Normal v) = push_segment segs (Normal (u @ v))"
  "push_segment (push_segment segs (TagDelta t u)) (TagDelta t v) = push_segment segs (TagDelta t (u @ v))"
  by (cases segs rule: rev_cases; simp add: push_segment_simps push_segment_more split: tagged_segment.split)+

lemma cat_push: "cat_segments a (push_segment b x) = push_segment (cat_segments a b) x"
proof (cases b rule: rev_cases)
  case Nil
  then show ?thesis by (cases x) (auto simp: cat_segments_def push_segment_simps)
next
  case (snoc s y)
  then show ?thesis
    by (cases x; cases y) (auto simp: cat_segments_def push_segment_simps push_segment_merge)
qed

lemma cat_assoc: "cat_segments (cat_segments a b) c = cat_segments a (cat_segments b c)"
proof (induction c rule: rev_induct)
  case (snoc x c)
  then show ?case using cat_push [of a "cat_segments b c" x] by (simp add: cat_segments_def)
qed (simp add: cat_segments_def)

lemma cat_Nil [simp]: "cat_segments a [] = a"
  by (simp add: cat_segments_def)

text \<open>The segments with the run of text that is still to be pushed.\<close>

definition flush :: "'a line_parser \<times> 'a tagged_segment list \<times> string \<Rightarrow> 'a tagged_segment list" where
  "flush = (\<lambda>(p, segments, run). push_text p run segments)"

lemma push_text_Nil [simp]: "push_text p [] segments = segments"
  by (simp add: push_text_def split: option.split)

lemma push_text_merge: "push_text p v (push_text p u segments) = push_text p (u @ v) segments"
  by (simp add: push_text_def push_segment_merge split: option.split)

lemma cat_push_text: "cat_segments a (push_text p u b) = push_text p u (cat_segments a b)"
  by (simp add: push_text_def cat_push split: option.split)

lemma push_text_fields [simp]:
  "push_text (p\<lparr>line_buffer := b\<rparr>) = push_text p" "push_text (p\<lparr>detect_tag := d\<rparr>) = push_text p"
  by (simp_all add: push_text_def fun_eq_iff)

lemma finish_tag_line_cat:
  "finish_tag_line p (cat_segments a b) = map_prod id (cat_segments a) (finish_tag_line p b)"
  by (simp add: finish_tag_line_def Let_def cat_push cat_push_text)

lemma parse_char_flush:
  "fst (parse_char (p, segs, run) ch) = fst (parse_char (p, [], []) ch) \<and>
   flush (parse_char (p, segs, run) ch) =
     cat_segments (flush (p, segs, run)) (flush (parse_char (p, [], []) ch))"
proof (cases "detect_tag p")
  case True
  let ?p = "p\<lparr>line_buffer := line_buffer p @ ch\<rparr>" and ?f = "push_text p run segs"
  have f: "(if run \<noteq> [] then ?f else segs) = ?f" by simp
  have "finish_tag_line ?p ?f = map_prod id (cat_segments ?f) (finish_tag_line ?p [])"
    using finish_tag_line_cat [of ?p ?f "[]"] by simp
  then show ?thesis
    using True cat_push_text [of ?f p "line_buffer p @ ch" "[]"]
    by (cases "finish_tag_line ?p []") (auto simp: parse_char_def f Let_def flush_def)
next
  case False
  then show ?thesis
    using cat_push_text [of "push_text p run segs" p ch "[]"]
    by (auto simp: parse_char_def Let_def flush_def push_text_merge)
qed

definition read_chars :: "'a line_parser \<Rightarrow> string list \<Rightarrow> 'a tagged_segment list \<times> 'a line_parser" where
  "read_chars p xs = (let st = foldl parse_char (p, [], []) xs in (flush st, fst st))"

lemma parse_lines_read: "parse_lines p delta = read_chars p (chars delta)"
  by (auto simp: parse_lines_def read_chars_def flush_def Let_def split: prod.splits)

lemma read_Nil [simp]: "read_chars p [] = ([], p)"
  by (simp add: read_chars_def flush_def)

lemma read_snoc:
  assumes "read_chars p xs = (out, q)"
  shows "read_chars p (xs @ [ch]) =
    (cat_segments out (flush (parse_char (q, [], []) ch)), fst (parse_char (q, [], []) ch))"
proof -
  obtain segs run where st: "foldl parse_char (p, [], []) xs = (q, segs, run)"
    using assms by (auto simp: read_chars_def Let_def prod_eq_iff)
  then have "flush (q, segs, run) = out" using assms by (simp add: read_chars_def)
  with st show ?thesis using parse_char_flush [of q segs run ch] by (simp add: read_chars_def Let_def)
qed

lemma read_append:
  assumes "read_chars p xs = (out, q)" "read_chars q ys = (out', r)"
  shows "read_chars p (xs @ ys) = (cat_segments out out', r)"
  using assms(2)
proof (induction ys arbitrary: out' r rule: rev_induct)
  case (snoc y ys)
  obtain o1 q1 where q1: "read_chars q ys = (o1, q1)" by force
  show ?case
    using snoc.prems read_snoc [OF snoc.IH [OF q1], of y] read_snoc [OF q1, of y] by (auto simp: cat_assoc)
qed (use assms(1) in simp)

definition parse_lines_push ::
  "'a line_parser \<Rightarrow> string \<Rightarrow> ('a tagged_segment list \<times> 'a line_parser) option" where
  "parse_lines_push p delta = Some (parse_lines p delta)"

lemma parse_lines_returns: "\<exists>out q. parse_lines_push p s = Some (out, q)"
  by (cases "parse_lines p s") (simp add: parse_lines_push_def)

interpretation tagged: stream_text_parser parse_lines_push "[]" cat_segments "\<lambda>_. True"
proof
  fix p q r :: "'a line_parser" and s a b out out'
  show "\<exists>out q. parse_lines_push p s = Some (out, q) \<and> True" using parse_lines_returns by simp
  show "parse_lines_push p [] = Some ([], p)" by (simp add: parse_lines_push_def parse_lines_read)
  assume "whole_text b" "parse_lines_push p a = Some (out, q)" "parse_lines_push q b = Some (out', r)"
  then show "parse_lines_push p (a @ b) = Some (cat_segments out out', r)"
    by (simp add: parse_lines_push_def parse_lines_read chars_append read_append)
qed

section \<open>Every line is judged as a whole\<close>

text \<open>The reference: what one complete line is, and the segments of a text given by its lines.\<close>

definition text_segment :: "'a option \<Rightarrow> string \<Rightarrow> 'a tagged_segment" where
  "text_segment active s = (case active of None \<Rightarrow> Normal s | Some tag \<Rightarrow> TagDelta tag s)"

definition tag_line :: "('a tag_spec \<Rightarrow> string) \<Rightarrow> 'a tag_spec list \<Rightarrow> string \<Rightarrow> 'a option" where
  "tag_line delim specs line = map_option ts_tag (find (\<lambda>spec. delim spec = trim line) specs)"

definition line_event :: "'a tag_spec list \<Rightarrow> 'a option \<Rightarrow> string \<Rightarrow> 'a tagged_segment \<times> 'a option" where
  "line_event specs active line =
     (case active of
        None \<Rightarrow> (case tag_line ts_open specs line of
                   Some tag \<Rightarrow> (TagStart tag, Some tag)
                 | None \<Rightarrow> (text_segment active line, active))
      | Some tag \<Rightarrow> if tag_line ts_close specs line = Some tag then (TagEnd tag, None)
                    else (text_segment active line, active))"

fun blocks :: "'a tag_spec list \<Rightarrow> 'a option \<Rightarrow> string list \<Rightarrow> 'a tagged_segment list" where
  "blocks specs active [] = (case active of None \<Rightarrow> [] | Some tag \<Rightarrow> [TagEnd tag])"
| "blocks specs active (l # ls) =
     (let (seg, active') = line_event specs active l in seg # blocks specs active' ls)"

lemma push_text_segment: "push_text p s segs = push_segment segs (text_segment (active_tag p) s)"
  by (simp add: push_text_def text_segment_def split: option.split)

lemma nl_code_point: "code_point [nl]" "is_ws [nl]"
  by code_simp+

lemma trim_end_nl: "whole_text x \<Longrightarrow> trim_end (x @ [nl]) = trim_end x"
  using trim_end_chars [of "chars x @ [[nl]]"] trim_end_chars [of "chars x"] code_points [of x]
  by (simp add: nl_code_point)

lemma line_slug_trim:
  assumes "whole_text l"
  shows "line_slug l = trim l"
proof (cases "strip_suffix [nl] l")
  case None
  then show ?thesis by (simp add: line_slug_def trim_def)
next
  case (Some l')
  then have l: "l = l' @ [nl]" by (simp add: strip_suffix_eq_Some)
  have nl: "is_ascii nl" by code_simp
  then have w: "whole_text l'" "whole_text [nl]"
    using whole_text_before [of l' "[nl]"] whole_text_ascii_Cons [of nl "[]"] assms l by simp_all
  show ?thesis
  proof (cases "trim_start l' = []")
    case True
    have "concat (dropWhile is_ws (chars l')) = []"
      using True trim_start_chars [OF code_points [OF w(1)]] by simp
    moreover have "ch \<noteq> []" if "ch \<in> set (dropWhile is_ws (chars l'))" for ch
      using chars_not_Nil that set_dropWhileD by fastforce
    ultimately have "dropWhile is_ws (chars l') = []" by (cases "dropWhile is_ws (chars l')") auto
    then have "trim_start l = []"
      using trim_start_chars [of "chars l' @ [[nl]]"] code_points [OF w(1)] l
      by (simp add: nl_code_point dropWhile_append dropWhile_eq_Nil_conv)
    with True Some show ?thesis by (simp add: line_slug_def trim_def)
  next
    case False
    with Some show ?thesis
      using trim_start_append [OF w False] trim_end_nl [OF trim_start_whole [OF w(1)]] l
      by (simp add: line_slug_def trim_def)
  qed
qed

lemma match_tag_line:
  assumes "whole_text l"
  shows "match_open p (line_slug l) = tag_line ts_open (lp_specs p) l"
    "match_close p (line_slug l) = tag_line ts_close (lp_specs p) l"
  using line_slug_trim [OF assms] by (simp_all add: match_open_def match_close_def tag_line_def)

lemma finish_tag_line_event:
  assumes "whole_text (line_buffer p)" "line_event (lp_specs p) (active_tag p) (line_buffer p) = (seg, active)"
  shows "finish_tag_line p segs = (p\<lparr>line_buffer := [], detect_tag := True, active_tag := active\<rparr>, push_segment segs seg)"
  using assms(2)
  by (auto simp: finish_tag_line_def Let_def match_tag_line [OF assms(1)] line_event_def push_text_segment
      split: option.splits if_splits)

lemma finish_lines_event:
  assumes "whole_text (line_buffer p)" "line_buffer p \<noteq> []"
    "line_event (lp_specs p) (active_tag p) (line_buffer p) = (seg, active)"
  shows "fst (finish_lines p) = cat_segments (push_segment [] seg) (blocks (lp_specs p) active [])"
  using assms(2,3)
  by (auto simp: finish_lines_def Let_def match_tag_line [OF assms(1)] line_event_def push_text_segment cat_segments_def
      split: option.splits if_splits)

text \<open>A line that has shown itself to be no start of a tag is none, whatever follows.\<close>

lemma no_tag:
  assumes "whole_text b" "whole_text r" "trim_start b \<noteq> []" "\<not> is_tag_prefix p (trim_start b)"
  shows "line_event (lp_specs p) active (b @ r) = (text_segment active (b @ r), active)"
proof -
  have "prefix (trim_end (trim_start b)) (trim (b @ r))"
    unfolding trim_def trim_start_append [OF assms(1-3)]
    using trim_end_mono trim_start_whole assms(1,2) by blast
  then have "ts_open sp \<noteq> trim (b @ r) \<and> ts_close sp \<noteq> trim (b @ r)" if "sp \<in> set (lp_specs p)" for sp
    using assms(4) that by (auto simp: is_tag_prefix_def Let_def list_ex_iff)
  then have "find (\<lambda>sp. ts_open sp = trim (b @ r)) (lp_specs p) = None"
    "find (\<lambda>sp. ts_close sp = trim (b @ r)) (lp_specs p) = None"
    by (auto simp: find_None_iff)
  then show ?thesis by (simp add: line_event_def tag_line_def split: option.split)
qed

lemma read_partial:
  assumes "detect_tag p" "line_buffer p = []"
  shows "list_all code_point xs \<Longrightarrow> [nl] \<notin> set xs \<Longrightarrow> read_chars p xs = (out, q) \<Longrightarrow>
    q = p\<lparr>line_buffer := concat xs\<rparr> \<and> out = [] \<or>
    q = p\<lparr>detect_tag := False\<rparr> \<and> xs \<noteq> [] \<and> out = push_text p (concat xs) [] \<and>
    (\<forall>r. whole_text r \<longrightarrow> line_event (lp_specs p) (active_tag p) (concat xs @ r) =
       (text_segment (active_tag p) (concat xs @ r), active_tag p))"
proof (induction xs arbitrary: out q rule: rev_induct)
  case Nil
  then show ?case using assms by simp
next
  case (snoc ch xs)
  obtain o1 q1 where q1: "read_chars p xs = (o1, q1)" by force
  note step = read_snoc [OF q1, of ch] and w = chars_concat [OF snoc.prems(1)]
  have ch: "ch \<noteq> [nl]" "whole_text ch" using snoc.prems code_point_whole by auto
  from snoc.IH [OF _ _ q1] snoc.prems
  consider (buf) "q1 = p\<lparr>line_buffer := concat xs\<rparr>" "o1 = []"
    | (known) "q1 = p\<lparr>detect_tag := False\<rparr>" "xs \<noteq> []" "o1 = push_text p (concat xs) []"
        "\<forall>r. whole_text r \<longrightarrow> line_event (lp_specs p) (active_tag p) (concat xs @ r) =
          (text_segment (active_tag p) (concat xs @ r), active_tag p)"
    by auto
  then show ?case
  proof cases
    case buf
    let ?b = "concat xs @ ch"
    show ?thesis
    proof (cases "trim_start ?b = [] \<or> is_tag_prefix (p\<lparr>line_buffer := ?b\<rparr>) (trim_start ?b)")
      case True
      then show ?thesis
        using step snoc.prems(3) ch buf assms by (simp add: parse_char_def flush_def Let_def)
    next
      case False
      then have "out = push_text p ?b [] \<and> q = p\<lparr>detect_tag := False\<rparr>"
        using step snoc.prems(3) ch buf assms
        by (auto simp: parse_char_def flush_def Let_def cat_push_text)
      moreover have "\<not> is_tag_prefix p (trim_start ?b)" using False by (simp add: is_tag_prefix_def)
      ultimately show ?thesis using no_tag [of ?b _ p] w False by simp
    qed
  next
    case known
    have "out = push_text p (concat xs @ ch) [] \<and> q = p\<lparr>detect_tag := False\<rparr>"
      using step snoc.prems(3) ch known
      by (auto simp: parse_char_def flush_def Let_def cat_push_text push_text_merge)
    moreover have "whole_text (ch @ r)" if "whole_text r" for r using that ch whole_text_append by blast
    ultimately show ?thesis using known(4) by simp
  qed
qed

lemma joined_cat [simp]: "cat_segments a (joined b) = cat_segments a b"
  using cat_assoc [of a "[]" b] by simp

lemma joined_Cons: "joined (seg # segs) = cat_segments (push_segment [] seg) segs"
  by (simp add: cat_segments_def)

lemma read_line:
  assumes p: "detect_tag p" "line_buffer p = []" and xs: "list_all code_point xs" "[nl] \<notin> set xs"
    and ev: "line_event (lp_specs p) (active_tag p) (concat xs @ [nl]) = (seg, active)"
  shows "read_chars p (xs @ [[nl]]) = (push_segment [] seg, p\<lparr>active_tag := active\<rparr>)"
proof -
  obtain out q where q: "read_chars p xs = (out, q)" by force
  note step = read_snoc [OF q, of "[nl]"]
  have w: "whole_text (concat xs)" "whole_text [nl]"
    using chars_concat [OF xs(1)] code_point_whole [OF nl_code_point(1)] by simp_all
  from read_partial [OF p xs q] consider (buf) "q = p\<lparr>line_buffer := concat xs\<rparr>" "out = []"
    | (known) "q = p\<lparr>detect_tag := False\<rparr>" "out = push_text p (concat xs) []"
        "(seg, active) = (text_segment (active_tag p) (concat xs @ [nl]), active_tag p)"
    using ev w(2) by auto
  then show ?thesis
  proof cases
    case buf
    let ?p = "p\<lparr>line_buffer := concat xs @ [nl]\<rparr>"
    have "finish_tag_line ?p [] = (p\<lparr>active_tag := active\<rparr>, push_segment [] seg)"
      using finish_tag_line_event [of ?p seg active "[]"] ev w whole_text_append p by simp
    with step buf p show ?thesis by (simp add: parse_char_def flush_def Let_def cat_push)
  next
    case known
    have "flush (parse_char (q, [], []) [nl]) = push_text p [nl] []"
      "fst (parse_char (q, [], []) [nl]) = p"
      using known(1) p by (simp_all add: parse_char_def flush_def Let_def)
    with step known show ?thesis by (simp add: cat_push_text push_text_merge) (simp add: push_text_segment)
  qed
qed

lemma read_rest:
  assumes p: "detect_tag p" "line_buffer p = []" and xs: "list_all code_point xs" "[nl] \<notin> set xs" "xs \<noteq> []"
    and q: "read_chars p xs = (out, q)"
  shows "cat_segments out (fst (finish_lines q)) = joined (blocks (lp_specs p) (active_tag p) [concat xs])"
proof -
  have w: "whole_text (concat xs)" using chars_concat [OF xs(1)] by simp
  have ne: "concat xs \<noteq> []" using xs(1,3) code_point_whole by (cases xs) auto
  obtain seg active where ev: "line_event (lp_specs p) (active_tag p) (concat xs) = (seg, active)" by force
  from read_partial [OF p xs(1,2) q] consider (buf) "q = p\<lparr>line_buffer := concat xs\<rparr>" "out = []"
    | (known) "q = p\<lparr>detect_tag := False\<rparr>" "out = push_text p (concat xs) []"
        "(seg, active) = (text_segment (active_tag p) (concat xs), active_tag p)"
    using ev by (metis append_Nil2 whole_text_Nil)
  then show ?thesis
  proof cases
    case buf
    then show ?thesis
      using finish_lines_event [of q seg active] ev w ne
      by (simp add: joined_Cons cat_push flip: cat_assoc)
  next
    case known
    have "fst (finish_lines q) = blocks (lp_specs p) (active_tag p) []"
      using known(1) p(2) by (simp add: finish_lines_def Let_def push_segment_simps split: option.split)
    with known ev show ?thesis by (simp add: joined_Cons push_text_segment)
  qed
qed

lemma chars_nl: "nl \<notin> set s \<Longrightarrow> [nl] \<notin> set (chars s)"
  using set_concat [of "chars s"] by auto

lemma read_blocks:
  "detect_tag p \<Longrightarrow> line_buffer p = [] \<Longrightarrow> whole_text s \<Longrightarrow> read_chars p (chars s) = (out, q) \<Longrightarrow>
   cat_segments out (fst (finish_lines q)) = joined (blocks (lp_specs p) (active_tag p) (split_inclusive s))"
proof (induction "length s" arbitrary: s p out q rule: less_induct)
  case less
  show ?case
  proof (cases "nl \<in> set s")
    case True
    then obtain l r where s: "s = l @ nl # r" "nl \<notin> set l" by (meson split_list_first)
    have "list_all is_ascii [nl]" by code_simp
    then have w: "whole_text l" "whole_text r"
      using whole_text_around [of l "[nl]" r] less.prems(3) s(1) by simp_all
    have xs: "list_all code_point (chars l)" "[nl] \<notin> set (chars l)"
      using code_points [OF w(1)] chars_nl [OF s(2)] by simp_all
    have nl: "whole_text [nl]" "chars [nl] = [[nl]]"
      using code_point_whole nl_code_point by (simp_all add: code_point_def)
    have cs: "chars s = (chars l @ [[nl]]) @ chars r"
      using chars_append [OF w(2), of "l @ [nl]"] chars_append [OF nl(1), of l] nl(2) s(1) by simp
    obtain seg active where ev: "line_event (lp_specs p) (active_tag p) (l @ [nl]) = (seg, active)" by force
    let ?p = "p\<lparr>active_tag := active\<rparr>"
    obtain o2 q2 where q2: "read_chars ?p (chars r) = (o2, q2)" by force
    have "read_chars p (chars s) = (cat_segments (push_segment [] seg) o2, q2)"
      unfolding cs using read_append [OF read_line [OF less.prems(1,2) xs] q2] ev by simp
    then have "out = cat_segments (push_segment [] seg) o2" "q = q2" using less.prems(4) by simp_all
    moreover have "cat_segments o2 (fst (finish_lines q2)) = joined (blocks (lp_specs ?p) active (split_inclusive r))"
      using less.hyps [OF _ _ _ w(2) q2] less.prems s(1) by simp
    moreover have "split_inclusive s = (l @ [nl]) # split_inclusive r"
      using split_inclusive_append_nl [of l r] split_inclusive_line [OF s(2)] s(1) by simp
    ultimately show ?thesis using ev by (simp add: cat_assoc joined_Cons)
  next
    case False
    show ?thesis
    proof (cases "s = []")
      case True
      with less.prems show ?thesis
        by (auto simp: finish_lines_def Let_def push_segment_simps joined_Cons split: option.split)
    next
      case ne: False
      then have "split_inclusive s = [s]" using False by (induction s rule: induct_list012) auto
      moreover have "[nl] \<notin> set (chars s)" "chars s \<noteq> []" using chars_nl [OF False] ne by (cases s; simp)+
      ultimately show ?thesis using read_rest [OF less.prems(1,2) code_points [OF less.prems(3)] _ _ less.prems(4)] by simp
    qed
  qed
qed

lemma read_joined: "read_chars p xs = (out, q) \<Longrightarrow> joined out = out"
proof (induction xs arbitrary: out q rule: rev_induct)
  case (snoc ch xs)
  obtain o1 q1 where q1: "read_chars p xs = (o1, q1)" by force
  with snoc.IH [OF q1] snoc.prems read_snoc [OF q1, of ch] show ?case
    by (auto simp flip: cat_assoc)
qed simp

lemma feed_joined:
  "feed parse_lines_push [] (@) p cs = Some (out, q) \<Longrightarrow>
   feed parse_lines_push [] cat_segments p cs = Some (joined out, q)"
proof (induction cs arbitrary: p out q)
  case (Cons c cs)
  obtain o1 q1 where q1: "parse_lines_push p c = Some (o1, q1)" using parse_lines_returns by blast
  with Cons.prems obtain o2 where o2: "feed parse_lines_push [] (@) q1 cs = Some (o2, q)" "out = o1 @ o2"
    by (auto split: Option.bind_splits)
  have "joined o1 = o1" using q1 read_joined by (auto simp: parse_lines_read parse_lines_push_def)
  then have "joined (o1 @ o2) = cat_segments o1 o2" by (simp add: cat_segments_def)
  with Cons.IH [OF o2(1)] q1 o2(2) show ?case by simp
qed simp

lemma feed_returns: "\<exists>out q. feed parse_lines_push [] (@) p cs = Some (out, q)"
proof (induction cs arbitrary: p)
  case (Cons c cs)
  obtain o1 q1 where "parse_lines_push p c = Some (o1, q1)" using parse_lines_returns by blast
  with Cons.IH [of q1] show ?case by auto
qed simp

text \<open>
  C24. Tag blocks are found line by line, however the stream is cut and however early a line is
  passed on: for any tags and any chunks, the segments of all calls of \<open>parse\<close> and of
  \<open>finish\<close>, with neighbouring texts joined, are those of judging every complete
  line of the whole text by itself.
\<close>

theorem tag_blocks_by_line:
  assumes "list_all whole_text cs"
  shows "map_option (\<lambda>(out, p). joined (out @ fst (finish_lines p)))
      (feed parse_lines_push [] (@) (new_lines specs) cs) =
    Some (joined (blocks specs None (split_inclusive (concat cs))))"
proof -
  obtain out q where f: "feed parse_lines_push [] (@) (new_lines specs) cs = Some (out, q)"
    using feed_returns by blast
  have "read_chars (new_lines specs) (chars (concat cs)) = (joined out, q)"
    using feed_joined [OF f] tagged.feed_concat [OF _ assms, of "new_lines specs"]
    by (simp add: parse_lines_push_def parse_lines_read)
  moreover have "joined (out @ fst (finish_lines q)) = cat_segments (joined out) (fst (finish_lines q))"
    by (simp add: cat_segments_def)
  ultimately show ?thesis
    using read_blocks [of "new_lines specs" "concat cs"] whole_text_concat [OF assms] f by (simp add: new_lines_def)
qed

definition quote_tag :: "nat tag_spec list" where
  "quote_tag = [\<lparr>ts_open = ''<q>'', ts_close = ''</q>'', ts_tag = 7\<rparr>]"

theorem tag_blocks_by_line_witness:
  "list_all whole_text [''a'' @ [nl] @ '' <'', ''q> '' @ [nl] @ ''b'' @ [nl] @ ''</'', ''q''] \<and>
   map_option (\<lambda>(out, p). joined (out @ fst (finish_lines p)))
     (feed parse_lines_push [] (@) (new_lines quote_tag)
        [''a'' @ [nl] @ '' <'', ''q> '' @ [nl] @ ''b'' @ [nl] @ ''</'', ''q'']) =
     Some [Normal (''a'' @ [nl]), TagStart 7, TagDelta 7 (''b'' @ [nl] @ ''</q''), TagEnd 7]"
    (is "list_all whole_text ?cs \<and> _ = Some ?segs")
proof -
  have w: "list_all whole_text ?cs" by code_simp
  have b: "joined (blocks quote_tag None (split_inclusive (concat ?cs))) = ?segs" by code_simp
  from w tag_blocks_by_line [OF w, of quote_tag] show ?thesis unfolding b by (rule conjI)
qed

end
