(* ===== verification/Assistant_Text.thy ===== *)
theory Assistant_Text
  imports Citation_Stream Tagged_Lines
begin

text \<open>
  The text of the assistant: \<open>proposed_plan.rs\<close> and \<open>assistant_text.rs\<close> of
  \<open>codex/codex-rs/utils/stream-parser/src\<close>. Citations are cut out first; in plan mode what is
  left visible goes through the parser of plan blocks. The two parsers in sequence are an instance of
  \<open>chained_parsers\<close>.
\<close>

section \<open>Plan blocks\<close>

datatype plan_tag = ProposedPlan

datatype plan_segment =
    PlanNormal string
  | ProposedPlanStart
  | ProposedPlanDelta string
  | ProposedPlanEnd

definition OPEN_TAG :: string where "OPEN_TAG = ''<proposed_plan>''"
definition CLOSE_TAG :: string where "CLOSE_TAG = ''</proposed_plan>''"

definition plan_specs :: "plan_tag tag_spec list" where
  "plan_specs = [\<lparr>ts_open = OPEN_TAG, ts_close = CLOSE_TAG, ts_tag = ProposedPlan\<rparr>]"

definition new_plan :: "plan_tag line_parser" where
  "new_plan = new_lines plan_specs"

fun map_segment :: "plan_tag tagged_segment \<Rightarrow> plan_segment" where
  "map_segment (Normal s) = PlanNormal s"
| "map_segment (TagStart ProposedPlan) = ProposedPlanStart"
| "map_segment (TagDelta ProposedPlan s) = ProposedPlanDelta s"
| "map_segment (TagEnd ProposedPlan) = ProposedPlanEnd"

definition map_segments :: "plan_tag tagged_segment list \<Rightarrow> plan_segment text_chunk" where
  "map_segments segments =
     foldl (\<lambda>out segment.
       (let mapped = map_segment segment;
            out = (case mapped of PlanNormal s \<Rightarrow> out\<lparr>visible_text := visible_text out @ s\<rparr> | _ \<Rightarrow> out)
        in out\<lparr>extracted := extracted out @ [mapped]\<rparr>))
     empty_chunk segments"

definition plan_push_str :: "plan_tag line_parser \<Rightarrow> string \<Rightarrow> plan_segment text_chunk \<times> plan_tag line_parser" where
  "plan_push_str p chunk = map_prod map_segments id (parse_lines p chunk)"

definition plan_finish :: "plan_tag line_parser \<Rightarrow> plan_segment text_chunk \<times> plan_tag line_parser" where
  "plan_finish p = map_prod map_segments id (finish_lines p)"

definition strip_proposed_plan_blocks :: "string \<Rightarrow> string" where
  "strip_proposed_plan_blocks s =
     (let (out, p) = plan_push_str new_plan s
      in visible_text out @ visible_text (fst (plan_finish p)))"

text \<open>The loop of \<open>extract_proposed_plan_text\<close>: whether a block was seen, and the text of the last one.\<close>

fun plan_text_step :: "bool \<times> string \<Rightarrow> plan_segment \<Rightarrow> bool \<times> string" where
  "plan_text_step (saw, plan_text) ProposedPlanStart = (True, [])"
| "plan_text_step (saw, plan_text) (ProposedPlanDelta delta) = (saw, plan_text @ delta)"
| "plan_text_step (saw, plan_text) ProposedPlanEnd = (saw, plan_text)"
| "plan_text_step (saw, plan_text) (PlanNormal s) = (saw, plan_text)"

definition extract_proposed_plan_text :: "string \<Rightarrow> string option" where
  "extract_proposed_plan_text s =
     (let (out, p) = plan_push_str new_plan s;
          (saw, plan_text) = foldl plan_text_step (False, []) (extracted out @ extracted (fst (plan_finish p)))
      in if saw then Some plan_text else None)"

section \<open>The assistant's text\<close>

record assistant_chunk =
  ac_visible :: string
  ac_citations :: "string list"
  ac_plan :: "plan_segment list"

record assistant_parser =
  plan_mode :: bool
  citations_parser :: "citation_tag inline_parser"
  plan_parser :: "plan_tag line_parser"

definition new_assistant :: "bool \<Rightarrow> assistant_parser" where
  "new_assistant m = \<lparr>plan_mode = m, citations_parser = new_citation, plan_parser = new_plan\<rparr>"

definition assistant_is_empty :: "assistant_chunk \<Rightarrow> bool" where
  "assistant_is_empty c = (ac_visible c = [] \<and> ac_citations c = [] \<and> ac_plan c = [])"

definition parse_visible_text :: "assistant_parser \<Rightarrow> string \<Rightarrow> assistant_chunk \<times> assistant_parser" where
  "parse_visible_text p visible =
     (if \<not> plan_mode p then (\<lparr>ac_visible = visible, ac_citations = [], ac_plan = []\<rparr>, p)
      else
        (let (plan_chunk, plan) = plan_push_str (plan_parser p) visible
         in (\<lparr>ac_visible = visible_text plan_chunk, ac_citations = [], ac_plan = extracted plan_chunk\<rparr>,
             p\<lparr>plan_parser := plan\<rparr>)))"

definition assistant_push_str :: "assistant_parser \<Rightarrow> string \<Rightarrow> (assistant_chunk \<times> assistant_parser) option" where
  "assistant_push_str p chunk =
     Option.bind (citation_push_str (citations_parser p) chunk) (\<lambda>(citation_chunk, citations).
       let (out, q) = parse_visible_text (p\<lparr>citations_parser := citations\<rparr>) (visible_text citation_chunk)
       in Some (out\<lparr>ac_citations := extracted citation_chunk\<rparr>, q))"

definition assistant_finish :: "assistant_parser \<Rightarrow> assistant_chunk \<times> assistant_parser" where
  "assistant_finish p =
     (let (citation_chunk, citations) = citation_finish (citations_parser p);
          (out, q) = parse_visible_text (p\<lparr>citations_parser := citations\<rparr>) (visible_text citation_chunk);
          (out, q) =
            (if plan_mode q then
               (let (tail, plan) = plan_finish (plan_parser q);
                    out = (if \<not> chunk_is_empty tail then
                             out\<lparr>ac_visible := ac_visible out @ visible_text tail,
                                 ac_plan := ac_plan out @ extracted tail\<rparr>
                           else out)
                in (out, q\<lparr>plan_parser := plan\<rparr>))
             else (out, q))
      in (out\<lparr>ac_citations := extracted citation_chunk\<rparr>, q))"

section \<open>Segments and their texts\<close>

fun unmap_segment :: "plan_segment \<Rightarrow> plan_tag tagged_segment" where
  "unmap_segment (PlanNormal s) = Normal s"
| "unmap_segment ProposedPlanStart = TagStart ProposedPlan"
| "unmap_segment (ProposedPlanDelta s) = TagDelta ProposedPlan s"
| "unmap_segment ProposedPlanEnd = TagEnd ProposedPlan"

lemma unmap_map [simp]: "unmap_segment (map_segment x) = x"
  by (cases x rule: map_segment.cases) simp_all

lemma unmap_map_id [simp]: "unmap_segment \<circ> map_segment = id"
  by (simp add: fun_eq_iff)

text \<open>Plan segments one after the other, neighbouring texts joined.\<close>

definition cat_plan :: "plan_segment list \<Rightarrow> plan_segment list \<Rightarrow> plan_segment list" where
  "cat_plan a b = map map_segment (cat_segments (map unmap_segment a) (map unmap_segment b))"

definition cat_plan_chunk :: "plan_segment text_chunk \<Rightarrow> plan_segment text_chunk \<Rightarrow> plan_segment text_chunk" where
  "cat_plan_chunk a b =
     \<lparr>visible_text = visible_text a @ visible_text b, extracted = cat_plan (extracted a) (extracted b)\<rparr>"

fun normal_text :: "'a tagged_segment \<Rightarrow> string" where
  "normal_text (Normal s) = s"
| "normal_text _ = []"

definition normal_texts :: "'a tagged_segment list \<Rightarrow> string" where
  "normal_texts segs = concat (map normal_text segs)"

lemma map_segments_eq: "map_segments segs = \<lparr>visible_text = normal_texts segs, extracted = map map_segment segs\<rparr>"
proof (induction segs rule: rev_induct)
  case (snoc x segs)
  then show ?case
    by (cases x rule: map_segment.cases) (simp_all add: map_segments_def normal_texts_def Let_def)
qed (simp add: map_segments_def empty_chunk_def normal_texts_def)

lemma normal_texts_push: "normal_texts (push_segment segs x) = normal_texts segs @ normal_text x"
  by (cases segs rule: rev_cases; cases x)
    (auto simp: normal_texts_def push_segment_simps split: tagged_segment.split)

lemma normal_texts_cat: "normal_texts (cat_segments a b) = normal_texts a @ normal_texts b"
proof (induction b rule: rev_induct)
  case (snoc x b)
  then show ?case using normal_texts_push [of "cat_segments a b" x] by (simp add: cat_segments_def normal_texts_def)
qed (simp add: normal_texts_def)

lemma map_segments_cat: "map_segments (cat_segments a b) = cat_plan_chunk (map_segments a) (map_segments b)"
  by (simp add: map_segments_eq cat_plan_chunk_def cat_plan_def normal_texts_cat)

definition plan_push :: "plan_tag line_parser \<Rightarrow> string \<Rightarrow> (plan_segment text_chunk \<times> plan_tag line_parser) option" where
  "plan_push p chunk = Some (plan_push_str p chunk)"

interpretation plans: stream_text_parser plan_push empty_chunk cat_plan_chunk "\<lambda>_. True"
proof
  fix p q r :: "plan_tag line_parser" and s a b out out'
  show "\<exists>out q. plan_push p s = Some (out, q) \<and> True"
    by (cases "plan_push_str p s") (simp add: plan_push_def)
  show "plan_push p [] = Some (empty_chunk, p)"
    using tagged.push_nothing [of p]
    by (simp add: plan_push_def plan_push_str_def parse_lines_push_def map_segments_def)
  assume w: "whole_text a" "whole_text b" and p: "plan_push p a = Some (out, q)" "plan_push q b = Some (out', r)"
  obtain o1 where o1: "parse_lines p a = (o1, q)" "out = map_segments o1"
    using p(1) by (cases "parse_lines p a") (simp add: plan_push_def plan_push_str_def)
  obtain o2 where o2: "parse_lines q b = (o2, r)" "out' = map_segments o2"
    using p(2) by (cases "parse_lines q b") (simp add: plan_push_def plan_push_str_def)
  have "parse_lines p (a @ b) = (cat_segments o1 o2, r)"
    using tagged.push_append [OF _ w, of p o1 q o2 r] o1 o2 by (simp add: parse_lines_push_def)
  with o1 o2 show "plan_push p (a @ b) = Some (cat_plan_chunk out out', r)"
    by (simp add: plan_push_def plan_push_str_def map_segments_cat)
qed

interpretation assistant: chained_parsers citation_push_str empty_chunk cat_chunk citation_ok
  plan_push empty_chunk cat_plan_chunk "\<lambda>_. True" visible_text
proof
  fix p s out q
  assume ok: "citation_ok p" and s: "whole_text s" and push: "citation_push_str p s = Some (out, q)"
  obtain inner where inner: "push_loop (p\<lparr>ip_pending := ip_pending p @ s\<rparr>) empty_chunk = Some (inner, q)"
    "out = citation_chunk inner"
    using push by (auto simp: citation_push_str_def inline_push_str_def)
  have "list_all is_ascii (ip_pending p)"
    using ok one_tag_awaited [of p]
    by (auto simp: citation_ok_def ascii_delim_def strict_prefix_def prefix_def)
  then have "whole_text (ip_pending p @ s)" using s whole_text_ascii by blast
  with inner push_loop_whole [OF _ _ _ inner(1)] ok show "whole_text (visible_text out)"
    by (simp add: citation_ok_def citation_chunk_def empty_chunk_def)
qed (simp_all add: empty_chunk_def)

section \<open>The text as a whole\<close>

text \<open>The outputs of two calls one after the other.\<close>

definition empty_assistant :: assistant_chunk where
  "empty_assistant = \<lparr>ac_visible = [], ac_citations = [], ac_plan = []\<rparr>"

definition cat_assistant :: "assistant_chunk \<Rightarrow> assistant_chunk \<Rightarrow> assistant_chunk" where
  "cat_assistant a b =
     \<lparr>ac_visible = ac_visible a @ ac_visible b, ac_citations = ac_citations a @ ac_citations b,
      ac_plan = cat_plan (ac_plan a) (ac_plan b)\<rparr>"

text \<open>The reference: the citations cut out of the whole text, and the plan blocks found line by line.\<close>

definition assistant_reference :: "bool \<Rightarrow> string \<Rightarrow> assistant_chunk" where
  "assistant_reference m s =
     (let cut = cut_citations s;
          segs = blocks plan_specs None (split_inclusive (visible_text cut))
      in \<lparr>ac_visible = (if m then normal_texts segs else visible_text cut),
          ac_citations = extracted cut,
          ac_plan = (if m then cat_plan [] (map map_segment segs) else [])\<rparr>)"

definition planning :: "citation_tag inline_parser \<times> plan_tag line_parser \<Rightarrow> assistant_parser" where
  "planning = (\<lambda>(c, pl). \<lparr>plan_mode = True, citations_parser = c, plan_parser = pl\<rparr>)"

definition plan_output :: "string text_chunk \<times> plan_segment text_chunk \<Rightarrow> assistant_chunk" where
  "plan_output = (\<lambda>(a, b). \<lparr>ac_visible = visible_text b, ac_citations = extracted a, ac_plan = extracted b\<rparr>)"

definition chatting :: "citation_tag inline_parser \<Rightarrow> assistant_parser" where
  "chatting c = \<lparr>plan_mode = False, citations_parser = c, plan_parser = new_plan\<rparr>"

definition chat_output :: "string text_chunk \<Rightarrow> assistant_chunk" where
  "chat_output a = \<lparr>ac_visible = visible_text a, ac_citations = extracted a, ac_plan = []\<rparr>"

lemma planning_push:
  "assistant_push_str (planning cp) s =
     map_option (map_prod plan_output planning) (chain_push citation_push_str visible_text plan_push cp s)"
  by (cases cp)
    (auto simp: assistant_push_str_def planning_def plan_output_def chain_push_def parse_visible_text_def plan_push_def
      split: Option.bind_splits prod.splits)

lemma chatting_push:
  "assistant_push_str (chatting c) s = map_option (map_prod chat_output chatting) (citation_push_str c s)"
  by (auto simp: assistant_push_str_def chatting_def chat_output_def parse_visible_text_def split: Option.bind_splits)

lemma plan_feed:
  "feed assistant_push_str empty_assistant cat_assistant (new_assistant True) cs =
   map_option (map_prod plan_output planning)
     (feed (chain_push citation_push_str visible_text plan_push) (empty_chunk, empty_chunk)
        (pair_cat cat_chunk cat_plan_chunk) (new_citation, new_plan) cs)"
proof -
  have "new_assistant True = planning (new_citation, new_plan)" by (simp add: new_assistant_def planning_def)
  then show ?thesis
    by (simp only:) (rule feed_map, rule planning_push,
      auto simp: plan_output_def empty_assistant_def empty_chunk_def cat_assistant_def pair_cat_def cat_plan_chunk_def)
qed

lemma chat_feed:
  "feed assistant_push_str empty_assistant cat_assistant (new_assistant False) cs =
   map_option (map_prod chat_output chatting) (feed citation_push_str empty_chunk cat_chunk new_citation cs)"
proof -
  have "new_assistant False = chatting new_citation" by (simp add: new_assistant_def chatting_def)
  then show ?thesis
    by (simp only:) (rule feed_map, rule chatting_push,
      auto simp: chat_output_def empty_assistant_def empty_chunk_def cat_assistant_def cat_plan_def)
qed

text \<open>The visible rest of the citations is a start of a delimiter, or nothing.\<close>

lemma citation_tail_whole:
  assumes "citation_ok c"
  shows "whole_text (visible_text (fst (citation_finish c)))"
proof -
  have "list_all is_ascii (ip_pending c)"
    using assms one_tag_awaited [of c] by (auto simp: citation_ok_def ascii_delim_def strict_prefix_def prefix_def)
  then have "whole_text (ip_pending c)" using whole_text_ascii [of "ip_pending c" "[]"] by simp
  then show ?thesis
    by (simp add: citation_finish_def inline_finish_def chunk_defs split: option.split)
qed

lemma plan_finish_all:
  assumes "whole_text v" "plan_push new_plan v = Some (out, pl)"
  shows "cat_plan_chunk out (fst (plan_finish pl)) =
    map_segments (joined (blocks plan_specs None (split_inclusive v)))"
proof -
  obtain segs where segs: "parse_lines new_plan v = (segs, pl)" "out = map_segments segs"
    using assms(2) by (cases "parse_lines new_plan v") (simp add: plan_push_def plan_push_str_def)
  then have "cat_segments segs (fst (finish_lines pl)) = joined (blocks plan_specs None (split_inclusive v))"
    using read_blocks [of new_plan v segs pl] assms(1) by (simp add: parse_lines_read new_plan_def new_lines_def)
  with segs show ?thesis by (simp add: plan_finish_def flip: map_segments_cat)
qed

lemma assistant_finish_plan:
  assumes "plan_push pl (visible_text (fst (citation_finish c))) = Some (o2, pl2)"
  shows "fst (assistant_finish (planning (c, pl))) =
    \<lparr>ac_visible = visible_text o2 @ visible_text (fst (plan_finish pl2)),
     ac_citations = extracted (fst (citation_finish c)),
     ac_plan = extracted o2 @ extracted (fst (plan_finish pl2))\<rparr>"
  using assms
  by (auto simp: assistant_finish_def planning_def parse_visible_text_def plan_push_def chunk_is_empty_def Let_def
      split: prod.splits)

lemma assistant_finish_chat:
  "fst (assistant_finish (chatting c)) = chat_output (fst (citation_finish c))"
  by (simp add: assistant_finish_def chatting_def parse_visible_text_def chat_output_def split: prod.splits)

lemma cat_plan_append: "cat_plan a (b @ c) = cat_plan (cat_plan a b) c"
  by (simp add: cat_plan_def cat_segments_def)

lemma plan_mode_reference:
  assumes "list_all whole_text cs"
  shows "\<exists>out p. feed assistant_push_str empty_assistant cat_assistant (new_assistant True) cs = Some (out, p) \<and>
    cat_assistant out (fst (assistant_finish p)) = assistant_reference True (concat cs)"
proof -
  let ?s = "concat cs" and ?push = "chain_push citation_push_str visible_text plan_push"
  have s: "whole_text ?s" using whole_text_concat [OF assms] .
  obtain o1 o2 c pl where r: "?push (new_citation, new_plan) ?s = Some ((o1, o2), (c, pl))"
    using assistant.chain.push_returns [OF _ s, of "(new_citation, new_plan)"] new_citation_ok by fastforce
  then have f: "feed assistant_push_str empty_assistant cat_assistant (new_assistant True) cs =
    Some (plan_output (o1, o2), planning (c, pl))"
    using assistant.chain.feed_concat [OF _ assms, of "(new_citation, new_plan)"] new_citation_ok by (simp add: plan_feed)
  note c = assistant.chain_pushD [OF r, simplified]
  let ?tail = "fst (citation_finish c)"
  obtain o3 pl2 where o3: "plan_push pl (visible_text ?tail) = Some (o3, pl2)"
    using plans.push_returns citation_tail_whole [OF citations.push_ok [OF new_citation_ok s c(1)]] by blast
  have cut: "cat_chunk o1 ?tail = cut_citations ?s" using push_then_finish [of ?s] c(1) by auto
  have v: "whole_text (visible_text o1)" "whole_text (visible_text ?tail)"
    using assistant.visible_whole [OF new_citation_ok s c(1)]
      citation_tail_whole [OF citations.push_ok [OF new_citation_ok s c(1)]] by simp_all
  have "plan_push new_plan (visible_text (cut_citations ?s)) = Some (cat_plan_chunk o2 o3, pl2)"
    using plans.push_append [OF _ v c(2) o3] by (simp flip: cut)
  from plan_finish_all [OF _ this] v
  have "cat_plan_chunk (cat_plan_chunk o2 o3) (fst (plan_finish pl2)) =
    map_segments (joined (blocks plan_specs None (split_inclusive (visible_text (cut_citations ?s)))))"
    by (simp add: whole_text_append flip: cut)
  then have "cat_assistant (plan_output (o1, o2)) (fst (assistant_finish (planning (c, pl)))) =
    assistant_reference True ?s"
    unfolding assistant_finish_plan [OF o3] cut [symmetric]
    by (simp add: cat_assistant_def plan_output_def assistant_reference_def cat_plan_chunk_def map_segments_eq
        normal_texts_cat cat_plan_append Let_def normal_texts_def [of "[]"] cat_plan_def [of "[]"] flip: cut)
  with f show ?thesis by blast
qed

section \<open>Plans of a whole text\<close>

lemma plan_segments_all:
  assumes "whole_text s" "plan_push_str new_plan s = (out, p)"
  shows "visible_text out @ visible_text (fst (plan_finish p)) = normal_texts (blocks plan_specs None (split_inclusive s))"
    "cat_plan (extracted out) (extracted (fst (plan_finish p))) =
      map map_segment (joined (blocks plan_specs None (split_inclusive s)))"
  using plan_finish_all [of s out p] assms
  by (simp_all add: plan_push_def cat_plan_chunk_def map_segments_eq normal_texts_cat normal_texts_def [of "[]"])

text \<open>\<open>strip_proposed_plan_blocks\<close> leaves the lines that are in no block.\<close>

lemma strip_is_reference:
  "whole_text s \<Longrightarrow> strip_proposed_plan_blocks s = normal_texts (blocks plan_specs None (split_inclusive s))"
  using plan_segments_all(1) by (simp add: strip_proposed_plan_blocks_def split: prod.split)

abbreviation last_plan :: "bool \<times> string \<Rightarrow> plan_tag tagged_segment list \<Rightarrow> bool \<times> string" where
  "last_plan acc segs \<equiv> foldl plan_text_step acc (map map_segment segs)"

lemma last_plan_push: "last_plan acc (push_segment segs x) = plan_text_step (last_plan acc segs) (map_segment x)"
proof (cases segs rule: rev_cases)
  case Nil
  then show ?thesis
    by (cases acc; cases x rule: map_segment.cases) (simp_all add: push_segment_simps)
next
  case (snoc ys y)
  obtain saw t where "last_plan acc ys = (saw, t)" by force
  with snoc show ?thesis
    by (cases x rule: map_segment.cases; cases y rule: map_segment.cases) (simp_all add: push_segment_simps)
qed

lemma last_plan_cat: "last_plan acc (cat_segments a b) = last_plan (last_plan acc a) b"
proof (induction b rule: rev_induct)
  case (snoc x b)
  then show ?case using last_plan_push [of acc "cat_segments a b" x] by (simp add: cat_segments_def)
qed simp

text \<open>\<open>extract_proposed_plan_text\<close> gives the lines of the last block, if there is one.\<close>

lemma extract_is_reference:
  assumes "whole_text s"
  shows "extract_proposed_plan_text s =
    (let (saw, plan) = last_plan (False, []) (blocks plan_specs None (split_inclusive s))
     in if saw then Some plan else None)"
proof -
  obtain segs q where q: "parse_lines new_plan s = (segs, q)" by force
  have "cat_segments segs (fst (finish_lines q)) = joined (blocks plan_specs None (split_inclusive s))"
    using read_blocks [of new_plan s segs q] assms q by (simp add: parse_lines_read new_plan_def new_lines_def)
  then have "last_plan (last_plan (False, []) segs) (fst (finish_lines q)) =
    last_plan (False, []) (blocks plan_specs None (split_inclusive s))"
    by (metis foldl_Nil last_plan_cat list.map(1))
  then show ?thesis
    by (simp add: extract_proposed_plan_text_def plan_push_str_def plan_finish_def q map_segments_eq)
qed

section \<open>The stream\<close>

text \<open>
  C17. The text of the assistant is parsed the same however it is streamed: in both modes and for
  any chunks, every call of \<open>AssistantTextStreamParser::push_str\<close> returns, and the outputs
  of the calls with that of \<open>finish\<close> are the visible text, the citations and the plan
  segments of the whole text, with the citations cut out first and the plan blocks then found
  line by line.
\<close>

theorem assistant_text_chunking:
  assumes "list_all whole_text cs"
  shows "\<exists>out p. feed assistant_push_str empty_assistant cat_assistant (new_assistant m) cs = Some (out, p) \<and>
    cat_assistant out (fst (assistant_finish p)) = assistant_reference m (concat cs)"
proof (cases m)
  case True
  then show ?thesis using plan_mode_reference [OF assms] by simp
next
  case False
  obtain out c where c: "citation_push_str new_citation (concat cs) = Some (out, c)"
    "cat_chunk out (fst (citation_finish c)) = cut_citations (concat cs)" using push_then_finish by blast
  then have "feed assistant_push_str empty_assistant cat_assistant (new_assistant False) cs = Some (chat_output out, chatting c)"
    using citations.feed_concat [OF new_citation_ok assms] by (simp add: chat_feed)
  moreover have "cat_assistant (chat_output out) (chat_output (fst (citation_finish c))) = assistant_reference False (concat cs)"
    unfolding assistant_reference_def c(2) [symmetric] by (simp add: cat_assistant_def chat_output_def cat_plan_def)
  ultimately show ?thesis using False assistant_finish_chat by auto
qed

theorem assistant_text_chunking_witness:
  "list_all whole_text [''Intro'' @ [nl] @ ''<proposed'', ''_plan>'' @ [nl] @ ''step <oai-mem-citation>d</oai-mem-'',
     ''citation>'' @ [nl] @ ''</proposed_plan>'' @ [nl] @ ''Outro''] \<and>
   (\<exists>out p. feed assistant_push_str empty_assistant cat_assistant (new_assistant True)
      [''Intro'' @ [nl] @ ''<proposed'', ''_plan>'' @ [nl] @ ''step <oai-mem-citation>d</oai-mem-'',
       ''citation>'' @ [nl] @ ''</proposed_plan>'' @ [nl] @ ''Outro''] = Some (out, p) \<and>
    cat_assistant out (fst (assistant_finish p)) =
      \<lparr>ac_visible = ''Intro'' @ [nl] @ ''Outro'', ac_citations = [''d''],
       ac_plan = [PlanNormal (''Intro'' @ [nl]), ProposedPlanStart, ProposedPlanDelta (''step '' @ [nl]),
                  ProposedPlanEnd, PlanNormal ''Outro'']\<rparr>)"
    (is "list_all whole_text ?cs \<and> (\<exists>out p. _ \<and> _ = ?out)")
proof -
  have w: "list_all whole_text ?cs" by code_simp
  have r: "assistant_reference True (concat ?cs) = ?out" by code_simp
  from w assistant_text_chunking [OF w, of True] show ?thesis unfolding r by (rule conjI)
qed

end
