(* ===== verification/Utf8_Stream.thy ===== *)
theory Utf8_Stream
  imports Citation_Stream
begin

text \<open>
  Streams of bytes: \<open>codex/codex-rs/utils/stream-parser/src/utf8_stream.rs\<close>. It wraps any parser that
  meets the contract \<open>stream_text_parser\<close> and keeps the bytes of a code point that has not ended.
  \<open>std::str::from_utf8\<close> is modelled with the place and the length of an error.
\<close>

section \<open>Validation\<close>

text \<open>
  One code point at the start of a non-empty text: \<^term>\<open>Ok n\<close> for \<open>n\<close> bytes, \<^term>\<open>Err (Some k)\<close> for an
  error of \<open>k\<close> bytes, and \<^term>\<open>Err None\<close> if the text ends within the code point.
\<close>

definition second_ok :: "nat \<Rightarrow> nat \<Rightarrow> bool" where
  "second_ok a b =
     (if a = 0xE0 then 0xA0 \<le> b \<and> b \<le> 0xBF
      else if a = 0xED then 0x80 \<le> b \<and> b \<le> 0x9F
      else if a = 0xF0 then 0x90 \<le> b \<and> b \<le> 0xBF
      else if a = 0xF4 then 0x80 \<le> b \<and> b \<le> 0x8F
      else 0x80 \<le> b \<and> b \<le> 0xBF)"

fun continues :: "nat \<Rightarrow> nat \<Rightarrow> string \<Rightarrow> (nat option, nat) result" where
  "continues k 0 cs = Ok k"
| "continues k (Suc n) [] = Err None"
| "continues k (Suc n) (c # cs) = (if is_continuation c then continues (Suc k) n cs else Err (Some k))"

fun utf8_char :: "string \<Rightarrow> (nat option, nat) result" where
  "utf8_char [] = Err None"
| "utf8_char (c # cs) =
     (let a = of_char c in
      if a < 0x80 then Ok 1
      else if a < 0xC2 \<or> 0xF4 < a then Err (Some 1)
      else (case cs of
              [] \<Rightarrow> Err None
            | d # ds \<Rightarrow>
                if second_ok a (of_char d) then
                  continues 2 (if a < 0xE0 then 0 else if a < 0xF0 then 1 else 2) ds
                else Err (Some 1)))"

lemma continues_bound: "continues k n cs = Ok m \<Longrightarrow> m = k + n \<and> n \<le> length cs \<and> list_all is_continuation (take n cs)"
  by (induction k n cs rule: continues.induct) (auto split: if_splits)

lemma continues_append: "continues k n cs \<noteq> Err None \<Longrightarrow> continues k n (cs @ b) = continues k n cs"
  by (induction k n cs rule: continues.induct) auto

lemma utf8_char_append: "utf8_char s \<noteq> Err None \<Longrightarrow> utf8_char (s @ b) = utf8_char s"
  by (cases s rule: utf8_char.cases)
    (auto simp: Let_def continues_append split: list.splits if_splits)

lemma second_continuation: "second_ok a (of_char d) \<Longrightarrow> is_continuation d"
  by (auto simp: second_ok_def is_continuation_def Let_def split: if_splits)

lemma utf8_char_OkD:
  assumes "utf8_char s = Ok n"
  obtains c w where "s = (c # w) @ drop n s" "length (c # w) = n" "list_all is_continuation w" "encoding_length c = n"
proof (cases s)
  case (Cons c cs)
  let ?a = "of_char c :: nat"
  show ?thesis
  proof (cases "?a < 0x80")
    case True
    with assms Cons show ?thesis by (intro that [of c "[]"]) (auto simp: encoding_length_def)
  next
    case False
    then obtain d ds where ds: "cs = d # ds" "second_ok ?a (of_char d)" "\<not> (?a < 0xC2 \<or> 0xF4 < ?a)"
      and k: "continues 2 (if ?a < 0xE0 then 0 else if ?a < 0xF0 then 1 else 2) ds = Ok n"
      using assms Cons by (auto simp: Let_def split: list.splits if_splits)
    note k = continues_bound [OF k]
    show ?thesis
    proof (rule that [of c "d # take (n - 2) ds"])
      show "length (c # d # take (n - 2) ds) = n" using k by auto
      show "s = (c # d # take (n - 2) ds) @ drop n s" using k Cons ds by (auto simp: numeral_2_eq_2)
      show "list_all is_continuation (d # take (n - 2) ds)" using k second_continuation ds(2) by auto
      show "encoding_length c = n" using k False ds(3) by (auto simp: encoding_length_def Let_def)
    qed
  qed
qed (use assms in simp)

lemma utf8_char_pos: "utf8_char s = Ok n \<Longrightarrow> 0 < n \<and> n \<le> length s"
  by (erule utf8_char_OkD) (metis length_append le_add1 length_Cons zero_less_Suc)

lemma continues_take: "continues k n cs = Ok m \<Longrightarrow> n \<le> j \<Longrightarrow> continues k n (take j cs) = Ok m"
proof (induction k n cs arbitrary: j rule: continues.induct)
  case (3 k n c cs)
  then show ?case by (cases j) (auto split: if_splits)
qed simp_all

lemma utf8_char_take:
  assumes "utf8_char s = Ok n" "n \<le> v"
  shows "utf8_char (take v s) = Ok n"
proof (cases s)
  case (Cons c cs)
  let ?a = "of_char c :: nat"
  obtain j where j: "v = Suc j" using assms utf8_char_pos [OF assms(1)] by (cases v) auto
  show ?thesis
  proof (cases "?a < 0x80")
    case False
    then obtain d ds where ds: "cs = d # ds" "second_ok ?a (of_char d)" "\<not> (?a < 0xC2 \<or> 0xF4 < ?a)"
      and k: "continues 2 (if ?a < 0xE0 then 0 else if ?a < 0xF0 then 1 else 2) ds = Ok n"
      using assms Cons by (auto simp: Let_def split: list.splits if_splits)
    then obtain i where i: "j = Suc i" using continues_bound [OF k] assms(2) j by (cases j) auto
    have "continues 2 (if ?a < 0xE0 then 0 else if ?a < 0xF0 then 1 else 2) (take i ds) = Ok n"
      using continues_bound [OF k] assms(2) i j by (intro continues_take [OF k]) auto
    with False ds Cons i j show ?thesis by simp
  qed (use assms(1) Cons j in simp)
qed (use assms in simp)

text \<open>The whole text: nothing, or the place and the length of the first error.\<close>

function from_utf8 :: "string \<Rightarrow> (nat \<times> nat option) option" where
  "from_utf8 s =
     (if s = [] then None
      else (case utf8_char s of
              Err e \<Rightarrow> Some (0, e)
            | Ok n \<Rightarrow> map_option (\<lambda>(v, e). (n + v, e)) (from_utf8 (drop n s))))"
  by pat_completeness auto
termination
  by (relation "measure length") (auto dest: utf8_char_pos)

declare from_utf8.simps [simp del]

lemma from_utf8_Nil [simp]: "from_utf8 [] = None"
  by (simp add: from_utf8.simps)

lemma from_utf8_append:
  "from_utf8 a = None \<Longrightarrow> from_utf8 (a @ b) = map_option (\<lambda>(v, e). (length a + v, e)) (from_utf8 b)"
proof (induction a rule: from_utf8.induct)
  case (1 a)
  show ?case
  proof (cases "a = []")
    case True
    then show ?thesis by (simp add: option.map_ident case_prod_unfold)
  next
    case False
    with 1(2) obtain n where n: "utf8_char a = Ok n" "from_utf8 (drop n a) = None"
      by (subst (asm) from_utf8.simps) (auto split: sum.splits)
    note n' = utf8_char_pos [OF n(1)]
    have "from_utf8 (a @ b) = map_option (\<lambda>(v, e). (n + v, e)) (from_utf8 (drop n a @ b))"
      using False n n' utf8_char_append [of a b] by (subst from_utf8.simps) simp
    also have "\<dots> = map_option (\<lambda>(v, e). (length a + v, e)) (from_utf8 b)"
      using 1(1) [OF False n] n' by (simp add: option.map_comp comp_def case_prod_unfold)
    finally show ?thesis .
  qed
qed

lemma from_utf8_error:
  assumes "from_utf8 s = Some (v, e)"
  shows "v < length s \<and> from_utf8 (take v s) = None \<and> utf8_char (drop v s) = Err e"
  using assms
proof (induction s arbitrary: v rule: from_utf8.induct)
  case (1 s)
  have ne: "s \<noteq> []" using 1(2) by auto
  show ?case
  proof (cases "utf8_char s")
    case (Inl e')
    with ne 1(2) show ?thesis by (simp add: from_utf8.simps [of s])
  next
    case (Inr n)
    with ne 1(2) obtain u where u: "from_utf8 (drop n s) = Some (u, e)" "v = n + u"
      by (auto simp: from_utf8.simps [of s])
    note n = utf8_char_pos [OF Inr] and ih = 1(1) [OF ne Inr u(1)]
    have "utf8_char (take v s) = Ok n" using utf8_char_take [OF Inr, of v] u(2) by simp
    then have "from_utf8 (take v s) = None"
      using n ih u(2) ne by (subst from_utf8.simps) (simp add: drop_take)
    with ih n u(2) show ?thesis by (auto simp: add.commute)
  qed
qed

lemma from_utf8_definite:
  assumes "from_utf8 s = Some (v, Some l)"
  shows "from_utf8 (s @ b) = Some (v, Some l)"
proof -
  note e = from_utf8_error [OF assms]
  have "utf8_char (drop v s @ b) = Err (Some l)" using e utf8_char_append [of "drop v s" b] by simp
  then have "from_utf8 (drop v s @ b) = Some (0, Some l)"
    using e by (subst from_utf8.simps) auto
  with from_utf8_append [of "take v s" "drop v s @ b"] e
  have "from_utf8 (take v s @ drop v s @ b) = Some (v, Some l)" by simp
  then show ?thesis by (simp only: append_take_drop_id flip: append_assoc)
qed

lemma incomplete_rest:
  assumes "from_utf8 s = Some (v, None)"
  shows "from_utf8 (drop v s) = Some (0, None)"
  using from_utf8_error [OF assms] by (subst from_utf8.simps) auto

text \<open>A valid text consists of whole code points.\<close>

lemma from_utf8_whole: "from_utf8 s = None \<Longrightarrow> whole_text s"
proof (induction s rule: from_utf8.induct)
  case (1 s)
  show ?case
  proof (cases "s = []")
    case False
    with 1(2) obtain n where n: "utf8_char s = Ok n" "from_utf8 (drop n s) = None"
      by (subst (asm) from_utf8.simps) (auto split: sum.splits)
    obtain c w where w: "s = (c # w) @ drop n s" "length (c # w) = n" "list_all is_continuation w" "encoding_length c = n"
      using utf8_char_OkD [OF n(1)] .
    have "takeWhile is_continuation w = w" "dropWhile is_continuation w = []"
      using w(3) by (simp_all add: list_all_iff)
    then have c: "chars (c # w) = [c # w]" by (simp only: chars.simps)
    have "whole_text (c # w)" using w(2,4) unfolding whole_text_def c by simp
    from whole_text_append [OF this 1(1) [OF False n]] w(1) show ?thesis by metis
  qed simp
qed

section \<open>The parser\<close>

record 'p utf8_parser =
  inner :: 'p
  pending_utf8 :: string

datatype utf8_error =
    InvalidUtf8 (valid_up_to: nat) (error_len: nat)
  | IncompleteUtf8AtEof

definition new_utf8 :: "'p \<Rightarrow> 'p utf8_parser" where
  "new_utf8 p = \<lparr>inner = p, pending_utf8 = []\<rparr>"

text \<open>
  The parser inside is given by its \<open>push_str\<close> and \<open>finish\<close>. An error gives back the
  state before the call, which is what truncating the buffer does.
\<close>

definition push_bytes ::
  "('p \<Rightarrow> string \<Rightarrow> ('e text_chunk \<times> 'p) option) \<Rightarrow> 'p utf8_parser \<Rightarrow> string
   \<Rightarrow> ((utf8_error, 'e text_chunk) result \<times> 'p utf8_parser) option" where
  "push_bytes push st chunk =
     (let bytes = pending_utf8 st @ chunk in
      case from_utf8 bytes of
        None \<Rightarrow> map_option (\<lambda>(out, p). (Ok out, \<lparr>inner = p, pending_utf8 = []\<rparr>)) (push (inner st) bytes)
      | Some (v, Some l) \<Rightarrow> Some (Err (InvalidUtf8 v l), st)
      | Some (v, None) \<Rightarrow>
          if v = 0 then Some (Ok empty_chunk, st\<lparr>pending_utf8 := bytes\<rparr>)
          else (case from_utf8 (take v bytes) of
                  None \<Rightarrow> map_option (\<lambda>(out, p). (Ok out, \<lparr>inner = p, pending_utf8 = drop v bytes\<rparr>))
                            (push (inner st) (take v bytes))
                | Some (v', l) \<Rightarrow> Some (Err (InvalidUtf8 v' (case l of Some l \<Rightarrow> l | None \<Rightarrow> 0)), st)))"

definition utf8_finish ::
  "('p \<Rightarrow> string \<Rightarrow> ('e text_chunk \<times> 'p) option) \<Rightarrow> ('p \<Rightarrow> 'e text_chunk \<times> 'p) \<Rightarrow> 'p utf8_parser
   \<Rightarrow> ((utf8_error, 'e text_chunk) result \<times> 'p utf8_parser) option" where
  "utf8_finish push fin st =
     (case from_utf8 (pending_utf8 st) of
        Some (v, Some l) \<Rightarrow> Some (Err (InvalidUtf8 v l), st)
      | Some (v, None) \<Rightarrow> Some (Err IncompleteUtf8AtEof, st)
      | None \<Rightarrow>
          Option.bind
            (if pending_utf8 st = [] then Some (empty_chunk, inner st) else push (inner st) (pending_utf8 st))
            (\<lambda>(out, p). let (tail, q) = fin p in Some (Ok (cat_chunk out tail), \<lparr>inner = q, pending_utf8 = []\<rparr>)))"

definition into_inner :: "'p utf8_parser \<Rightarrow> (utf8_error, 'p) result" where
  "into_inner st =
     (if pending_utf8 st = [] then Ok (inner st)
      else (case from_utf8 (pending_utf8 st) of
              None \<Rightarrow> Ok (inner st)
            | Some (v, Some l) \<Rightarrow> Err (InvalidUtf8 v l)
            | Some (v, None) \<Rightarrow> Err IncompleteUtf8AtEof))"

definition into_inner_lossy :: "'p utf8_parser \<Rightarrow> 'p" where
  "into_inner_lossy st = inner st"

text \<open>A stream of bytes up to its end, or up to the first error.\<close>

fun run_bytes ::
  "('p \<Rightarrow> string \<Rightarrow> ('e text_chunk \<times> 'p) option) \<Rightarrow> ('p \<Rightarrow> 'e text_chunk \<times> 'p) \<Rightarrow> 'p utf8_parser
   \<Rightarrow> string list \<Rightarrow> (utf8_error, 'e text_chunk) result option" where
  "run_bytes push fin st [] = map_option fst (utf8_finish push fin st)"
| "run_bytes push fin st (c # cs) =
     Option.bind (push_bytes push st c) (\<lambda>(r, st').
       case r of
         Err e \<Rightarrow> Some (Err e)
       | Ok out \<Rightarrow> map_option (map_sum id (cat_chunk out)) (run_bytes push fin st' cs))"

section \<open>Bytes are text\<close>

text \<open>What the parser inside gives for a whole text.\<close>

definition result_of ::
  "('p \<Rightarrow> string \<Rightarrow> ('e text_chunk \<times> 'p) option) \<Rightarrow> ('p \<Rightarrow> 'e text_chunk \<times> 'p) \<Rightarrow> 'p \<Rightarrow> string \<Rightarrow> 'e text_chunk option" where
  "result_of push fin p s = map_option (\<lambda>(out, q). cat_chunk out (fst (fin q))) (push p s)"

lemma run_bytes_step:
  assumes "push_bytes push st c = Some (Ok out, st')"
  shows "run_bytes push fin st (c # cs) = Some (Ok whole) \<longleftrightarrow>
    (\<exists>rest. run_bytes push fin st' cs = Some (Ok rest) \<and> whole = cat_chunk out rest)"
proof (cases "run_bytes push fin st' cs")
  case (Some r)
  then show ?thesis using assms by (cases r) auto
qed (use assms in simp)

locale byte_stream = stream_text_parser push empty_chunk cat_chunk ok
  for push :: "'p \<Rightarrow> string \<Rightarrow> ('e text_chunk \<times> 'p) option" and ok +
  fixes fin :: "'p \<Rightarrow> 'e text_chunk \<times> 'p"
begin

lemma result_of_append:
  assumes "ok p" "whole_text a" "push p a = Some (out, q)" "whole_text b"
  shows "result_of push fin p (a @ b) = map_option (cat_chunk out) (result_of push fin q b)"
proof -
  obtain o2 r where "push q b = Some (o2, r)" using push_returns push_ok assms by blast
  with push_append [OF assms(1,2,4,3) this] show ?thesis by (simp add: result_of_def cat_chunk_assoc)
qed

lemma run_bytes_exact:
  assumes "ok p" "r = [] \<or> from_utf8 r = Some (0, None)"
  shows "run_bytes push fin \<lparr>inner = p, pending_utf8 = r\<rparr> cs = Some (Ok out) \<longleftrightarrow>
    from_utf8 (r @ concat cs) = None \<and> result_of push fin p (r @ concat cs) = Some out"
  using assms
proof (induction cs arbitrary: p r out)
  case Nil
  then show ?case
    using push_nothing [of p] by (auto simp: utf8_finish_def result_of_def split: prod.splits)
next
  case (Cons c cs)
  let ?b = "r @ c" and ?st = "\<lparr>inner = p, pending_utf8 = r\<rparr>"
  have step: "run_bytes push fin ?st (c # cs) = Some (Ok out) \<longleftrightarrow>
      from_utf8 (?b @ concat cs) = None \<and> result_of push fin p (?b @ concat cs) = Some out"
    if r': "from_utf8 a = None" "?b = a @ r'" "r' = [] \<or> from_utf8 r' = Some (0, None)"
      "push p a = Some (o1, q)" "push_bytes push ?st c = Some (Ok o1, \<lparr>inner = q, pending_utf8 = r'\<rparr>)" for a r' o1 q
  proof -
    have q: "ok q" using push_ok Cons.prems(1) from_utf8_whole r'(1,4) by blast
    have "from_utf8 (?b @ concat cs) = None \<longleftrightarrow> from_utf8 (r' @ concat cs) = None"
      using from_utf8_append [OF r'(1), of "r' @ concat cs"] r'(2) by simp
    moreover have "result_of push fin p (?b @ concat cs) = map_option (cat_chunk o1) (result_of push fin q (r' @ concat cs))"
      if "from_utf8 (r' @ concat cs) = None"
      using result_of_append [OF Cons.prems(1) from_utf8_whole [OF r'(1)] r'(4) from_utf8_whole [OF that]] r'(2) by simp
    ultimately show ?thesis
      using Cons.IH [OF q r'(3)]
      by (cases "result_of push fin q (r' @ concat cs)") (auto simp: run_bytes_step [OF r'(5)] simp del: run_bytes.simps)
  qed
  consider (valid) "from_utf8 ?b = None" | (bad) v l where "from_utf8 ?b = Some (v, Some l)"
    | (open_end) v where "from_utf8 ?b = Some (v, None)" by (metis not_None_eq surj_pair)
  then show ?case
  proof cases
    case valid
    obtain o1 q where "push p ?b = Some (o1, q)" using push_returns Cons.prems(1) from_utf8_whole valid by blast
    with step [of ?b "[]" o1 q] valid show ?thesis by (simp add: push_bytes_def)
  next
    case bad
    with from_utf8_definite [OF bad, of "concat cs"] show ?thesis by (simp add: push_bytes_def)
  next
    case open_end
    note v = from_utf8_error [OF open_end] incomplete_rest [OF open_end]
    obtain o1 q where q: "push p (take v ?b) = Some (o1, q)"
      using push_returns Cons.prems(1) from_utf8_whole v by blast
    have "push_bytes push ?st c = Some (Ok o1, \<lparr>inner = q, pending_utf8 = drop v ?b\<rparr>)"
      using open_end v q push_nothing [OF Cons.prems(1)]
      by (cases "v = 0") (simp_all add: push_bytes_def Let_def del: take_append drop_append)
    from step [OF _ _ _ q this] v show ?thesis
      by (simp del: take_append drop_append run_bytes.simps)
  qed
qed

end

interpretation citation_bytes: byte_stream citation_push_str citation_ok citation_finish
  by unfold_locales

text \<open>
  C26. Bytes are read as the text they encode, however they are cut: a \<open>Utf8StreamParser\<close> around
  the citation parser accepts the chunks of a stream exactly if all its bytes together are
  valid UTF-8, also when a code point is split, and then gives the visible text and the
  citations of that text.
\<close>

theorem byte_stream_is_text:
  "run_bytes citation_push_str citation_finish (new_utf8 new_citation) cs = Some (Ok out) \<longleftrightarrow>
   from_utf8 (concat cs) = None \<and> out = cut_citations (concat cs)"
proof -
  have "result_of citation_push_str citation_finish new_citation (concat cs) = Some (cut_citations (concat cs))"
    using push_then_finish [of "concat cs"] by (auto simp: result_of_def)
  then show ?thesis
    using citation_bytes.run_bytes_exact [OF new_citation_ok, of "[]" cs out] by (auto simp: new_utf8_def)
qed

text \<open>A rejected chunk changes nothing, and a code point that has not ended is kept for the next chunk.\<close>

lemma rejected_chunk_rolls_back:
  assumes "push_bytes push st c = Some (Err e, st')"
  shows "st' = st"
  using assms by (auto simp: push_bytes_def Let_def split: option.splits prod.splits if_splits)

lemma split_code_point:
  "run_bytes citation_push_str citation_finish (new_utf8 new_citation) [[CHR 0xC3], [CHR 0xA9]] =
     Some (Ok \<lparr>visible_text = [CHR 0xC3, CHR 0xA9], extracted = []\<rparr>)"
  "run_bytes citation_push_str citation_finish (new_utf8 new_citation) [[CHR 0xC3], [CHR 0x28]] =
     Some (Err (InvalidUtf8 0 1))"
  "run_bytes citation_push_str citation_finish (new_utf8 new_citation) [[CHR 0xC3]] = Some (Err IncompleteUtf8AtEof)"
  by code_simp+

end
