(* ===== verification/Git_Validation.thy ===== *)
theory Git_Validation
  imports Utf8_Stream
begin

text \<open>
  What the Git runtime of the web platform lets through to Git:
  \<open>apps/web/crates/git-runtime/src/validation.rs\<close> and the validation and parsing functions of
  \<open>lib.rs\<close>. \<open>Url::parse\<close> and \<open>Uuid::parse_str\<close> are arguments; a parsed UUID is given by its
  canonical text.
\<close>

section \<open>Sources and refs\<close>

datatype git_error =
    InvalidSource string
  | InvalidRef string
  | UnsafePath string
  | GitConflict string
  | UnsupportedImage string
  | ImageTooLarge
  | GitFailure string string
  | GitIo string
  | NoChanges

record url =
  url_scheme :: string
  url_host :: "string option"
  url_username :: string
  url_password :: "string option"
  url_path :: string
  url_query :: "string option"
  url_fragment :: "string option"

record git_config =
  allow_local :: bool
  parse_url :: "string \<Rightarrow> url option"
  parse_uuid :: "string \<Rightarrow> string option"

definition ascii_alphanumeric :: "char \<Rightarrow> bool" where
  "ascii_alphanumeric c =
     (let n = of_char c :: nat in 48 \<le> n \<and> n \<le> 57 \<or> 65 \<le> n \<and> n \<le> 90 \<or> 97 \<le> n \<and> n \<le> 122)"

definition trim_slashes :: "string \<Rightarrow> string" where
  "trim_slashes s = rev (dropWhile (\<lambda>c. c = CHR ''/'') (rev (dropWhile (\<lambda>c. c = CHR ''/'') s)))"

definition is_scp_source :: "string \<Rightarrow> bool" where
  "is_scp_source source =
     (case split_once CHR '':'' source of
        None \<Rightarrow> False
      | Some (authority, path) \<Rightarrow>
          (case split_once CHR ''@'' authority of
             None \<Rightarrow> False
           | Some (user, host) \<Rightarrow>
               user \<noteq> [] \<and> host \<noteq> [] \<and> trim_slashes path \<noteq> [] \<and> \<not> starts_with path ''-'' \<and>
               list_all (\<lambda>c. ascii_alphanumeric c \<or> c \<in> set ''@._/-'') (authority @ path)))"

definition parse_source :: "git_config \<Rightarrow> string \<Rightarrow> (git_error, string) result" where
  "parse_source cfg source =
     (let source = trim source in
      if source = [] \<or> starts_with source ''-'' \<or>
         list_ex (\<lambda>c. c \<in> {CHR 0x00, CHR 0x0A, CHR 0x0D}) source \<or> has_whitespace source
      then Err (InvalidSource ''malformed source'')
      else if allow_local cfg \<and> starts_with source ''/'' then Ok source
      else if is_scp_source source then Ok source
      else (case parse_url cfg source of
              None \<Rightarrow> Err (InvalidSource ''expected HTTPS or SSH URL'')
            | Some u \<Rightarrow>
                if \<not> (url_scheme u \<in> {''https'', ''ssh''} \<or> allow_local cfg \<and> url_scheme u = ''file'')
                then Err (InvalidSource ''unsupported URL scheme'')
                else if url_scheme u \<noteq> ''file'' \<and> url_host u = None
                then Err (InvalidSource ''remote URL omitted host'')
                else if url_password u \<noteq> None \<or> url_scheme u = ''https'' \<and> url_username u \<noteq> []
                then Err (InvalidSource ''embedded credentials are not allowed'')
                else if url_query u \<noteq> None \<or> url_fragment u \<noteq> None \<or> trim_slashes (url_path u) = []
                then Err (InvalidSource ''malformed repository URL'')
                else Ok source))"

definition validate_source :: "git_config \<Rightarrow> string \<Rightarrow> (git_error, string) result" where
  "validate_source cfg source =
     (case strip_prefix ''managed://'' (trim source) of
        Some value \<Rightarrow>
          (case parse_uuid cfg value of
             None \<Rightarrow> Err (InvalidSource ''invalid managed project id'')
           | Some project_id \<Rightarrow> Ok (''managed://'' @ project_id))
      | None \<Rightarrow> parse_source cfg source)"

definition is_control :: "string \<Rightarrow> bool" where
  "is_control ch =
     (case map of_char ch :: nat list of
        [n] \<Rightarrow> n < 32 \<or> n = 127
      | [a, b] \<Rightarrow> a = 0xC2 \<and> 0x80 \<le> b \<and> b < 0xA0
      | _ \<Rightarrow> False)"

definition ref_special :: "string \<Rightarrow> bool" where
  "ref_special ch = list_ex (\<lambda>c. ch = [c]) ('' ~^:?*['' @ [CHR 0x5C])"

definition validate_ref :: "string \<Rightarrow> (git_error, string) result" where
  "validate_ref git_ref =
     (let value = trim git_ref in
      if value = [] \<or> 255 < length value \<or> value = ''@'' \<or>
         list_ex (starts_with value) [''-'', ''.'', ''/''] \<or> list_ex (ends_with value) [''.'', ''/''] \<or>
         contains_str value ''..'' \<or> contains_str value [CHR ''@'', CHR 0x7B] \<or> contains_str value ''//'' \<or>
         list_ex (\<lambda>ch. is_control ch \<or> ref_special ch) (chars value) \<or>
         list_ex (\<lambda>part. part = [] \<or> starts_with part ''.'' \<or> ends_with part ''.lock'') (split_char CHR ''/'' value)
      then Err (InvalidRef ''malformed branch name'')
      else Ok value)"

definition validate_commit_sha :: "string \<Rightarrow> (git_error, string) result" where
  "validate_commit_sha value =
     (let value = trim value in
      if \<not> (7 \<le> length value \<and> length value \<le> 64) \<or>
         \<not> list_all (\<lambda>c. c \<in> set ''0123456789abcdefABCDEF'') value
      then Err (InvalidRef ''commit id must be a hexadecimal object id'')
      else Ok (map ascii_lower value))"

section \<open>Paths\<close>

definition validate_relative_path :: "string \<Rightarrow> (git_error, unit) result" where
  "validate_relative_path value =
     (if value = [] \<or> CHR 0x00 \<in> set value then Err (UnsafePath ''empty or NUL path'')
      else if starts_with value ''./'' \<or> contains_str value ''//'' \<or>
              list_ex (\<lambda>c. c \<in> {CurDir, ParentDir, RootDir}) (path_components value)
      then Err (UnsafePath ''path escapes the workspace'')
      else Ok ())"

record commit_author =
  author_name :: string
  author_email :: string

definition validate_commit_input ::
  "string list \<Rightarrow> string \<Rightarrow> commit_author \<Rightarrow> (git_error, unit) result" where
  "validate_commit_input selected_paths message author =
     (if selected_paths = [] then Err NoChanges
      else bindR (collectR validate_relative_path selected_paths) (\<lambda>_.
        if trim message = [] \<or> 10000 < length message \<or> CHR 0x00 \<in> set message
        then Err (GitConflict ''invalid commit message'')
        else if trim (author_name author) = [] \<or>
                list_ex (\<lambda>c. c \<in> {CHR 0x00, CHR 0x0A, CHR 0x0D}) (author_name author @ author_email author) \<or>
                CHR ''@'' \<notin> set (author_email author)
        then Err (GitConflict ''invalid commit author'')
        else Ok ()))"

section \<open>Output of Git\<close>

definition nul_records :: "string \<Rightarrow> string list" where
  "nul_records bytes = filter (\<lambda>w. w \<noteq> []) (split_char CHR 0x00 bytes)"

definition nul_strings :: "string \<Rightarrow> (git_error, string list) result" where
  "nul_strings bytes =
     collectR (\<lambda>record.
       if from_utf8 record \<noteq> None then Err (GitFailure ''read Git paths'' ''Git returned a non-UTF-8 path'')
       else bindR (validate_relative_path record) (\<lambda>_. Ok record))
     (nul_records bytes)"

record file_change =
  fc_path :: string
  fc_status :: string
  fc_additions :: "nat option"
  fc_deletions :: "nat option"
  fc_binary :: bool
  fc_size_bytes :: "nat option"
  fc_large :: bool

text \<open>\<open>BTreeMap::insert\<close>: the order of texts is that of their bytes.\<close>

fun str_less :: "string \<Rightarrow> string \<Rightarrow> bool" where
  "str_less _ [] = False"
| "str_less [] (_ # _) = True"
| "str_less (a # as) (b # bs) =
     (let m = of_char a :: nat; n = of_char b in m < n \<or> m = n \<and> str_less as bs)"

fun insert_change :: "file_change \<Rightarrow> file_change list \<Rightarrow> file_change list" where
  "insert_change x [] = [x]"
| "insert_change x (y # ys) =
     (if fc_path x = fc_path y then x # ys
      else if str_less (fc_path x) (fc_path y) then x # y # ys
      else y # insert_change x ys)"

text \<open>The loop of \<open>parse_porcelain\<close>; a rename or copy is followed by the path it came from.\<close>

fun porcelain_loop :: "string list \<Rightarrow> file_change list \<Rightarrow> (git_error, file_change list) result" where
  "porcelain_loop [] changes = Ok changes"
| "porcelain_loop (record # records) changes =
     (if from_utf8 record \<noteq> None then Err (GitFailure ''workspace status'' ''Git returned a non-UTF-8 path'')
      else if length record < 4 \<or> record ! 2 \<noteq> CHR '' ''
      then Err (GitFailure ''workspace status'' ''Git returned an invalid porcelain record'')
      else
        (let status = take 2 record; path = drop 3 record in
         bindR (validate_relative_path path) (\<lambda>_.
           let changes = insert_change
                 \<lparr>fc_path = path, fc_status = status, fc_additions = None, fc_deletions = None,
                  fc_binary = False, fc_size_bytes = None, fc_large = False\<rparr> changes
           in porcelain_loop
                (if CHR ''R'' \<in> set status \<or> CHR ''C'' \<in> set status then drop 1 records else records)
                changes)))"

definition parse_porcelain :: "string \<Rightarrow> (git_error, file_change list) result" where
  "parse_porcelain bytes = porcelain_loop (nul_records bytes) []"

definition MAX_APPLY_PATCH_BYTES :: nat where "MAX_APPLY_PATCH_BYTES = 16 * 1024 * 1024"

definition append_bounded_patch :: "string \<Rightarrow> string \<Rightarrow> (git_error, string) result" where
  "append_bounded_patch target chunk =
     (if MAX_APPLY_PATCH_BYTES < length target + length chunk
      then Err (GitConflict ''workspace patch exceeds the apply limit'')
      else Ok (target @ chunk))"

section \<open>What is let through\<close>

text \<open>Following a path from a directory, piece by piece; \<^const>\<open>None\<close> is leaving the root.\<close>

fun walk :: "string list \<Rightarrow> string list \<Rightarrow> string list option" where
  "walk dir [] = Some dir"
| "walk dir (w # ws) =
     (if w = [] \<or> w = ''.'' then walk dir ws
      else if w = ''..'' then (if dir = [] then None else walk (butlast dir) ws)
      else walk (dir @ [w]) ws)"

lemma walk_down: "''..'' \<notin> set ws \<Longrightarrow> walk dir ws = Some (dir @ filter (\<lambda>w. w \<noteq> [] \<and> w \<noteq> ''.'') ws)"
  by (induction ws arbitrary: dir) auto

lemma split_char_Cons_ne: "split_char d (c # cs) = w # ws \<Longrightarrow> w = [] \<longleftrightarrow> c = d"
  by (auto split: if_splits list.splits)

lemma relative_path_pieces:
  assumes "validate_relative_path v = Ok ()"
  obtains w ws where "split_char CHR ''/'' v = w # ws" "w \<noteq> []" "w \<noteq> ''.''" "''..'' \<notin> set (w # ws)"
    "\<not> starts_with v ''/''"
proof -
  have v: "v \<noteq> []" and root: "\<not> starts_with v ''/''"
    and c: "\<not> list_ex (\<lambda>c. c \<in> {CurDir, ParentDir, RootDir}) (path_components v)"
    using assms by (auto simp: validate_relative_path_def path_components_def split: if_splits)
  obtain w ws where w: "split_char CHR ''/'' v = w # ws" by (cases "split_char CHR ''/'' v") simp_all
  have "w \<noteq> []" using split_char_Cons_ne [of "CHR ''/''" "hd v" "tl v" w ws] v w root by (cases v) auto
  moreover have "''..'' \<notin> set (w # ws)" "w \<noteq> ''.''"
    using c root w by (auto simp: path_components_def list_ex_iff split: if_splits)
  ultimately show ?thesis using that w root by blast
qed

text \<open>
  C27. A path that the runtime accepts stays inside the workspace: it is relative, and following it from
  any directory goes only downwards, at every piece, to something below that directory.
\<close>

theorem relative_path_stays_inside:
  assumes "validate_relative_path v = Ok ()"
  shows "\<not> starts_with v ''/'' \<and>
    (\<exists>names. names \<noteq> [] \<and> walk base (split_char CHR ''/'' v) = Some (base @ names)) \<and>
    (\<exists>names. walk base (take k (split_char CHR ''/'' v)) = Some (base @ names))"
proof -
  obtain w ws where w: "split_char CHR ''/'' v = w # ws" "w \<noteq> []" "w \<noteq> ''.''" "''..'' \<notin> set (w # ws)"
    "\<not> starts_with v ''/''"
    using relative_path_pieces [OF assms] .
  have "''..'' \<notin> set (take k (w # ws))" using w(4) by (meson in_set_takeD)
  then show ?thesis unfolding w(1) walk_down [OF w(4)] using w(2,3,5) walk_down by auto
qed

theorem relative_path_stays_inside_witness:
  "validate_relative_path ''src/./a.rs'' = Ok () \<and>
   (\<exists>names. names \<noteq> [] \<and> walk [''ws''] (split_char CHR ''/'' ''src/./a.rs'') = Some ([''ws''] @ names)) \<and>
   validate_relative_path ''src/../a.rs'' \<noteq> Ok ()"
proof -
  have v: "validate_relative_path ''src/./a.rs'' = Ok ()" by code_simp
  have n: "validate_relative_path ''src/../a.rs'' \<noteq> Ok ()" by code_simp
  show ?thesis using v n relative_path_stays_inside [OF v, of "[''ws'']" 0] by blast
qed

text \<open>An accepted source or ref is never taken for an option, and is accepted again unchanged.\<close>

lemma parse_source_accepted:
  assumes "parse_source cfg source = Ok v"
  shows "v = trim source \<and> v \<noteq> [] \<and> \<not> starts_with v ''-'' \<and> \<not> has_whitespace v \<and> CHR 0x00 \<notin> set v"
  using assms
  by (auto simp: parse_source_def Let_def list_ex_iff split: if_splits option.splits)

lemma validate_source_no_option:
  assumes "validate_source cfg source = Ok v"
  shows "v \<noteq> [] \<and> \<not> starts_with v ''-''"
  using assms parse_source_accepted [of cfg source v]
  by (auto simp: validate_source_def split: option.splits)

lemma validate_ref_accepted:
  assumes "validate_ref r = Ok v"
  shows "v = trim r \<and> v \<noteq> [] \<and> \<not> starts_with v ''-'' \<and> \<not> contains_str v ''..''"
  using assms by (auto simp: validate_ref_def Let_def split: if_splits)

lemma commit_sha_canonical:
  assumes "validate_commit_sha r = Ok v"
  shows "7 \<le> length v \<and> length v \<le> 64 \<and> list_all (\<lambda>c. c \<in> set ''0123456789abcdef'') v"
proof -
  have "list_all (\<lambda>c. ascii_lower c \<in> set ''0123456789abcdef'') ''0123456789abcdefABCDEF''" by code_simp
  then have hex: "ascii_lower c \<in> set ''0123456789abcdef''" if "c \<in> set ''0123456789abcdefABCDEF''" for c
    using that unfolding list_all_iff by blast
  from assms show ?thesis
    using hex by (auto simp: validate_commit_sha_def Let_def list_all_iff simp del: list.set split: if_splits)
qed

text \<open>The paths of the changes that Git reports stay inside the workspace, sorted and without repetition.\<close>

lemma str_less_irrefl [simp]: "\<not> str_less a a"
  by (induction a) (auto simp: Let_def)

lemma str_less_trans: "str_less a b \<Longrightarrow> str_less b c \<Longrightarrow> str_less a c"
proof (induction a c arbitrary: b rule: str_less.induct)
  case (3 a as c cs)
  then show ?case by (cases b) (auto simp: Let_def)
qed (auto elim: str_less.elims)

lemma str_less_linear: "str_less a b \<or> a = b \<or> str_less b a"
proof (induction a b rule: str_less.induct)
  case (1 a)
  then show ?case by (cases a) simp_all
qed (auto simp: Let_def)

lemma insert_change_set: "set (insert_change x ys) \<subseteq> insert x (set ys)"
  by (induction x ys rule: insert_change.induct) auto

lemma insert_change_sorted:
  "sorted_wrt (\<lambda>a b. str_less (fc_path a) (fc_path b)) ys \<Longrightarrow>
   sorted_wrt (\<lambda>a b. str_less (fc_path a) (fc_path b)) (insert_change x ys)"
proof (induction x ys rule: insert_change.induct)
  case (2 x y ys)
  have less: "str_less (fc_path y) (fc_path z)" if "z \<in> set (insert_change x ys)"
    "\<not> fc_path x = fc_path y" "\<not> str_less (fc_path x) (fc_path y)" for z
    using that insert_change_set [of x ys] 2(2) str_less_linear [of "fc_path x" "fc_path y"] by auto
  from 2 show ?case by (auto intro: str_less_trans less)
qed simp

lemma porcelain_sorted:
  assumes "porcelain_loop records changes = Ok res"
    "sorted_wrt (\<lambda>a b. str_less (fc_path a) (fc_path b)) changes"
    "list_all (\<lambda>c. validate_relative_path (fc_path c) = Ok ()) changes"
  shows "sorted_wrt (\<lambda>a b. str_less (fc_path a) (fc_path b)) res \<and>
    list_all (\<lambda>c. validate_relative_path (fc_path c) = Ok ()) res"
  using assms
proof (induction records changes rule: porcelain_loop.induct)
  case (2 l records changes)
  let ?c = "\<lparr>fc_path = drop 3 l, fc_status = take 2 l, fc_additions = None, fc_deletions = None,
    fc_binary = False, fc_size_bytes = None, fc_large = False\<rparr>"
  have ok: "from_utf8 l = None" "\<not> (length l < 4 \<or> l ! 2 \<noteq> CHR '' '')"
    "validate_relative_path (drop 3 l) = Ok ()"
    using 2(2) by (cases "from_utf8 l"; auto simp: Let_def bindR_eq_Inr split: if_splits)+
  have "sorted_wrt (\<lambda>a b. str_less (fc_path a) (fc_path b)) (insert_change ?c changes)"
    by (rule insert_change_sorted [OF 2(3)])
  moreover have "list_all (\<lambda>c. validate_relative_path (fc_path c) = Ok ()) (insert_change ?c changes)"
    using insert_change_set [of ?c changes] 2(4) ok(3) by (auto simp: list_all_iff)
  ultimately show ?case
    using 2(1) [OF _ ok(2) refl refl refl] 2(2) ok by (simp add: Let_def)
qed simp

lemma parse_porcelain_safe:
  assumes "parse_porcelain bytes = Ok changes"
  shows "sorted_wrt (\<lambda>a b. str_less (fc_path a) (fc_path b)) changes \<and>
    list_all (\<lambda>c. validate_relative_path (fc_path c) = Ok ()) changes"
  using porcelain_sorted assms by (auto simp: parse_porcelain_def)

end
