(* ===== verification/Run_Orchestrator.thy ===== *)
theory Run_Orchestrator
  imports Approval_Service Git_Validation
begin

text \<open>
  The run orchestrator of the web platform: \<open>apps/web/crates/run-orchestrator/src\<close>
  (\<open>lib.rs\<close>, \<open>scheduler.rs\<close>, \<open>execution.rs\<close>) and the changes that the event projection
  (\<open>apps/web/server/src/event_projection.rs\<close>) makes to runs.

  The tables are lists of rows, and a transaction is a function on the database. The columns of a run that
  only \<open>enqueue_run\<close> writes are a record of their own. A statement that a unique index refuses is an error
  and changes nothing; the index is consulted where a statement can make a run active or add a row, and
  the other updates cannot violate it. \<open>SKIP LOCKED\<close> is an argument that says which rows are locked.
  Both clocks (\<open>now()\<close> of the database, \<open>Utc::now()\<close> of the worker, in milliseconds), new ids, tokens and the
  answers of Git and of the Codex adapter are arguments. Failures of the connection are left out. The reads
  that \<open>enqueue_run\<close> makes before its insertion are taken in the state of the insertion.
\<close>

section \<open>Tables\<close>

datatype run_status =
    RunPending | RunProvisioning | RunRunning | RunCancelling | RunRecoveryPending
  | RunCompleted | RunCancelled | RunFailed

fun run_status_str :: "run_status \<Rightarrow> string" where
  "run_status_str RunPending = ''pending''"
| "run_status_str RunProvisioning = ''provisioning''"
| "run_status_str RunRunning = ''running''"
| "run_status_str RunCancelling = ''cancelling''"
| "run_status_str RunRecoveryPending = ''recovery_pending''"
| "run_status_str RunCompleted = ''completed''"
| "run_status_str RunCancelled = ''cancelled''"
| "run_status_str RunFailed = ''failed''"

datatype workspace_state = WsProvisioning | WsReady | WsBusy | WsCleanupPending | WsFailed | WsRetired

datatype task_status = TaskPending | TaskRunning | TaskCompleted | TaskCancelled | TaskArchived | TaskFailed

datatype job_state = JobPending | JobRunning | JobCompleted | JobFailed

record run_request =
  rq_organization_id :: uuid
  rq_task_id :: uuid
  rq_requested_by :: "uuid option"
  rq_profile_id :: "uuid option"
  rq_source_ref :: string
  rq_idempotency_key :: "string option"
  rq_workspace_kind :: string
  rq_workspace_name :: "string option"
  rq_parent_run_id :: "uuid option"
  rq_group_run_id :: "uuid option"
  rq_copy_agents_md :: bool
  rq_fork_thread_id :: "string option"
  rq_fork_source_run_id :: "uuid option"
  rq_created_at :: timestamp

record run =
  rn_id :: uuid
  rn_request :: run_request
  rn_status :: run_status
  rn_thread_id :: "string option"
  rn_turn_id :: "string option"
  rn_workspace_id :: "uuid option"
  rn_lease_owner :: "string option"
  rn_lease_token :: "string option"
  rn_lease_expires_at :: "timestamp option"
  rn_heartbeat_at :: "timestamp option"
  rn_attempt :: nat
  rn_failure_code :: "string option"
  rn_updated_at :: timestamp

record workspace =
  ws_id :: uuid
  ws_organization_id :: uuid
  ws_project_id :: uuid
  ws_profile_id :: uuid
  ws_run_id :: "uuid option"
  ws_root_path :: string
  ws_state :: workspace_state
  ws_source_ref :: string
  ws_head_commit :: string
  ws_branch_name :: string
  ws_retired_at :: "timestamp option"

record task =
  tk_id :: uuid
  tk_organization_id :: uuid
  tk_project_id :: uuid
  tk_status :: task_status

record project =
  pj_id :: uuid
  pj_organization_id :: uuid
  pj_git_url :: string
  pj_default_branch :: string

record runner_job =
  jb_id :: uuid
  jb_organization_id :: uuid
  jb_run_id :: uuid
  jb_workspace_id :: uuid
  jb_state :: job_state
  jb_attempt :: nat
  jb_run_after :: timestamp
  jb_lease_owner :: "string option"
  jb_lease_token :: "string option"
  jb_lease_expires_at :: "timestamp option"
  jb_last_error :: "string option"
  jb_created_at :: timestamp

record platform =
  run_rows :: "run list"
  workspace_rows :: "workspace list"
  task_rows :: "task list"
  project_rows :: "project list"
  profile_rows :: "profile list"
  job_rows :: "runner_job list"

definition active_run :: "run_status \<Rightarrow> bool" where
  "active_run st = (st \<in> {RunPending, RunProvisioning, RunRunning, RunCancelling, RunRecoveryPending})"

text \<open>The unique indexes on runs.\<close>

definition one_active_per_task :: "run list \<Rightarrow> bool" where
  "one_active_per_task rs =
     distinct (map (rq_task_id \<circ> rn_request) (filter (active_run \<circ> rn_status) rs))"

definition idempotency_slot :: "run \<Rightarrow> (uuid \<times> uuid \<times> string) option" where
  "idempotency_slot r =
     (case (rq_requested_by (rn_request r), rq_idempotency_key (rn_request r)) of
        (Some u, Some k) \<Rightarrow> Some (rq_organization_id (rn_request r), u, k)
      | _ \<Rightarrow> None)"

definition update_runs :: "(run \<Rightarrow> bool) \<Rightarrow> (run \<Rightarrow> run) \<Rightarrow> platform \<Rightarrow> platform" where
  "update_runs P f d = d\<lparr>run_rows := map (\<lambda>r. if P r then f r else r) (run_rows d)\<rparr>"

definition update_workspace_state :: "(workspace \<Rightarrow> bool) \<Rightarrow> workspace_state \<Rightarrow> platform \<Rightarrow> platform" where
  "update_workspace_state P st d =
     d\<lparr>workspace_rows := map (\<lambda>w. if P w then w\<lparr>ws_state := st\<rparr> else w) (workspace_rows d)\<rparr>"

definition update_task_status :: "uuid \<Rightarrow> task_status \<Rightarrow> platform \<Rightarrow> platform" where
  "update_task_status i st d =
     d\<lparr>task_rows := map (\<lambda>t. if tk_id t = i then t\<lparr>tk_status := st\<rparr> else t) (task_rows d)\<rparr>"

definition find_workspace :: "uuid \<Rightarrow> platform \<Rightarrow> workspace option" where
  "find_workspace i d = find (\<lambda>w. ws_id w = i) (workspace_rows d)"

text \<open>\<open>ORDER BY created_at, id LIMIT 1\<close>.\<close>

fun oldest :: "('a \<Rightarrow> nat \<times> nat) \<Rightarrow> 'a list \<Rightarrow> 'a option" where
  "oldest key [] = None"
| "oldest key (x # xs) =
     (case oldest key xs of
        None \<Rightarrow> Some x
      | Some y \<Rightarrow>
          if fst (key y) < fst (key x) \<or> fst (key y) = fst (key x) \<and> snd (key y) < snd (key x)
          then Some y else Some x)"

section \<open>The orchestrator\<close>

datatype orchestrator_error =
    RunInvalid string
  | RunNotFound
  | RunConflict string
  | LeaseLost
  | RunDatabase
  | RunGit
  | RunAdapter

record orchestrator =
  o_git :: git_config
  o_runtime_key :: string
  o_worker_id :: string
  o_lease_ttl :: nat

definition new_orchestrator ::
  "git_config \<Rightarrow> string \<Rightarrow> string \<Rightarrow> nat \<Rightarrow> (orchestrator_error, orchestrator) result" where
  "new_orchestrator git key worker ttl =
     (if ttl < 5000 then Err (RunInvalid ''lease TTL must be at least five seconds'')
      else if trim worker = [] \<or> 128 < length worker
      then Err (RunInvalid ''worker id must contain 1 to 128 characters'')
      else Ok \<lparr>o_git = git, o_runtime_key = key, o_worker_id = worker, o_lease_ttl = ttl\<rparr>)"

definition validate_idempotency_key :: "string \<Rightarrow> (orchestrator_error, unit) result" where
  "validate_idempotency_key key =
     (if \<not> (8 \<le> length key \<and> length key \<le> 128) \<or>
         \<not> list_all (\<lambda>c. ascii_alphanumeric c \<or> c \<in> set ''-._:'') key
      then Err (RunInvalid ''idempotency key must contain 8 to 128 safe ASCII characters'')
      else Ok ())"

text \<open>\<open>chrono::Duration\<close> holds at most \<open>i64::MAX\<close> milliseconds.\<close>

definition chrono_ttl :: "nat \<Rightarrow> (orchestrator_error, nat) result" where
  "chrono_ttl ttl =
     (if 2 ^ 63 \<le> ttl then Err (RunInvalid ''lease TTL is too large'') else Ok ttl)"

definition lease_until :: "orchestrator \<Rightarrow> timestamp \<Rightarrow> (orchestrator_error, timestamp) result" where
  "lease_until w utc = bindR (chrono_ttl (o_lease_ttl w)) (\<lambda>ttl. Ok (utc + ttl))"

section \<open>The scheduler\<close>

record enqueue_request =
  er_organization_id :: uuid
  er_actor_id :: uuid
  er_task_id :: uuid
  er_idempotency_key :: string
  er_git_ref :: "string option"
  er_workspace_kind :: string
  er_workspace_name :: "string option"
  er_parent_run_id :: "uuid option"
  er_group_run_id :: "uuid option"
  er_copy_agents_md :: bool
  er_fork_thread_id :: "string option"
  er_fork_source_run_id :: "uuid option"

text \<open>The requests to cancel, recover or retire a run have the same fields.\<close>

record run_action =
  ra_organization_id :: uuid
  ra_actor_id :: uuid
  ra_admin :: bool
  ra_run_id :: uuid

record run_lease =
  l_run_id :: uuid
  l_request :: run_request
  l_project_id :: uuid
  l_profile_id :: uuid
  l_git_url :: string
  l_token :: string
  l_expires_at :: timestamp
  l_attempt :: nat

definition clean_name :: "string option \<Rightarrow> string option" where
  "clean_name name = (case map_option trim name of Some v \<Rightarrow> if v = [] then None else Some v | None \<Rightarrow> None)"

definition enqueue_context :: "orchestrator \<Rightarrow> platform \<Rightarrow> enqueue_request \<Rightarrow> (task \<times> project \<times> profile) option" where
  "enqueue_context w d req =
     find (\<lambda>_. True) [(t, pj, p). t \<leftarrow> task_rows d, pj \<leftarrow> project_rows d, p \<leftarrow> profile_rows d,
       pj_id pj = tk_project_id t \<and> pj_organization_id pj = tk_organization_id t
       \<and> p_organization_id p = tk_organization_id t \<and> p_owner_user_id p = er_actor_id req
       \<and> p_runtime_key p = o_runtime_key w \<and> p_status p = ''active''
       \<and> tk_id t = er_task_id req \<and> tk_organization_id t = er_organization_id req]"

text \<open>A run of the caller in the same project, with a workspace that is not retired.\<close>

definition authorized_base :: "platform \<Rightarrow> enqueue_request \<Rightarrow> uuid \<Rightarrow> run \<Rightarrow> bool" where
  "authorized_base d req project_id r \<longleftrightarrow>
     rq_organization_id (rn_request r) = er_organization_id req
     \<and> list_ex (\<lambda>t. tk_id t = rq_task_id (rn_request r) \<and> tk_project_id t = project_id) (task_rows d)
     \<and> rq_requested_by (rn_request r) = Some (er_actor_id req)
     \<and> list_ex (\<lambda>w. rn_workspace_id r = Some (ws_id w) \<and> ws_state w \<noteq> WsRetired) (workspace_rows d)"

definition check_parent :: "platform \<Rightarrow> enqueue_request \<Rightarrow> uuid \<Rightarrow> (orchestrator_error, unit) result" where
  "check_parent d req project_id =
     (if er_workspace_kind req = ''main'' \<and> er_parent_run_id req \<noteq> None
      then Err (RunInvalid ''main workspaces cannot have a parent Run'')
      else if er_workspace_kind req = ''main'' \<and> er_group_run_id req \<noteq> None
      then Err (RunInvalid ''main workspaces cannot have a derived workspace group'')
      else if er_workspace_kind req = ''worktree'' \<and> er_parent_run_id req = None
      then Err (RunInvalid ''worktree workspaces require a parent Run'')
      else if (case er_parent_run_id req of
                 None \<Rightarrow> False
               | Some i \<Rightarrow> \<not> list_ex (\<lambda>r. rn_id r = i \<and> authorized_base d req project_id r) (run_rows d))
      then Err RunNotFound
      else if (case er_group_run_id req of
                 None \<Rightarrow> False
               | Some i \<Rightarrow> \<not> list_ex (\<lambda>r. rn_id r = i \<and> authorized_base d req project_id r
                   \<and> rq_workspace_kind (rn_request r) = er_workspace_kind req
                   \<and> rq_workspace_kind (rn_request r) \<noteq> ''main''
                   \<and> rq_group_run_id (rn_request r) = None) (run_rows d))
      then Err RunNotFound
      else Ok ())"

definition check_fork :: "platform \<Rightarrow> enqueue_request \<Rightarrow> (orchestrator_error, unit) result" where
  "check_fork d req =
     (case er_fork_thread_id req of
        Some thread \<Rightarrow>
          if trim thread = [] \<or> 256 < length thread then Err (RunInvalid ''fork source Thread id is invalid'')
          else (case er_fork_source_run_id req of
                  None \<Rightarrow> Err (RunInvalid ''forked Runs require their source parent Run'')
                | Some i \<Rightarrow>
                    if list_ex (\<lambda>r. rn_id r = i \<and> rq_organization_id (rn_request r) = er_organization_id req
                         \<and> rq_requested_by (rn_request r) = Some (er_actor_id req)
                         \<and> rn_thread_id r = Some thread) (run_rows d)
                    then Ok () else Err RunNotFound)
      | None \<Rightarrow>
          if er_fork_source_run_id req \<noteq> None
          then Err (RunInvalid ''fork source Run requires a source Thread id'') else Ok ())"

definition new_run :: "uuid \<Rightarrow> timestamp \<Rightarrow> enqueue_request \<Rightarrow> uuid \<Rightarrow> string \<Rightarrow> run" where
  "new_run new_id now req profile_id source_ref =
     \<lparr>rn_id = new_id,
      rn_request = \<lparr>rq_organization_id = er_organization_id req, rq_task_id = er_task_id req,
        rq_requested_by = Some (er_actor_id req), rq_profile_id = Some profile_id,
        rq_source_ref = source_ref, rq_idempotency_key = Some (er_idempotency_key req),
        rq_workspace_kind = er_workspace_kind req, rq_workspace_name = clean_name (er_workspace_name req),
        rq_parent_run_id = er_parent_run_id req, rq_group_run_id = er_group_run_id req,
        rq_copy_agents_md = er_copy_agents_md req, rq_fork_thread_id = er_fork_thread_id req,
        rq_fork_source_run_id = er_fork_source_run_id req, rq_created_at = now\<rparr>,
      rn_status = RunPending, rn_thread_id = None, rn_turn_id = None, rn_workspace_id = None,
      rn_lease_owner = None, rn_lease_token = None, rn_lease_expires_at = None, rn_heartbeat_at = None,
      rn_attempt = 0, rn_failure_code = None, rn_updated_at = now\<rparr>"

text \<open>
  The insertion: nothing is inserted when the idempotency key is in use, and the index on active runs
  refuses a second active run of a task.
\<close>

definition insert_run :: "platform \<Rightarrow> enqueue_request \<Rightarrow> run \<Rightarrow> (orchestrator_error, run) result \<times> platform" where
  "insert_run d req r =
     (case find (\<lambda>x. idempotency_slot x = idempotency_slot r) (run_rows d) of
        Some existing \<Rightarrow>
          (if rq_task_id (rn_request existing) \<noteq> er_task_id req
           then Err (RunConflict ''idempotency key was already used for another Task'')
           else Ok existing, d)
      | None \<Rightarrow>
          if one_active_per_task (run_rows d @ [r]) then (Ok r, d\<lparr>run_rows := run_rows d @ [r]\<rparr>)
          else (Err (RunConflict ''Task already has an active Run''), d))"

text \<open>The checks of \<open>enqueue_run\<close> before the insertion: the profile and the ref of the new run.\<close>

definition check_enqueue :: "orchestrator \<Rightarrow> platform \<Rightarrow> enqueue_request \<Rightarrow> (orchestrator_error, uuid \<times> string) result" where
  "check_enqueue w d req =
     bindR (validate_idempotency_key (er_idempotency_key req)) (\<lambda>_.
       if er_workspace_kind req \<notin> {''main'', ''worktree'', ''clone''} then Err (RunInvalid ''workspace kind is invalid'')
       else if (case clean_name (er_workspace_name req) of Some v \<Rightarrow> 128 < length v | None \<Rightarrow> False)
       then Err (RunInvalid ''workspace name is too long'')
       else bindR (ok_or RunNotFound (enqueue_context w d req)) (\<lambda>(t, pj, p).
         let source_ref = (case er_git_ref req of Some g \<Rightarrow> g | None \<Rightarrow> pj_default_branch pj) in
         if isl (validate_source (o_git w) (pj_git_url pj)) \<or> isl (validate_ref source_ref) then Err RunGit
         else bindR (check_parent d req (tk_project_id t)) (\<lambda>_.
              bindR (check_fork d req) (\<lambda>_. Ok (p_id p, source_ref)))))"

definition enqueue_run ::
  "orchestrator \<Rightarrow> platform \<Rightarrow> timestamp \<Rightarrow> uuid \<Rightarrow> enqueue_request \<Rightarrow> (orchestrator_error, run) result \<times> platform" where
  "enqueue_run w d now new_id req =
     (case check_enqueue w d req of
        Err e \<Rightarrow> (Err e, d)
      | Ok (profile_id, source_ref) \<Rightarrow> insert_run d req (new_run new_id now req profile_id source_ref))"

definition authorized :: "run_action \<Rightarrow> run \<Rightarrow> bool" where
  "authorized req r \<longleftrightarrow> rq_requested_by (rn_request r) = Some (ra_actor_id req) \<or> ra_admin req"

definition get_run :: "platform \<Rightarrow> uuid \<Rightarrow> uuid \<Rightarrow> (orchestrator_error, run) result" where
  "get_run d org i =
     ok_or RunNotFound (find (\<lambda>r. rn_id r = i \<and> rq_organization_id (rn_request r) = org) (run_rows d))"

definition cancelled :: "timestamp \<Rightarrow> run \<Rightarrow> run" where
  "cancelled now r =
     r\<lparr>rn_status := RunCancelled, rn_turn_id := None, rn_failure_code := None, rn_lease_owner := None,
       rn_lease_token := None, rn_lease_expires_at := None, rn_updated_at := now\<rparr>"

text \<open>The transaction of \<open>cancel_run\<close>. The row as it was decides whether the adapter is called.\<close>

definition cancel_tx :: "platform \<Rightarrow> timestamp \<Rightarrow> run_action \<Rightarrow> (orchestrator_error, run) result \<times> platform" where
  "cancel_tx d now req =
     (case get_run d (ra_organization_id req) (ra_run_id req) of
        Err e \<Rightarrow> (Err e, d)
      | Ok r \<Rightarrow>
          if \<not> authorized req r then (Err RunNotFound, d)
          else if rn_status r \<in> {RunCompleted, RunCancelled, RunFailed}
          then (Err (RunConflict ''Run is already in a terminal state''), d)
          else
            (let d = update_runs (\<lambda>x. rn_id x = ra_run_id req) (cancelled now) d;
                 d = (case rn_workspace_id r of
                        None \<Rightarrow> d
                      | Some i \<Rightarrow> update_workspace_state (\<lambda>x. ws_id x = i \<and> ws_state x \<noteq> WsRetired) WsReady d)
             in (Ok r, update_task_status (rq_task_id (rn_request r)) TaskCancelled d)))"

definition needs_interrupt :: "platform \<Rightarrow> run \<Rightarrow> bool" where
  "needs_interrupt d r \<longleftrightarrow>
     rn_thread_id r \<noteq> None \<and> rn_turn_id r \<noteq> None \<and>
     (case rn_workspace_id r of None \<Rightarrow> False | Some i \<Rightarrow> find_workspace i d \<noteq> None)"

text \<open>The interrupt failed: the run waits for recovery, unless its task has another active run by now.\<close>

definition interrupt_failed :: "platform \<Rightarrow> timestamp \<Rightarrow> uuid \<Rightarrow> (orchestrator_error, unit) result \<times> platform" where
  "interrupt_failed d now i =
     (let d' = update_runs (\<lambda>x. rn_id x = i \<and> rn_status x = RunCancelled)
                 (\<lambda>x. x\<lparr>rn_status := RunRecoveryPending, rn_failure_code := Some ''interrupt_failed'', rn_updated_at := now\<rparr>) d
      in if one_active_per_task (run_rows d') then (Err RunAdapter, d') else (Err RunDatabase, d))"

text \<open>\<open>ON CONFLICT (workspace_id, kind) DO UPDATE\<close>: what happens to an existing job is an argument.\<close>

definition upsert_job ::
  "(runner_job \<Rightarrow> runner_job) \<Rightarrow> runner_job \<Rightarrow> platform \<Rightarrow> platform" where
  "upsert_job f j d =
     (if list_ex (\<lambda>x. jb_workspace_id x = jb_workspace_id j) (job_rows d)
      then d\<lparr>job_rows := map (\<lambda>x. if jb_workspace_id x = jb_workspace_id j then f x else x) (job_rows d)\<rparr>
      else d\<lparr>job_rows := job_rows d @ [j]\<rparr>)"

definition new_job :: "uuid \<Rightarrow> timestamp \<Rightarrow> uuid \<Rightarrow> uuid \<Rightarrow> uuid \<Rightarrow> string option \<Rightarrow> runner_job" where
  "new_job new_id now org run_id ws code =
     \<lparr>jb_id = new_id, jb_organization_id = org, jb_run_id = run_id, jb_workspace_id = ws,
      jb_state = JobPending, jb_attempt = 0, jb_run_after = now, jb_lease_owner = None, jb_lease_token = None,
      jb_lease_expires_at = None, jb_last_error = code, jb_created_at = now\<rparr>"

text \<open>
  The transaction of \<open>retire_workspace\<close>, with the workspace that was read before. The first read and
  the call of the adapter change nothing and check the same conditions.
\<close>

definition retire_tx ::
  "platform \<Rightarrow> timestamp \<Rightarrow> uuid \<Rightarrow> run_action \<Rightarrow> uuid \<Rightarrow> (orchestrator_error, run) result \<times> platform" where
  "retire_tx d now new_id req ws =
     (case (get_run d (ra_organization_id req) (ra_run_id req), find_workspace ws d) of
        (Ok r, Some w) \<Rightarrow>
          if rn_workspace_id r \<noteq> Some ws \<or> \<not> authorized req r then (Err RunNotFound, d)
          else if rq_workspace_kind (rn_request r) = ''main''
          then (Err (RunConflict ''the main Run workspace cannot be removed''), d)
          else if ws_state w = WsRetired then (Ok r, d)
          else
            (let d = update_runs (\<lambda>x. rn_id x = ra_run_id req) (cancelled now) d;
                 d = update_task_status (rq_task_id (rn_request r)) TaskArchived d;
                 d = update_workspace_state (\<lambda>x. ws_id x = ws) WsCleanupPending d;
                 d = upsert_job (\<lambda>j. j\<lparr>jb_state := JobPending, jb_run_after := now, jb_lease_owner := None,
                        jb_lease_token := None, jb_lease_expires_at := None\<rparr>)
                      (new_job new_id now (ra_organization_id req) (ra_run_id req) ws None) d
             in (get_run d (ra_organization_id req) (ra_run_id req), d))
      | _ \<Rightarrow> (Err RunNotFound, d))"

definition recover_run ::
  "orchestrator \<Rightarrow> platform \<Rightarrow> timestamp \<Rightarrow> timestamp \<Rightarrow> string \<Rightarrow> run_action
   \<Rightarrow> (orchestrator_error, run) result \<times> platform" where
  "recover_run w d now utc token req =
     (case get_run d (ra_organization_id req) (ra_run_id req) of
        Err e \<Rightarrow> (Err e, d)
      | Ok r \<Rightarrow>
          (case (Option.bind (rn_workspace_id r) (\<lambda>i. find_workspace i d),
                 Option.bind (rq_profile_id (rn_request r)) (\<lambda>i. find (\<lambda>p. p_id p = i) (profile_rows d))) of
             (Some ws, Some p) \<Rightarrow>
               if ws_organization_id ws \<noteq> ra_organization_id req \<or> \<not> authorized req r then (Err RunNotFound, d)
               else if p_runtime_key p \<noteq> o_runtime_key w \<or> ws_state ws = WsRetired \<or> rn_thread_id r = None
               then (Err RunNotFound, d)
               else if rn_status r = RunRunning then (Ok r, d)
               else if rn_status r \<noteq> RunRecoveryPending
               then (Err (RunConflict (''Run cannot recover from status '' @ [CHR 0x27] @ run_status_str (rn_status r) @ [CHR 0x27])), d)
               else
                 (case lease_until w utc of
                    Err e \<Rightarrow> (Err e, d)
                  | Ok expires_at \<Rightarrow>
                      (let d = update_runs (\<lambda>x. rn_id x = ra_run_id req \<and> rn_status x = RunRecoveryPending)
                             (\<lambda>x. x\<lparr>rn_status := RunRunning, rn_turn_id := None, rn_failure_code := None,
                                rn_lease_owner := Some (o_worker_id w), rn_lease_token := Some token,
                                rn_lease_expires_at := Some expires_at, rn_heartbeat_at := Some now,
                                rn_updated_at := now\<rparr>) d;
                           d = update_workspace_state (\<lambda>x. ws_id x = ws_id ws \<and> ws_state x \<noteq> WsRetired) WsBusy d;
                           d = update_task_status (rq_task_id (rn_request r)) TaskRunning d
                       in (get_run d (ra_organization_id req) (ra_run_id req), d)))
           | _ \<Rightarrow> (Err RunNotFound, d)))"

text \<open>The candidates of \<open>claim_next\<close> with their task, project and profile.\<close>

definition claimable :: "orchestrator \<Rightarrow> platform \<Rightarrow> timestamp \<Rightarrow> (uuid \<Rightarrow> bool) \<Rightarrow> (run \<times> task \<times> project \<times> profile) list" where
  "claimable w d now locked =
     [(r, t, pj, p). r \<leftarrow> run_rows d, t \<leftarrow> task_rows d, pj \<leftarrow> project_rows d, p \<leftarrow> profile_rows d,
       tk_id t = rq_task_id (rn_request r) \<and> tk_organization_id t = rq_organization_id (rn_request r)
       \<and> pj_id pj = tk_project_id t \<and> pj_organization_id pj = rq_organization_id (rn_request r)
       \<and> rq_profile_id (rn_request r) = Some (p_id p) \<and> p_runtime_key p = o_runtime_key w \<and> p_status p = ''active''
       \<and> rn_status r = RunPending
       \<and> (case rn_lease_expires_at r of None \<Rightarrow> True | Some e \<Rightarrow> e < now)
       \<and> \<not> locked (rn_id r)]"

definition claim_next ::
  "orchestrator \<Rightarrow> platform \<Rightarrow> timestamp \<Rightarrow> timestamp \<Rightarrow> string \<Rightarrow> (uuid \<Rightarrow> bool)
   \<Rightarrow> (orchestrator_error, run_lease option) result \<times> platform" where
  "claim_next w d now utc token locked =
     (case oldest (\<lambda>(r, _). (rq_created_at (rn_request r), rn_id r)) (claimable w d now locked) of
        None \<Rightarrow> (Ok None, d)
      | Some (r, t, pj, p) \<Rightarrow>
          (case lease_until w utc of
             Err e \<Rightarrow> (Err e, d)
           | Ok expires_at \<Rightarrow>
               (Ok (Some \<lparr>l_run_id = rn_id r, l_request = rn_request r, l_project_id = tk_project_id t,
                          l_profile_id = p_id p, l_git_url = pj_git_url pj, l_token = token,
                          l_expires_at = expires_at, l_attempt = Suc (rn_attempt r)\<rparr>),
                update_runs (\<lambda>x. rn_id x = rn_id r)
                  (\<lambda>x. x\<lparr>rn_status := RunProvisioning, rn_lease_owner := Some (o_worker_id w),
                     rn_lease_token := Some token, rn_lease_expires_at := Some expires_at,
                     rn_heartbeat_at := Some now, rn_attempt := Suc (rn_attempt x), rn_failure_code := None,
                     rn_updated_at := now\<rparr>) d)))"

definition holds_lease :: "orchestrator \<Rightarrow> run_lease \<Rightarrow> run \<Rightarrow> bool" where
  "holds_lease w l r \<longleftrightarrow>
     rn_id r = l_run_id l \<and> rn_lease_owner r = Some (o_worker_id w) \<and> rn_lease_token r = Some (l_token l)"

definition leasable :: "run_status \<Rightarrow> bool" where
  "leasable st \<longleftrightarrow> st \<in> {RunProvisioning, RunRunning, RunCancelling}"

definition beat :: "timestamp \<Rightarrow> timestamp \<Rightarrow> run \<Rightarrow> run" where
  "beat now expires_at r =
     r\<lparr>rn_heartbeat_at := Some now, rn_lease_expires_at := Some expires_at, rn_updated_at := now\<rparr>"

definition heartbeat ::
  "orchestrator \<Rightarrow> platform \<Rightarrow> timestamp \<Rightarrow> timestamp \<Rightarrow> run_lease \<Rightarrow> (orchestrator_error, unit) result \<times> platform" where
  "heartbeat w d now utc l =
     (case lease_until w utc of
        Err e \<Rightarrow> (Err e, d)
      | Ok expires_at \<Rightarrow>
          (let P = (\<lambda>r. holds_lease w l r \<and> leasable (rn_status r)) in
           (if length (filter P (run_rows d)) \<noteq> 1 then Err LeaseLost else Ok (),
            update_runs P (beat now expires_at) d)))"

definition heartbeat_owned_runs ::
  "orchestrator \<Rightarrow> platform \<Rightarrow> timestamp \<Rightarrow> timestamp \<Rightarrow> (orchestrator_error, nat) result \<times> platform" where
  "heartbeat_owned_runs w d now utc =
     (case lease_until w utc of
        Err e \<Rightarrow> (Err e, d)
      | Ok expires_at \<Rightarrow>
          (let P = (\<lambda>r. rn_lease_owner r = Some (o_worker_id w) \<and> rn_lease_token r \<noteq> None \<and> leasable (rn_status r)) in
           (Ok (length (filter P (run_rows d))), update_runs P (beat now expires_at) d)))"

definition expired :: "timestamp \<Rightarrow> run \<Rightarrow> bool" where
  "expired now r \<longleftrightarrow> leasable (rn_status r) \<and> (case rn_lease_expires_at r of None \<Rightarrow> False | Some e \<Rightarrow> e < now)"

text \<open>The workspace of a run that expired before it had a thread is to be removed.\<close>

definition reap_workspace :: "timestamp \<Rightarrow> (uuid \<Rightarrow> uuid) \<Rightarrow> run \<Rightarrow> platform \<Rightarrow> platform" where
  "reap_workspace now job_id r d =
     (case (rn_workspace_id r, rn_thread_id r) of
        (Some ws, None) \<Rightarrow>
          upsert_job (\<lambda>j. j\<lparr>jb_state := JobPending, jb_run_after := now\<rparr>)
            (new_job (job_id ws) now (rq_organization_id (rn_request r)) (rn_id r) ws None)
            (update_workspace_state (\<lambda>x. ws_id x = ws) WsCleanupPending d)
      | _ \<Rightarrow> d)"

definition reap_expired :: "platform \<Rightarrow> timestamp \<Rightarrow> (uuid \<Rightarrow> uuid) \<Rightarrow> nat \<times> platform" where
  "reap_expired d now job_id =
     (let rows = filter (expired now) (run_rows d);
          d = update_runs (expired now)
                (\<lambda>r. r\<lparr>rn_status := RunRecoveryPending, rn_failure_code := Some ''lease_expired'', rn_lease_owner := None,
                   rn_lease_token := None, rn_lease_expires_at := None, rn_updated_at := now\<rparr>) d
      in (length rows, fold (reap_workspace now job_id) rows d))"

section \<open>Execution of a lease\<close>

record checkout =
  co_root :: string
  co_head_commit :: string
  co_branch :: string

text \<open>
  Where \<open>execute_lease\<close> stands between two of its transactions. \<open>Record\<close> is after the check of
  \<open>record_workspace\<close>, which locks nothing, and before its insertion.
\<close>

datatype stage =
    Leased
  | Provisioned uuid checkout
  | Checked uuid checkout
  | Recorded uuid checkout
  | Started uuid string
  | Uncertain uuid string
  | CleanUp uuid
  | Failing orchestrator_error
  | Finished "(orchestrator_error, unit) result"

text \<open>The answers of Git and of the adapter in one stage; an error is \<^const>\<open>None\<close>.\<close>

record outcomes =
  oc_workspace_id :: uuid
  oc_provision :: "checkout option"
  oc_branch :: bool
  oc_remove :: bool
  oc_thread :: "string option"

definition fork_source :: "platform \<Rightarrow> run_lease \<Rightarrow> string \<Rightarrow> workspace option" where
  "fork_source d l thread =
     (case find (\<lambda>r. Some (rn_id r) = rq_fork_source_run_id (l_request l)
             \<and> rq_organization_id (rn_request r) = rq_organization_id (l_request l)
             \<and> rn_thread_id r = Some thread
             \<and> (case Option.bind (rn_workspace_id r) (\<lambda>i. find_workspace i d) of
                  None \<Rightarrow> False | Some w \<Rightarrow> ws_state w \<noteq> WsRetired)) (run_rows d) of
        None \<Rightarrow> None
      | Some r \<Rightarrow> Option.bind (rn_workspace_id r) (\<lambda>i. find_workspace i d))"

definition record_check :: "orchestrator \<Rightarrow> platform \<Rightarrow> run_lease \<Rightarrow> bool" where
  "record_check w d l = list_ex (\<lambda>r. holds_lease w l r \<and> rn_status r = RunProvisioning) (run_rows d)"

text \<open>The insertion of \<open>record_workspace\<close>; the index allows one workspace per run.\<close>

definition record_insert ::
  "platform \<Rightarrow> timestamp \<Rightarrow> run_lease \<Rightarrow> uuid \<Rightarrow> checkout \<Rightarrow> (orchestrator_error, unit) result \<times> platform" where
  "record_insert d now l i co =
     (if list_ex (\<lambda>w. ws_run_id w = Some (l_run_id l)) (workspace_rows d) then (Err RunDatabase, d)
      else
        (let d = d\<lparr>workspace_rows := workspace_rows d @
               [\<lparr>ws_id = i, ws_organization_id = rq_organization_id (l_request l), ws_project_id = l_project_id l,
                 ws_profile_id = l_profile_id l, ws_run_id = Some (l_run_id l), ws_root_path = co_root co,
                 ws_state = WsReady, ws_source_ref = rq_source_ref (l_request l),
                 ws_head_commit = co_head_commit co, ws_branch_name = co_branch co, ws_retired_at = None\<rparr>]\<rparr>
         in (Ok (), update_runs (\<lambda>r. rn_id r = l_run_id l)
               (\<lambda>r. r\<lparr>rn_workspace_id := Some i, rn_updated_at := now\<rparr>) d)))"

definition fail_lease :: "orchestrator \<Rightarrow> platform \<Rightarrow> timestamp \<Rightarrow> run_lease \<Rightarrow> string \<Rightarrow> platform" where
  "fail_lease w d now l code =
     update_runs (\<lambda>r. holds_lease w l r \<and> rn_status r \<in> {RunProvisioning, RunCancelling})
       (\<lambda>r. r\<lparr>rn_status := RunFailed, rn_failure_code := Some code, rn_lease_owner := None,
          rn_lease_token := None, rn_lease_expires_at := None, rn_updated_at := now\<rparr>) d"

definition queue_cleanup :: "platform \<Rightarrow> timestamp \<Rightarrow> uuid \<Rightarrow> run_lease \<Rightarrow> uuid \<Rightarrow> string \<Rightarrow> platform" where
  "queue_cleanup d now new_id l ws code =
     upsert_job (\<lambda>j. j\<lparr>jb_state := JobPending, jb_run_after := now, jb_last_error := Some code\<rparr>)
       (new_job new_id now (rq_organization_id (l_request l)) (l_run_id l) ws (Some code))
       (update_workspace_state (\<lambda>x. ws_id x = ws) WsCleanupPending d)"

text \<open>The statement that starts the run, and the number of rows it reports (those of the task).\<close>

definition start_run ::
  "orchestrator \<Rightarrow> platform \<Rightarrow> timestamp \<Rightarrow> timestamp \<Rightarrow> run_lease \<Rightarrow> string \<Rightarrow> nat \<times> platform" where
  "start_run w d now expires_at l thread =
     (let P = (\<lambda>r. holds_lease w l r \<and> rn_status r = RunProvisioning);
          hit = filter P (run_rows d);
          tasks = map (rq_task_id \<circ> rn_request) hit;
          spaces = List.map_filter rn_workspace_id hit;
          d' = update_runs P (\<lambda>r. r\<lparr>rn_status := RunRunning, rn_thread_id := Some thread, rn_heartbeat_at := Some now,
                 rn_lease_expires_at := Some expires_at, rn_updated_at := now\<rparr>) d;
          d' = update_workspace_state (\<lambda>x. ws_id x \<in> set spaces) WsBusy d'
      in (length (filter (\<lambda>t. tk_id t \<in> set tasks) (task_rows d)),
          d'\<lparr>task_rows := map (\<lambda>t. if tk_id t \<in> set tasks then t\<lparr>tk_status := TaskRunning\<rparr> else t) (task_rows d')\<rparr>))"

text \<open>The thread was started but the lease is gone.\<close>

definition record_delivery_uncertainty ::
  "platform \<Rightarrow> timestamp \<Rightarrow> run_lease \<Rightarrow> uuid \<Rightarrow> string \<Rightarrow> (orchestrator_error, unit) result \<times> platform" where
  "record_delivery_uncertainty d now l ws thread =
     (let d' = update_runs (\<lambda>r. rn_id r = l_run_id l \<and> rn_workspace_id r = Some ws)
            (\<lambda>r. r\<lparr>rn_thread_id := (case rn_thread_id r of None \<Rightarrow> Some thread | Some t \<Rightarrow> Some t),
               rn_status := (if rn_status r = RunCancelled then RunCancelled else RunRecoveryPending),
               rn_failure_code := (if rn_status r = RunCancelled then rn_failure_code r else Some ''thread_delivery_unknown''),
               rn_lease_owner := None, rn_lease_token := None, rn_lease_expires_at := None, rn_updated_at := now\<rparr>) d
      in if one_active_per_task (run_rows d')
         then (Ok (), update_workspace_state (\<lambda>x. ws_id x = ws) WsReady d')
         else (Err RunDatabase, d))"

fun failure_code :: "orchestrator_error \<Rightarrow> string" where
  "failure_code (RunInvalid _) = ''invalid_run''"
| "failure_code RunNotFound = ''resource_not_found''"
| "failure_code (RunConflict _) = ''run_conflict''"
| "failure_code LeaseLost = ''lease_lost''"
| "failure_code RunDatabase = ''database_error''"
| "failure_code RunGit = ''git_workspace_error''"
| "failure_code RunAdapter = ''codex_unavailable''"

text \<open>
  One stage of \<open>execute_lease\<close> and of the end of \<open>run_once\<close>: the next stage, the database and the checkouts
  on disk. The optional copy of \<open>AGENTS.md\<close> has no effect on any of these.
\<close>

fun exec_stage ::
  "orchestrator \<Rightarrow> timestamp \<Rightarrow> timestamp \<Rightarrow> uuid \<Rightarrow> outcomes \<Rightarrow> run_lease \<Rightarrow> stage \<Rightarrow> platform \<times> uuid set
   \<Rightarrow> stage \<times> platform \<times> uuid set" where
  "exec_stage w now utc job_id oc l Leased (d, disk) =
     (case heartbeat w d now utc l of
        (Err e, d') \<Rightarrow> (Failing e, d', disk)
      | (Ok _, d') \<Rightarrow>
          if isl (validate_source (o_git w) (l_git_url l)) \<or> isl (validate_ref (rq_source_ref (l_request l)))
          then (Failing RunGit, d', disk)
          else (case oc_provision oc of
                  None \<Rightarrow> (Failing RunGit, d', disk)
                | Some co \<Rightarrow>
                    if rq_workspace_kind (l_request l) = ''worktree'' then
                      (if oc_branch oc
                       then (Provisioned (oc_workspace_id oc) (co\<lparr>co_branch := rq_source_ref (l_request l)\<rparr>), d',
                             insert (oc_workspace_id oc) disk)
                       else (Failing RunGit, d', if oc_remove oc then disk else insert (oc_workspace_id oc) disk))
                    else (Provisioned (oc_workspace_id oc) co, d', insert (oc_workspace_id oc) disk)))"
| "exec_stage w now utc job_id oc l (Provisioned i co) (d, disk) =
     (case heartbeat w d now utc l of
        (Err e, d') \<Rightarrow> (Failing e, d', disk)
      | (Ok _, d') \<Rightarrow>
          if record_check w d' l then (Checked i co, d', disk)
          else if oc_remove oc then (Failing LeaseLost, d', disk - {i}) else (Failing RunGit, d', disk))"
| "exec_stage w now utc job_id oc l (Checked i co) (d, disk) =
     (case record_insert d now l i co of
        (Err e, d') \<Rightarrow>
          if oc_remove oc then (Failing e, d', disk - {i}) else (Failing RunGit, d', disk)
      | (Ok _, d') \<Rightarrow> (Recorded i co, d', disk))"
| "exec_stage w now utc job_id oc l (Recorded i co) (d, disk) =
     (if (case rq_fork_thread_id (l_request l) of None \<Rightarrow> False | Some t \<Rightarrow> fork_source d l t = None)
      then (Failing RunNotFound, d, disk)
      else (case oc_thread oc of
              None \<Rightarrow> (CleanUp i, d, disk)
            | Some t \<Rightarrow> (Started i t, d, disk)))"
| "exec_stage w now utc job_id oc l (CleanUp i) (d, disk) =
     (Failing RunAdapter, queue_cleanup d now job_id l i ''thread_start_failed'', disk)"
| "exec_stage w now utc job_id oc l (Started i t) (d, disk) =
     (case lease_until w utc of
        Err e \<Rightarrow> (Failing e, d, disk)
      | Ok expires_at \<Rightarrow>
          (let (n, d') = start_run w d now expires_at l t in
           (if n = 1 then Finished (Ok ()) else Uncertain i t, d', disk)))"
| "exec_stage w now utc job_id oc l (Uncertain i t) (d, disk) =
     (case record_delivery_uncertainty d now l i t of
        (Err e, d') \<Rightarrow> (Failing e, d', disk)
      | (Ok _, d') \<Rightarrow> (Failing LeaseLost, d', disk))"
| "exec_stage w now utc job_id oc l (Failing e) (d, disk) =
     (Finished (Err e), fail_lease w d now l (failure_code e), disk)"
| "exec_stage w now utc job_id oc l (Finished r) (d, disk) = (Finished r, d, disk)"

text \<open>
  \<open>run_once\<close> without interruption: a claim, and the stages one after the other. There are at most eight,
  so the fuel is enough.
\<close>

fun exec_stages ::
  "nat \<Rightarrow> orchestrator \<Rightarrow> timestamp \<Rightarrow> timestamp \<Rightarrow> uuid \<Rightarrow> outcomes \<Rightarrow> run_lease \<Rightarrow> stage \<Rightarrow> platform \<times> uuid set
   \<Rightarrow> stage \<times> platform \<times> uuid set" where
  "exec_stages 0 w now utc job_id oc l st sys = (st, sys)"
| "exec_stages (Suc n) w now utc job_id oc l st sys =
     (let (st', sys') = exec_stage w now utc job_id oc l st sys in exec_stages n w now utc job_id oc l st' sys')"

definition run_once ::
  "orchestrator \<Rightarrow> timestamp \<Rightarrow> timestamp \<Rightarrow> string \<Rightarrow> (uuid \<Rightarrow> bool) \<Rightarrow> uuid \<Rightarrow> outcomes \<Rightarrow> platform \<times> uuid set
   \<Rightarrow> (orchestrator_error, bool) result \<times> platform \<times> uuid set" where
  "run_once w now utc token locked job_id oc = (\<lambda>(d, disk).
     case claim_next w d now utc token locked of
       (Err e, d') \<Rightarrow> (Err e, d', disk)
     | (Ok None, d') \<Rightarrow> (Ok False, d', disk)
     | (Ok (Some l), d') \<Rightarrow>
         (case exec_stages 8 w now utc job_id oc l Leased (d', disk) of
            (Finished (Ok _), sys) \<Rightarrow> (Ok True, sys)
          | (Finished (Err e), sys) \<Rightarrow> (Err e, sys)
          | (_, sys) \<Rightarrow> (Err RunDatabase, sys)))"

section \<open>Removal of workspaces\<close>

definition due_jobs :: "platform \<Rightarrow> timestamp \<Rightarrow> (uuid \<Rightarrow> bool) \<Rightarrow> runner_job list" where
  "due_jobs d now locked =
     filter (\<lambda>j. (jb_state j = JobPending \<or>
                  jb_state j = JobRunning \<and> (case jb_lease_expires_at j of None \<Rightarrow> False | Some e \<Rightarrow> e < now))
               \<and> jb_run_after j \<le> now \<and> \<not> locked (jb_id j)) (job_rows d)"

definition update_jobs :: "(runner_job \<Rightarrow> bool) \<Rightarrow> (runner_job \<Rightarrow> runner_job) \<Rightarrow> platform \<Rightarrow> platform" where
  "update_jobs P f d = d\<lparr>job_rows := map (\<lambda>j. if P j then f j else j) (job_rows d)\<rparr>"

definition cleanup_claim ::
  "orchestrator \<Rightarrow> platform \<Rightarrow> timestamp \<Rightarrow> string \<Rightarrow> (uuid \<Rightarrow> bool) \<Rightarrow> (uuid \<times> uuid) option \<times> platform" where
  "cleanup_claim w d now token locked =
     (case oldest (\<lambda>j. (jb_created_at j, jb_id j)) (due_jobs d now locked) of
        None \<Rightarrow> (None, d)
      | Some j \<Rightarrow>
          (Some (jb_id j, jb_workspace_id j),
           update_jobs (\<lambda>x. jb_id x = jb_id j)
             (\<lambda>x. x\<lparr>jb_state := JobRunning, jb_attempt := Suc (jb_attempt x), jb_lease_owner := Some (o_worker_id w),
                jb_lease_token := Some token, jb_lease_expires_at := Some (now + 60000)\<rparr>) d))"

definition cleanup_failed :: "platform \<Rightarrow> timestamp \<Rightarrow> uuid \<Rightarrow> string \<Rightarrow> platform" where
  "cleanup_failed d now i token =
     update_jobs (\<lambda>x. jb_id x = i \<and> jb_lease_token x = Some token)
       (\<lambda>x. x\<lparr>jb_state := (if 5 \<le> jb_attempt x then JobFailed else JobPending), jb_run_after := now + 30000,
          jb_lease_owner := None, jb_lease_token := None, jb_lease_expires_at := None,
          jb_last_error := Some ''workspace_cleanup_failed''\<rparr>) d"

definition cleanup_done :: "platform \<Rightarrow> timestamp \<Rightarrow> uuid \<Rightarrow> uuid \<Rightarrow> string \<Rightarrow> platform" where
  "cleanup_done d now i ws token =
     update_jobs (\<lambda>x. jb_id x = i \<and> jb_lease_token x = Some token)
       (\<lambda>x. x\<lparr>jb_state := JobCompleted, jb_lease_owner := None, jb_lease_token := None, jb_lease_expires_at := None\<rparr>)
       (d\<lparr>workspace_rows := map (\<lambda>x. if ws_id x = ws then x\<lparr>ws_state := WsRetired, ws_retired_at := Some now\<rparr> else x)
            (workspace_rows d)\<rparr>)"

section \<open>Events of the runtime\<close>

definition turn_started :: "platform \<Rightarrow> timestamp \<Rightarrow> uuid \<Rightarrow> string option \<Rightarrow> platform" where
  "turn_started d now i turn =
     update_runs (\<lambda>r. rn_id r = i \<and> rn_status r = RunRunning)
       (\<lambda>r. r\<lparr>rn_turn_id := turn, rn_updated_at := now\<rparr>) d"

definition turn_completed :: "platform \<Rightarrow> timestamp \<Rightarrow> uuid \<Rightarrow> string option \<Rightarrow> platform" where
  "turn_completed d now i turn =
     update_runs (\<lambda>r. rn_id r = i \<and> rn_turn_id r \<noteq> None \<and> rn_turn_id r = turn)
       (\<lambda>r. r\<lparr>rn_turn_id := None, rn_updated_at := now\<rparr>) d"

text \<open>The end of a thread, completed or failed.\<close>

definition thread_ended :: "platform \<Rightarrow> timestamp \<Rightarrow> uuid \<Rightarrow> bool \<Rightarrow> platform" where
  "thread_ended d now i completed =
     (let P = (\<lambda>r. rn_id r = i \<and> rn_status r = RunRunning);
          hit = filter P (run_rows d);
          tasks = map (rq_task_id \<circ> rn_request) hit;
          d' = update_runs P
                 (\<lambda>r. r\<lparr>rn_status := (if completed then RunCompleted else RunFailed), rn_turn_id := None,
                    rn_lease_owner := None, rn_lease_token := None, rn_lease_expires_at := None, rn_updated_at := now\<rparr>) d;
          d' = update_workspace_state (\<lambda>x. ws_id x \<in> set (List.map_filter rn_workspace_id hit)) WsReady d'
      in d'\<lparr>task_rows := map (\<lambda>t. if tk_id t \<in> set tasks \<and> tk_status t \<notin> {TaskCompleted, TaskCancelled, TaskArchived}
               then t\<lparr>tk_status := (if completed then TaskCompleted else TaskPending)\<rparr> else t) (task_rows d')\<rparr>)"

section \<open>All interleavings\<close>

text \<open>
  The database, the executions and removals under way, the cancellations whose interrupt has not been answered,
  the checkouts on disk and all tokens and ids ever drawn. \<open>Uuid::now_v7\<close> and \<open>gen_random_uuid\<close> never repeat.
\<close>

record orch_sys =
  odb :: platform
  executions :: "(orchestrator \<times> run_lease \<times> stage) list"
  cancels :: "uuid list"
  removals :: "(uuid \<times> uuid \<times> string) list"
  disk :: "uuid set"
  drawn_tokens :: "string list"
  drawn_ids :: "uuid list"

inductive orch_step :: "orch_sys \<Rightarrow> orch_sys \<Rightarrow> bool" where
  os_enqueue:
    "new_id \<notin> set (drawn_ids s) \<Longrightarrow> enqueue_run w (odb s) now new_id req = (res, d') \<Longrightarrow>
     orch_step s (s\<lparr>odb := d', drawn_ids := new_id # drawn_ids s\<rparr>)"
| os_cancel:
    "cancel_tx (odb s) now req = (res, d') \<Longrightarrow>
     orch_step s (s\<lparr>odb := d',
       cancels := (case res of Inr r \<Rightarrow> if needs_interrupt (odb s) r then rn_id r # cancels s else cancels s
                   | Inl e \<Rightarrow> cancels s)\<rparr>)"
| os_interrupted:
    "i \<in> set (cancels s) \<Longrightarrow> orch_step s (s\<lparr>cancels := remove1 i (cancels s)\<rparr>)"
| os_interrupt_failed:
    "i \<in> set (cancels s) \<Longrightarrow> interrupt_failed (odb s) now i = (res, d') \<Longrightarrow>
     orch_step s (s\<lparr>odb := d', cancels := remove1 i (cancels s)\<rparr>)"
| os_retire:
    "new_id \<notin> set (drawn_ids s) \<Longrightarrow> retire_tx (odb s) now new_id req ws = (res, d') \<Longrightarrow>
     orch_step s (s\<lparr>odb := d', drawn_ids := new_id # drawn_ids s\<rparr>)"
| os_recover:
    "token \<notin> set (drawn_tokens s) \<Longrightarrow> recover_run w (odb s) now utc token req = (res, d') \<Longrightarrow>
     orch_step s (s\<lparr>odb := d', drawn_tokens := token # drawn_tokens s\<rparr>)"
| os_claim:
    "token \<notin> set (drawn_tokens s) \<Longrightarrow> claim_next w (odb s) now utc token locked = (res, d') \<Longrightarrow>
     orch_step s (s\<lparr>odb := d', drawn_tokens := token # drawn_tokens s,
       executions := (case res of Inr (Some l) \<Rightarrow> (w, l, Leased) # executions s | _ \<Rightarrow> executions s)\<rparr>)"
| os_execute:
    "executions s = xs @ (w, l, st) # ys \<Longrightarrow> st \<notin> range Finished \<Longrightarrow>
     oc_workspace_id oc \<notin> set (drawn_ids s) \<Longrightarrow> job_id \<notin> set (drawn_ids s) \<Longrightarrow> job_id \<noteq> oc_workspace_id oc \<Longrightarrow>
     exec_stage w now utc job_id oc l st (odb s, disk s) = (st', d', disk') \<Longrightarrow>
     orch_step s (s\<lparr>odb := d', disk := disk', executions := xs @ (w, l, st') # ys,
       drawn_ids := oc_workspace_id oc # job_id # drawn_ids s\<rparr>)"
| os_crash:
    "executions s = xs @ e # ys \<Longrightarrow> orch_step s (s\<lparr>executions := xs @ ys\<rparr>)"
| os_heartbeat_owned:
    "heartbeat_owned_runs w (odb s) now utc = (res, d') \<Longrightarrow> orch_step s (s\<lparr>odb := d'\<rparr>)"
| os_reap:
    "inj job_id \<Longrightarrow> range job_id \<inter> set (drawn_ids s) = {} \<Longrightarrow> reap_expired (odb s) now job_id = (n, d') \<Longrightarrow>
     orch_step s (s\<lparr>odb := d', drawn_ids := map jb_id (job_rows d') @ drawn_ids s\<rparr>)"
| os_cleanup_claim:
    "token \<notin> set (drawn_tokens s) \<Longrightarrow> cleanup_claim w (odb s) now token locked = (res, d') \<Longrightarrow>
     orch_step s (s\<lparr>odb := d', drawn_tokens := token # drawn_tokens s,
       removals := (case res of Some (i, ws) \<Rightarrow> (i, ws, token) # removals s | None \<Rightarrow> removals s)\<rparr>)"
| os_cleanup_failed:
    "(i, ws, token) \<in> set (removals s) \<Longrightarrow>
     orch_step s (s\<lparr>odb := cleanup_failed (odb s) now i token, removals := remove1 (i, ws, token) (removals s)\<rparr>)"
| os_cleanup_done:
    "(i, ws, token) \<in> set (removals s) \<Longrightarrow>
     orch_step s (s\<lparr>odb := cleanup_done (odb s) now i ws token, disk := disk s - {ws},
       removals := remove1 (i, ws, token) (removals s)\<rparr>)"
| os_turn_started: "orch_step s (s\<lparr>odb := turn_started (odb s) now i turn\<rparr>)"
| os_turn_completed: "orch_step s (s\<lparr>odb := turn_completed (odb s) now i turn\<rparr>)"
| os_thread_ended: "orch_step s (s\<lparr>odb := thread_ended (odb s) now i completed\<rparr>)"
| os_others:
    "distinct (map tk_id ts) \<Longrightarrow> tk_id ` set (task_rows (odb s)) \<subseteq> tk_id ` set ts \<Longrightarrow>
     orch_step s (s\<lparr>odb := (odb s)\<lparr>task_rows := ts, project_rows := ps, profile_rows := pf\<rparr>\<rparr>)"

inductive_cases orch_stepE: "orch_step s t"

end
