(* ===== verification/Run_Lifecycle.thy ===== *)
theory Run_Lifecycle
  imports Run_Orchestrator
begin

text \<open>
  The life of a run, and that every interleaving of the transactions of \<open>Run_Orchestrator\<close> keeps to it.
  \<open>run_step\<close> is the specification of what may happen to one row; \<open>orch_inv\<close> says how runs,
  workspaces, tokens and executions agree.
\<close>

section \<open>The specification of a row\<close>

definition unleased :: "run \<Rightarrow> bool" where
  "unleased r \<longleftrightarrow> rn_lease_owner r = None \<and> rn_lease_token r = None \<and> rn_lease_expires_at r = None"

definition leased :: "run \<Rightarrow> bool" where
  "leased r \<longleftrightarrow> rn_lease_owner r \<noteq> None \<and> rn_lease_token r \<noteq> None \<and> rn_lease_expires_at r \<noteq> None"

definition drop_lease :: "run \<Rightarrow> run" where
  "drop_lease r = r\<lparr>rn_lease_owner := None, rn_lease_token := None, rn_lease_expires_at := None\<rparr>"

text \<open>
  The changes of one row; \<open>token\<close> is the token drawn in the step. The times, the failure code and the turn are of
  no account here.
\<close>

inductive run_step :: "string \<Rightarrow> run \<Rightarrow> run \<Rightarrow> bool" for token where
  rs_minor:
    "rn_status r' = rn_status r \<Longrightarrow> rn_thread_id r' = rn_thread_id r \<Longrightarrow> rn_workspace_id r' = rn_workspace_id r \<Longrightarrow>
     rn_lease_owner r' = rn_lease_owner r \<Longrightarrow> rn_lease_token r' = rn_lease_token r \<Longrightarrow>
     (rn_lease_expires_at r' = None) = (rn_lease_expires_at r = None) \<Longrightarrow>
     rn_id r' = rn_id r \<Longrightarrow> rn_request r' = rn_request r \<Longrightarrow> rn_attempt r' = rn_attempt r \<Longrightarrow>
     (rn_turn_id r' \<noteq> None \<Longrightarrow> rn_turn_id r = None \<Longrightarrow> rn_status r = RunRunning) \<Longrightarrow> run_step token r r'"
| rs_claim:
    "rn_status r = RunPending \<Longrightarrow>
     run_step token r (r\<lparr>rn_status := RunProvisioning, rn_lease_owner := Some w, rn_lease_token := Some token,
       rn_lease_expires_at := Some e, rn_heartbeat_at := h, rn_attempt := Suc (rn_attempt r),
       rn_failure_code := c, rn_updated_at := u\<rparr>)"
| rs_workspace:
    "rn_status r \<noteq> RunPending \<Longrightarrow> rn_workspace_id r = None \<Longrightarrow>
     run_step token r (r\<lparr>rn_workspace_id := Some i, rn_updated_at := u\<rparr>)"
| rs_start:
    "rn_status r = RunProvisioning \<Longrightarrow> rn_workspace_id r \<noteq> None \<Longrightarrow>
     run_step token r (r\<lparr>rn_status := RunRunning, rn_thread_id := Some t, rn_heartbeat_at := h,
       rn_lease_expires_at := Some e, rn_updated_at := u\<rparr>)"
| rs_recover:
    "rn_status r = RunRecoveryPending \<Longrightarrow> rn_thread_id r \<noteq> None \<Longrightarrow> rn_workspace_id r \<noteq> None \<Longrightarrow>
     run_step token r (r\<lparr>rn_status := RunRunning, rn_turn_id := None, rn_failure_code := None, rn_lease_owner := Some w,
       rn_lease_token := Some token, rn_lease_expires_at := Some e, rn_heartbeat_at := h, rn_updated_at := u\<rparr>)"
| rs_lose:
    "rn_status r \<in> {RunProvisioning, RunRunning, RunCancelling} \<Longrightarrow>
     run_step token r (r\<lparr>rn_status := RunRecoveryPending, rn_failure_code := c, rn_lease_owner := None,
       rn_lease_token := None, rn_lease_expires_at := None, rn_updated_at := u\<rparr>)"
| rs_fail:
    "rn_status r \<in> {RunProvisioning, RunCancelling} \<Longrightarrow>
     run_step token r (r\<lparr>rn_status := RunFailed, rn_failure_code := c, rn_lease_owner := None,
       rn_lease_token := None, rn_lease_expires_at := None, rn_updated_at := u\<rparr>)"
| rs_uncertain:
    "rn_workspace_id r \<noteq> None \<Longrightarrow>
     run_step token r (r\<lparr>rn_thread_id := (case rn_thread_id r of None \<Rightarrow> Some t | Some t' \<Rightarrow> Some t'),
       rn_status := (if rn_status r = RunCancelled then RunCancelled else RunRecoveryPending), rn_failure_code := c,
       rn_lease_owner := None, rn_lease_token := None, rn_lease_expires_at := None, rn_updated_at := u\<rparr>)"
| rs_cancel: "run_step token r (cancelled u r)"
| rs_uncancel:
    "rn_status r = RunCancelled \<Longrightarrow>
     run_step token r (r\<lparr>rn_status := RunRecoveryPending, rn_failure_code := c, rn_updated_at := u\<rparr>)"
| rs_end:
    "rn_status r = RunRunning \<Longrightarrow> st \<in> {RunCompleted, RunFailed} \<Longrightarrow>
     run_step token r (r\<lparr>rn_status := st, rn_turn_id := None, rn_lease_owner := None, rn_lease_token := None,
       rn_lease_expires_at := None, rn_updated_at := u\<rparr>)"

lemma run_step_refl [intro]: "run_step token r r"
  by (rule rs_minor) simp_all

text \<open>What holds of every row.\<close>

definition run_ok :: "run \<Rightarrow> bool" where
  "run_ok r \<longleftrightarrow>
     rn_status r \<noteq> RunCancelling
     \<and> (if rn_status r \<in> {RunProvisioning, RunRunning} then leased r else unleased r)
     \<and> rn_attempt r \<le> 1
     \<and> (rn_status r = RunPending \<longrightarrow> rn_workspace_id r = None \<and> rn_attempt r = 0)
     \<and> (rn_status r \<in> {RunPending, RunProvisioning} \<longrightarrow> rn_thread_id r = None)
     \<and> (rn_thread_id r \<noteq> None \<longrightarrow> rn_workspace_id r \<noteq> None)
     \<and> (rn_status r = RunRunning \<longrightarrow> rn_thread_id r \<noteq> None)
     \<and> (rn_turn_id r \<noteq> None \<longrightarrow> rn_thread_id r \<noteq> None \<and> rn_status r \<in> {RunRunning, RunRecoveryPending})"

lemma run_step_ok:
  assumes "run_step token r r'" "run_ok r"
  shows "run_ok r'"
  using assms(1)
proof cases
  case rs_minor
  then have "leased r' = leased r" "unleased r' = unleased r" by (simp_all add: leased_def unleased_def)
  moreover have "rn_turn_id r' \<noteq> None \<Longrightarrow> rn_thread_id r \<noteq> None \<and> rn_status r \<in> {RunRunning, RunRecoveryPending}"
    using rs_minor assms(2) unfolding run_ok_def by blast
  ultimately show ?thesis using rs_minor assms(2) unfolding run_ok_def by simp
next
  case (rs_uncertain t c u)
  then show ?thesis
    using assms(2) by (cases "rn_status r"; cases "rn_thread_id r"; simp add: run_ok_def leased_def unleased_def)
next
  case (rs_cancel u)
  then show ?thesis using assms(2) by (simp add: run_ok_def cancelled_def unleased_def)
next
  case (rs_lose c u)
  then show ?thesis using assms(2) by (cases "rn_status r"; simp add: run_ok_def unleased_def)
next
  case (rs_fail c u)
  then show ?thesis using assms(2) by (cases "rn_status r"; simp add: run_ok_def unleased_def)
next
  case (rs_workspace i u)
  then show ?thesis using assms(2) by (cases "rn_status r"; simp add: run_ok_def leased_def unleased_def)
next
  case (rs_end st u)
  then show ?thesis using assms(2) by (cases st; simp add: run_ok_def unleased_def)
qed (use assms(2) in \<open>simp_all add: run_ok_def leased_def unleased_def\<close>)

lemma run_step_fixed:
  assumes "run_step token r r'"
  shows "rn_id r' = rn_id r" "rn_request r' = rn_request r"
    "rn_workspace_id r \<noteq> None \<Longrightarrow> rn_workspace_id r' = rn_workspace_id r"
    "rn_attempt r \<le> rn_attempt r'"
    "rn_status r \<noteq> RunPending \<Longrightarrow> rn_status r' \<noteq> RunPending"
  using assms by (cases; auto simp: cancelled_def split: if_splits)+

lemma run_step_token:
  assumes "run_step token r r'" "rn_lease_token r' = Some t"
  shows "t = token \<or> rn_lease_token r = Some t"
  using assms by (cases; simp add: cancelled_def)

section \<open>Changes of the tables\<close>

definition workspace_refs :: "platform \<Rightarrow> (uuid \<times> uuid option) list" where
  "workspace_refs d = map (\<lambda>w. (ws_id w, ws_run_id w)) (workspace_rows d)"

definition task_ids :: "platform \<Rightarrow> uuid list" where
  "task_ids d = map tk_id (task_rows d)"

text \<open>
  Every row makes a step, at most one row receives the token drawn, the index on active runs holds, and
  the references between runs, workspaces and tasks stay.
\<close>

definition runs_evolve :: "string \<Rightarrow> run list \<Rightarrow> run list \<Rightarrow> bool" where
  "runs_evolve token rs rs' \<longleftrightarrow>
     (\<exists>f i. rs' = map f rs \<and> (\<forall>r \<in> set rs. run_step token r (f r) \<and>
        (rn_lease_token (f r) = Some token \<longrightarrow> rn_id r = i \<or> rn_lease_token r = Some token)))"

definition db_evolves :: "string \<Rightarrow> platform \<Rightarrow> platform \<Rightarrow> bool" where
  "db_evolves token d d' \<longleftrightarrow>
     runs_evolve token (run_rows d) (run_rows d') \<and> one_active_per_task (run_rows d')
     \<and> map rn_workspace_id (run_rows d') = map rn_workspace_id (run_rows d)
     \<and> workspace_refs d' = workspace_refs d \<and> task_ids d' = task_ids d"

lemma table_simps [simp]:
  "run_rows (update_workspace_state P st d) = run_rows d"
  "run_rows (update_task_status i ts d) = run_rows d"
  "run_rows (upsert_job f j d) = run_rows d"
  "run_rows (update_jobs Q g d) = run_rows d"
  "workspace_refs (update_runs R h d) = workspace_refs d"
  "workspace_refs (update_workspace_state P st d) = workspace_refs d"
  "workspace_refs (update_task_status i ts d) = workspace_refs d"
  "workspace_refs (upsert_job f j d) = workspace_refs d"
  "workspace_refs (update_jobs Q g d) = workspace_refs d"
  "task_ids (update_runs R h d) = task_ids d"
  "task_ids (update_workspace_state P st d) = task_ids d"
  "task_ids (update_task_status i ts d) = task_ids d"
  "task_ids (upsert_job f j d) = task_ids d"
  "task_ids (update_jobs Q g d) = task_ids d"
  by (simp_all add: update_workspace_state_def update_task_status_def upsert_job_def update_jobs_def update_runs_def
      workspace_refs_def task_ids_def comp_def if_distrib [of ws_id] if_distrib [of ws_run_id] if_distrib [of tk_id]
      cong: if_cong)

lemma run_rows_update: "run_rows (update_runs P f d) = map (\<lambda>r. if P r then f r else r) (run_rows d)"
  by (simp add: update_runs_def)

lemma one_active_shrink:
  assumes "\<And>r. r \<in> set rs \<Longrightarrow> rn_request (f r) = rn_request r \<and> (active_run (rn_status (f r)) \<longrightarrow> active_run (rn_status r))"
    and "one_active_per_task rs"
  shows "one_active_per_task (map f rs)"
  using assms
proof (induction rs)
  case (Cons r rs)
  have sub: "(rq_task_id \<circ> rn_request) ` set (filter (active_run \<circ> rn_status) (map f rs))
      \<subseteq> (rq_task_id \<circ> rn_request) ` set (filter (active_run \<circ> rn_status) rs)"
    using Cons.prems(1) by force
  have tl: "one_active_per_task rs" "one_active_per_task (map f rs)"
    using Cons by (auto simp: one_active_per_task_def split: if_splits)
  show ?case
  proof (cases "active_run (rn_status (f r))")
    case True
    then have r: "active_run (rn_status r)" "rn_request (f r) = rn_request r" using Cons.prems(1) [of r] by simp_all
    then have "rq_task_id (rn_request r) \<notin> (rq_task_id \<circ> rn_request) ` set (filter (active_run \<circ> rn_status) rs)"
      using Cons.prems(2) by (simp add: one_active_per_task_def)
    with sub tl(2) True r show ?thesis by (auto simp: one_active_per_task_def)
  next
    case False
    with tl show ?thesis by (simp add: one_active_per_task_def)
  qed
qed simp

lemma db_evolves_same:
  "one_active_per_task (run_rows d) \<Longrightarrow> run_rows d' = run_rows d \<Longrightarrow> workspace_refs d' = workspace_refs d \<Longrightarrow>
   task_ids d' = task_ids d \<Longrightarrow> db_evolves token d d'"
  unfolding db_evolves_def runs_evolve_def
  by (intro conjI exI [of _ id] exI [of _ 0]) (auto simp: run_step_refl)

lemma db_evolves_more:
  "db_evolves token d d' \<Longrightarrow> run_rows d'' = run_rows d' \<Longrightarrow> workspace_refs d'' = workspace_refs d' \<Longrightarrow>
   task_ids d'' = task_ids d' \<Longrightarrow> db_evolves token d d''"
  by (simp add: db_evolves_def)

lemma db_evolves_update:
  assumes step: "\<And>r. r \<in> set (run_rows d) \<Longrightarrow> P r \<Longrightarrow> run_step token r (f r) \<and> rn_workspace_id (f r) = rn_workspace_id r"
    and token: "\<And>r. r \<in> set (run_rows d) \<Longrightarrow> P r \<Longrightarrow> rn_lease_token (f r) = Some token \<Longrightarrow>
      rn_id r = i \<or> rn_lease_token r = Some token"
    and active: "one_active_per_task (run_rows (update_runs P f d))"
  shows "db_evolves token d (update_runs P f d)"
  unfolding db_evolves_def runs_evolve_def run_rows_update
proof (intro conjI exI [of _ "\<lambda>r. if P r then f r else r"] exI [of _ i] ballI)
  fix r assume r: "r \<in> set (run_rows d)"
  show "run_step token r (if P r then f r else r)" using step [OF r] by auto
  show "rn_lease_token (if P r then f r else r) = Some token \<longrightarrow> rn_id r = i \<or> rn_lease_token r = Some token"
    using token [OF r] by auto
next
  show "one_active_per_task (map (\<lambda>r. if P r then f r else r) (run_rows d))" using active by (simp add: run_rows_update)
  show "map rn_workspace_id (map (\<lambda>r. if P r then f r else r) (run_rows d)) = map rn_workspace_id (run_rows d)"
    using step by simp
qed simp_all

text \<open>An update that makes no run active and gives out no token.\<close>

lemma db_evolves_quiet:
  assumes "one_active_per_task (run_rows d)"
    and "\<And>r. r \<in> set (run_rows d) \<Longrightarrow> P r \<Longrightarrow> run_step token r (f r) \<and> rn_workspace_id (f r) = rn_workspace_id r
      \<and> rn_lease_token (f r) \<in> {None, rn_lease_token r} \<and> (active_run (rn_status (f r)) \<longrightarrow> active_run (rn_status r))"
  shows "db_evolves token d (update_runs P f d)"
proof (rule db_evolves_update [where i = 0])
  show "one_active_per_task (run_rows (update_runs P f d))"
    unfolding run_rows_update
    using assms run_step_fixed(2) by (intro one_active_shrink) (auto; blast)
qed (use assms(2) in force)+

section \<open>Every transaction\<close>

lemma active_run_simps [simp]:
  "active_run RunPending" "active_run RunProvisioning" "active_run RunRunning" "active_run RunCancelling"
  "active_run RunRecoveryPending" "\<not> active_run RunCompleted" "\<not> active_run RunCancelled" "\<not> active_run RunFailed"
  by (simp_all add: active_run_def)

lemma cancelled_fields [simp]:
  "rn_workspace_id (cancelled u r) = rn_workspace_id r" "rn_lease_token (cancelled u r) = None"
  "rn_status (cancelled u r) = RunCancelled"
  by (simp_all add: cancelled_def)

lemma update_cancelled:
  "one_active_per_task (run_rows d) \<Longrightarrow> db_evolves token d (update_runs P (cancelled u) d)"
  by (rule db_evolves_quiet) (simp_all add: rs_cancel)

lemma evolves_or_same:
  assumes "d' = d \<or> run_rows d' = run_rows e \<and> workspace_refs d' = workspace_refs d \<and> task_ids d' = task_ids d"
    and "one_active_per_task (run_rows d)" "db_evolves token d e"
  shows "db_evolves token d d'"
  using assms(1)
proof
  assume "d' = d"
  then show ?thesis using assms(2) by (simp add: db_evolves_same)
qed (use assms(3) in \<open>simp add: db_evolves_def\<close>)

lemma cancel_tx_evolves:
  assumes "one_active_per_task (run_rows d)" "cancel_tx d now req = (res, d')"
  shows "db_evolves token d d'"
proof (rule evolves_or_same [OF _ assms(1) update_cancelled [OF assms(1)]])
  show "d' = d \<or> run_rows d' = run_rows (update_runs (\<lambda>x. rn_id x = ra_run_id req) (cancelled now) d) \<and>
      workspace_refs d' = workspace_refs d \<and> task_ids d' = task_ids d"
    using assms(2) by (auto simp: cancel_tx_def Let_def split: sum.splits if_splits option.splits)
qed

lemma retire_tx_evolves:
  assumes "one_active_per_task (run_rows d)" "retire_tx d now new_id req ws = (res, d')"
  shows "db_evolves token d d'"
proof (rule evolves_or_same [OF _ assms(1) update_cancelled [OF assms(1)]])
  show "d' = d \<or> run_rows d' = run_rows (update_runs (\<lambda>x. rn_id x = ra_run_id req) (cancelled now) d) \<and>
      workspace_refs d' = workspace_refs d \<and> task_ids d' = task_ids d"
    using assms(2) by (auto simp: retire_tx_def Let_def split: sum.splits if_splits option.splits)
qed

lemma interrupt_failed_evolves:
  assumes "one_active_per_task (run_rows d)" "interrupt_failed d now i = (res, d')"
  shows "db_evolves token d d'"
proof (cases "d' = d")
  case True
  then show ?thesis using assms(1) by (simp add: db_evolves_same)
next
  case False
  let ?P = "\<lambda>x. rn_id x = i \<and> rn_status x = RunCancelled"
  let ?f = "\<lambda>x. x\<lparr>rn_status := RunRecoveryPending, rn_failure_code := Some ''interrupt_failed'', rn_updated_at := now\<rparr>"
  have d': "d' = update_runs ?P ?f d" "one_active_per_task (run_rows d')"
    using assms(2) False by (auto simp: interrupt_failed_def Let_def split: if_splits)
  show ?thesis
    unfolding d'(1) using d' by (intro db_evolves_update [where i = 0]) (auto simp: rs_uncancel)
qed

lemma recover_evolves:
  assumes "one_active_per_task (run_rows d)" "recover_run w d now utc token req = (res, d')"
    "\<And>r. r \<in> set (run_rows d) \<Longrightarrow> run_ok r" "distinct (map rn_id (run_rows d))"
  shows "db_evolves token d d'"
proof (cases "d' = d")
  case True
  then show ?thesis using assms(1) by (simp add: db_evolves_same)
next
  case False
  let ?P = "\<lambda>x. rn_id x = ra_run_id req \<and> rn_status x = RunRecoveryPending"
  obtain r e where r: "get_run d (ra_organization_id req) (ra_run_id req) = Ok r" "rn_thread_id r \<noteq> None"
    and d': "run_rows d' = run_rows (update_runs ?P
      (\<lambda>x. x\<lparr>rn_status := RunRunning, rn_turn_id := None, rn_failure_code := None, rn_lease_owner := Some (o_worker_id w),
         rn_lease_token := Some token, rn_lease_expires_at := Some e, rn_heartbeat_at := Some now, rn_updated_at := now\<rparr>) d)"
    "workspace_refs d' = workspace_refs d" "task_ids d' = task_ids d"
    using assms(2) False
    by (auto simp: recover_run_def Let_def split: sum.splits if_splits option.splits prod.splits)
  have mem: "r \<in> set (run_rows d)" "rn_id r = ra_run_id req"
    using r(1) by (auto simp: get_run_def dest: find_SomeD)
  have same: "x = r" if "x \<in> set (run_rows d)" "rn_id x = ra_run_id req" for x
    using that mem assms(4) by (metis (no_types, lifting) distinct_map inj_on_def)
  have "db_evolves token d (update_runs ?P
      (\<lambda>x. x\<lparr>rn_status := RunRunning, rn_turn_id := None, rn_failure_code := None, rn_lease_owner := Some (o_worker_id w),
         rn_lease_token := Some token, rn_lease_expires_at := Some e, rn_heartbeat_at := Some now, rn_updated_at := now\<rparr>) d)"
  proof (rule db_evolves_update [where i = "ra_run_id req"], goal_cases)
    case (1 x)
    then have "x = r" using same by blast
    moreover have "rn_workspace_id r \<noteq> None" using assms(3) [OF mem(1)] r(2) by (simp add: run_ok_def)
    ultimately show ?case using 1 r(2) by (auto intro!: rs_recover)
  next
    case 3
    show ?case unfolding run_rows_update using assms(1) by (intro one_active_shrink) auto
  qed auto
  then show ?thesis by (rule db_evolves_more) (simp_all add: d')
qed

lemma oldest_mem: "oldest key xs = Some x \<Longrightarrow> x \<in> set xs"
  by (induction xs arbitrary: x) (auto split: option.splits if_splits)

definition claimed :: "orchestrator \<Rightarrow> timestamp \<Rightarrow> timestamp \<Rightarrow> string \<Rightarrow> run \<Rightarrow> run" where
  "claimed w now e token x =
     x\<lparr>rn_status := RunProvisioning, rn_lease_owner := Some (o_worker_id w), rn_lease_token := Some token,
       rn_lease_expires_at := Some e, rn_heartbeat_at := Some now, rn_attempt := Suc (rn_attempt x),
       rn_failure_code := None, rn_updated_at := now\<rparr>"

text \<open>What a claim does, if it claims anything.\<close>

lemma claim_nextD:
  assumes "claim_next w d now utc token locked = (res, d')"
  obtains (idle) "d' = d" "\<And>l. res \<noteq> Ok (Some l)"
  | (claimed) r t pj p l e where "res = Ok (Some l)" "(r, t, pj, p) \<in> set (claimable w d now locked)"
      "oldest (\<lambda>(r, _). (rq_created_at (rn_request r), rn_id r)) (claimable w d now locked) = Some (r, t, pj, p)"
      "l_run_id l = rn_id r" "l_request l = rn_request r" "l_token l = token" "l_attempt l = Suc (rn_attempt r)"
      "r \<in> set (run_rows d)" "rn_status r = RunPending" "lease_until w utc = Ok e" "l_expires_at l = e"
      "d' = update_runs (\<lambda>x. rn_id x = rn_id r) (claimed w now e token) d"
proof (cases "oldest (\<lambda>(r, _). (rq_created_at (rn_request r), rn_id r)) (claimable w d now locked)")
  case None
  with assms show ?thesis by (intro idle) (auto simp: claim_next_def)
next
  case (Some x)
  obtain r t pj p where x: "x = (r, t, pj, p)" by (cases x)
  have mem: "(r, t, pj, p) \<in> set (claimable w d now locked)" using oldest_mem [OF Some] x by simp
  then have r: "r \<in> set (run_rows d)" "rn_status r = RunPending" by (auto simp: claimable_def)
  show ?thesis
  proof (cases "lease_until w utc")
    case (Inl e)
    with assms Some x show ?thesis by (intro idle) (auto simp: claim_next_def)
  next
    case (Inr e)
    define l where "l = \<lparr>l_run_id = rn_id r, l_request = rn_request r, l_project_id = tk_project_id t,
      l_profile_id = p_id p, l_git_url = pj_git_url pj, l_token = token, l_expires_at = e, l_attempt = Suc (rn_attempt r)\<rparr>"
    have "res = Ok (Some l)" "d' = update_runs (\<lambda>x. rn_id x = rn_id r) (claimed w now e token) d"
      using assms Some x Inr by (simp_all add: claim_next_def l_def claimed_def [abs_def])
    then show ?thesis
      using claimed [OF _ mem _ _ _ _ _ r Inr] Some x by (simp add: l_def)
  qed
qed

lemma same_id_eq:
  "distinct (map rn_id rs) \<Longrightarrow> x \<in> set rs \<Longrightarrow> y \<in> set rs \<Longrightarrow> rn_id x = rn_id y \<Longrightarrow> x = y"
  by (meson distinct_map inj_onD)

lemma claim_evolves:
  assumes "one_active_per_task (run_rows d)" "claim_next w d now utc token locked = (res, d')"
    "distinct (map rn_id (run_rows d))"
  shows "db_evolves token d d'"
  using assms(2)
proof (cases rule: claim_nextD)
  case idle
  then show ?thesis using assms(1) by (simp add: db_evolves_same)
next
  case (claimed r t pj p l e)
  show ?thesis
    unfolding claimed(12)
  proof (rule db_evolves_update [where i = "rn_id r"], goal_cases)
    case (1 x)
    then have "x = r" using same_id_eq [OF assms(3)] claimed(8) by blast
    then show ?case using claimed(9) by (auto simp: claimed_def intro!: rs_claim)
  next
    case 3
    have "active_run (rn_status x)" if "x \<in> set (run_rows d)" "rn_id x = rn_id r" for x
      using same_id_eq [OF assms(3) that(1) claimed(8) that(2)] claimed(9) by simp
    then show ?case
      unfolding run_rows_update using assms(1) by (intro one_active_shrink) (auto simp: claimed_def)
  qed auto
qed

lemma beat_evolves:
  assumes "one_active_per_task (run_rows d)" "\<And>r. r \<in> set (run_rows d) \<Longrightarrow> run_ok r"
    "\<And>r. P r \<Longrightarrow> rn_lease_token r \<noteq> None"
  shows "db_evolves token d (update_runs P (beat now e) d)"
proof (rule db_evolves_quiet [OF assms(1)])
  fix r assume r: "r \<in> set (run_rows d)" "P r"
  then have "rn_lease_expires_at r \<noteq> None"
    using assms(2) [OF r(1)] assms(3) [OF r(2)] by (auto simp: run_ok_def unleased_def leased_def split: if_splits)
  then show "run_step token r (beat now e r) \<and> rn_workspace_id (beat now e r) = rn_workspace_id r \<and>
      rn_lease_token (beat now e r) \<in> {None, rn_lease_token r} \<and>
      (active_run (rn_status (beat now e r)) \<longrightarrow> active_run (rn_status r))"
    by (auto simp: beat_def intro!: rs_minor)
qed

lemma heartbeat_evolves:
  assumes "one_active_per_task (run_rows d)" "\<And>r. r \<in> set (run_rows d) \<Longrightarrow> run_ok r"
    "heartbeat w d now utc l = (res, d')"
  shows "db_evolves token d d'"
proof (cases "lease_until w utc")
  case (Inl e)
  with assms show ?thesis by (simp add: heartbeat_def db_evolves_same)
next
  case (Inr e)
  then have "d' = update_runs (\<lambda>r. holds_lease w l r \<and> leasable (rn_status r)) (beat now e) d"
    using assms(3) by (auto simp: heartbeat_def Let_def)
  then show ?thesis by (auto simp: holds_lease_def intro: beat_evolves [OF assms(1,2)])
qed

lemma heartbeat_owned_evolves:
  assumes "one_active_per_task (run_rows d)" "\<And>r. r \<in> set (run_rows d) \<Longrightarrow> run_ok r"
    "heartbeat_owned_runs w d now utc = (res, d')"
  shows "db_evolves token d d'"
proof (cases "lease_until w utc")
  case (Inl e)
  with assms show ?thesis by (simp add: heartbeat_owned_runs_def db_evolves_same)
next
  case (Inr e)
  then have "d' = update_runs (\<lambda>r. rn_lease_owner r = Some (o_worker_id w) \<and> rn_lease_token r \<noteq> None \<and> leasable (rn_status r))
      (beat now e) d"
    using assms(3) by (auto simp: heartbeat_owned_runs_def Let_def)
  then show ?thesis by (auto intro: beat_evolves [OF assms(1,2)])
qed

lemma reap_workspace_tables [simp]:
  "run_rows (reap_workspace now job_id r d) = run_rows d"
  "workspace_refs (reap_workspace now job_id r d) = workspace_refs d"
  "task_ids (reap_workspace now job_id r d) = task_ids d"
  by (simp_all add: reap_workspace_def split: option.splits)

lemma reap_workspaces_tables [simp]:
  "run_rows (fold (reap_workspace now job_id) rs d) = run_rows d"
  "workspace_refs (fold (reap_workspace now job_id) rs d) = workspace_refs d"
  "task_ids (fold (reap_workspace now job_id) rs d) = task_ids d"
  by (induction rs arbitrary: d) simp_all

definition reaped :: "timestamp \<Rightarrow> run \<Rightarrow> run" where
  "reaped now r =
     r\<lparr>rn_status := RunRecoveryPending, rn_failure_code := Some ''lease_expired'', rn_lease_owner := None,
       rn_lease_token := None, rn_lease_expires_at := None, rn_updated_at := now\<rparr>"

lemma reap_expired_rows:
  "snd (reap_expired d now job_id) =
     fold (reap_workspace now job_id) (filter (expired now) (run_rows d)) (update_runs (expired now) (reaped now) d)"
  by (simp add: reap_expired_def Let_def reaped_def [abs_def])

lemma reap_evolves:
  assumes "one_active_per_task (run_rows d)" "reap_expired d now job_id = (n, d')"
  shows "db_evolves token d d'"
proof -
  have "db_evolves token d (update_runs (expired now) (reaped now) d)"
  proof (rule db_evolves_quiet [OF assms(1)])
    fix r assume "expired now r"
    then have st: "rn_status r \<in> {RunProvisioning, RunRunning, RunCancelling}"
      by (simp add: expired_def leasable_def)
    then have "run_step token r (reaped now r)" unfolding reaped_def by (rule rs_lose)
    with st show "run_step token r (reaped now r) \<and> rn_workspace_id (reaped now r) = rn_workspace_id r \<and>
        rn_lease_token (reaped now r) \<in> {None, rn_lease_token r} \<and>
        (active_run (rn_status (reaped now r)) \<longrightarrow> active_run (rn_status r))"
      by (auto simp: reaped_def)
  qed
  then show ?thesis
    by (rule db_evolves_more) (use assms(2) reap_expired_rows [of d now job_id] in simp_all)
qed

lemma turn_events_evolve:
  assumes "one_active_per_task (run_rows d)"
  shows "db_evolves token d (turn_started d now i turn)" "db_evolves token d (turn_completed d now i turn)"
  unfolding turn_started_def turn_completed_def
  by (rule db_evolves_quiet [OF assms]; auto intro!: rs_minor)+

lemma thread_ended_evolves:
  assumes "one_active_per_task (run_rows d)"
  shows "db_evolves token d (thread_ended d now i completed)"
proof -
  let ?f = "\<lambda>r. r\<lparr>rn_status := (if completed then RunCompleted else RunFailed), rn_turn_id := None,
    rn_lease_owner := None, rn_lease_token := None, rn_lease_expires_at := None, rn_updated_at := now\<rparr>"
  let ?e = "update_runs (\<lambda>r. rn_id r = i \<and> rn_status r = RunRunning) ?f d"
  have "db_evolves token d ?e"
    by (rule db_evolves_quiet [OF assms]) (auto intro!: rs_end)
  then show ?thesis
  proof (rule db_evolves_more)
    show "run_rows (thread_ended d now i completed) = run_rows ?e" by (simp add: thread_ended_def Let_def)
    show "workspace_refs (thread_ended d now i completed) = workspace_refs ?e"
      by (simp add: thread_ended_def Let_def workspace_refs_def update_workspace_state_def comp_def
          if_distrib [of ws_id] if_distrib [of ws_run_id] update_runs_def cong: if_cong)
    show "task_ids (thread_ended d now i completed) = task_ids ?e"
      by (simp add: thread_ended_def Let_def task_ids_def update_workspace_state_def comp_def
          if_distrib [of tk_id] update_runs_def cong: if_cong)
  qed
qed

lemma fail_lease_evolves:
  assumes "one_active_per_task (run_rows d)"
  shows "db_evolves token d (fail_lease w d now l code)"
  unfolding fail_lease_def
proof (rule db_evolves_quiet [OF assms], goal_cases)
  case (1 r)
  then have st: "rn_status r \<in> {RunProvisioning, RunCancelling}" by simp
  show ?case using rs_fail [OF st] by simp
qed

lemma start_run_evolves:
  assumes "one_active_per_task (run_rows d)" "start_run w d now e l thread = (n, d')"
    "\<And>r. r \<in> set (run_rows d) \<Longrightarrow> holds_lease w l r \<Longrightarrow> rn_workspace_id r \<noteq> None"
  shows "db_evolves token d d'"
proof -
  let ?P = "\<lambda>r. holds_lease w l r \<and> rn_status r = RunProvisioning"
  let ?f = "\<lambda>r. r\<lparr>rn_status := RunRunning, rn_thread_id := Some thread, rn_heartbeat_at := Some now,
    rn_lease_expires_at := Some e, rn_updated_at := now\<rparr>"
  have "db_evolves token d (update_runs ?P ?f d)"
  proof (rule db_evolves_quiet [OF assms(1)], goal_cases)
    case (1 r)
    then show ?case using rs_start [of r] assms(3) by simp
  qed
  then show ?thesis
  proof (rule db_evolves_more)
    show "run_rows d' = run_rows (update_runs ?P ?f d)" using assms(2) by (auto simp: start_run_def Let_def)
    show "workspace_refs d' = workspace_refs (update_runs ?P ?f d)"
      using assms(2) by (auto simp: start_run_def Let_def workspace_refs_def update_workspace_state_def update_runs_def)
    show "task_ids d' = task_ids (update_runs ?P ?f d)"
      using assms(2) by (auto simp: start_run_def Let_def task_ids_def update_workspace_state_def update_runs_def)
  qed
qed

lemma uncertainty_evolves:
  assumes "one_active_per_task (run_rows d)" "record_delivery_uncertainty d now l ws thread = (res, d')"
  shows "db_evolves token d d'"
proof (cases "d' = d")
  case True
  then show ?thesis using assms(1) by (simp add: db_evolves_same)
next
  case False
  let ?P = "\<lambda>r. rn_id r = l_run_id l \<and> rn_workspace_id r = Some ws"
  let ?f = "\<lambda>r. r\<lparr>rn_thread_id := (case rn_thread_id r of None \<Rightarrow> Some thread | Some t \<Rightarrow> Some t),
     rn_status := (if rn_status r = RunCancelled then RunCancelled else RunRecoveryPending),
     rn_failure_code := (if rn_status r = RunCancelled then rn_failure_code r else Some ''thread_delivery_unknown''),
     rn_lease_owner := None, rn_lease_token := None, rn_lease_expires_at := None, rn_updated_at := now\<rparr>"
  have d': "run_rows d' = run_rows (update_runs ?P ?f d)" "workspace_refs d' = workspace_refs d" "task_ids d' = task_ids d"
    and one: "one_active_per_task (run_rows (update_runs ?P ?f d))"
    using assms(2) False by (auto simp: record_delivery_uncertainty_def Let_def split: if_splits)
  have "db_evolves token d (update_runs ?P ?f d)"
  proof (rule db_evolves_update [where i = 0, OF _ _ one], goal_cases)
    case (1 r)
    then show ?case using rs_uncertain [of r] by simp
  qed simp
  then show ?thesis by (rule db_evolves_more) (simp_all add: d')
qed

lemma exec_stage_evolves:
  assumes "exec_stage w now utc job_id oc l st (d, dk) = (st', d', dk')" "\<And>i co. st \<noteq> Checked i co"
    "one_active_per_task (run_rows d)" "\<And>r. r \<in> set (run_rows d) \<Longrightarrow> run_ok r"
    "\<And>i t r. st = Started i t \<Longrightarrow> r \<in> set (run_rows d) \<Longrightarrow> holds_lease w l r \<Longrightarrow> rn_workspace_id r \<noteq> None"
  shows "db_evolves token d d'"
proof (cases st)
  case Leased
  then have "d' = snd (heartbeat w d now utc l)"
    using assms(1) by (auto split: prod.splits sum.splits if_splits option.splits)
  then show ?thesis using heartbeat_evolves [OF assms(3,4)] by (metis prod.collapse)
next
  case (Provisioned i co)
  then have "d' = snd (heartbeat w d now utc l)"
    using assms(1) by (auto split: prod.splits sum.splits if_splits)
  then show ?thesis using heartbeat_evolves [OF assms(3,4)] by (metis prod.collapse)
next
  case (Recorded i co)
  then have "d' = d" using assms(1) by (auto split: option.splits if_splits)
  then show ?thesis using assms(3) by (simp add: db_evolves_same)
next
  case (CleanUp i)
  then show ?thesis using assms(1,3) by (auto simp: queue_cleanup_def intro!: db_evolves_same)
next
  case (Started i t)
  show ?thesis
  proof (cases "lease_until w utc")
    case (Inl e)
    with Started assms(1,3) show ?thesis by (auto intro!: db_evolves_same)
  next
    case (Inr e)
    then have "d' = snd (start_run w d now e l t)" using Started assms(1) by (auto split: prod.splits)
    then show ?thesis using start_run_evolves [OF assms(3) _ assms(5) [OF Started]] by (metis prod.collapse)
  qed
next
  case (Uncertain i t)
  then have "d' = snd (record_delivery_uncertainty d now l i t)" using assms(1) by (auto split: prod.splits sum.splits)
  then show ?thesis using uncertainty_evolves [OF assms(3)] by (metis prod.collapse)
next
  case (Failing e)
  then show ?thesis using assms(1,3) fail_lease_evolves by auto
next
  case (Finished r)
  then show ?thesis using assms(1,3) by (auto intro!: db_evolves_same)
qed (use assms(2) in simp)

lemma cleanup_evolves:
  assumes "one_active_per_task (run_rows d)"
  shows "cleanup_claim w d now tok locked = (res, d') \<Longrightarrow> db_evolves token d d'"
    "db_evolves token d (cleanup_failed d now i tok)" "db_evolves token d (cleanup_done d now i ws tok)"
proof -
  show "cleanup_claim w d now tok locked = (res, d') \<Longrightarrow> db_evolves token d d'"
    using assms by (auto simp: cleanup_claim_def intro!: db_evolves_same split: option.splits)
  show "db_evolves token d (cleanup_failed d now i tok)"
    using assms by (simp add: cleanup_failed_def db_evolves_same)
  show "db_evolves token d (cleanup_done d now i ws tok)"
    using assms
    by (intro db_evolves_same) (auto simp: cleanup_done_def workspace_refs_def task_ids_def update_jobs_def)
qed

end
