(* ===== verification/Run_Invariant.thy ===== *)
theory Run_Invariant
  imports Run_Lifecycle
begin

text \<open>
  The invariant of the run orchestrator under every interleaving, crashes of workers included.
\<close>

section \<open>The invariant\<close>

definition runs_ok :: "run list \<Rightarrow> bool" where
  "runs_ok rs \<longleftrightarrow>
     list_all run_ok rs \<and> distinct (map rn_id rs) \<and> one_active_per_task rs
     \<and> (\<forall>r \<in> set rs. \<forall>r' \<in> set rs. idempotency_slot r \<noteq> None \<longrightarrow> idempotency_slot r = idempotency_slot r' \<longrightarrow> rn_id r = rn_id r')"

definition run_refs :: "platform \<Rightarrow> (uuid \<times> uuid option) list" where
  "run_refs d = map (\<lambda>r. (rn_id r, rn_workspace_id r)) (run_rows d)"

definition run_tasks :: "platform \<Rightarrow> uuid list" where
  "run_tasks d = map (rq_task_id \<circ> rn_request) (run_rows d)"

text \<open>A run and its workspace point at each other, and the task of a run exists.\<close>

definition refs_ok :: "platform \<Rightarrow> bool" where
  "refs_ok d \<longleftrightarrow>
     distinct (map fst (workspace_refs d))
     \<and> (\<forall>(r, w) \<in> set (run_refs d). case w of None \<Rightarrow> True | Some i \<Rightarrow> (i, Some r) \<in> set (workspace_refs d))
     \<and> (\<forall>(i, r) \<in> set (workspace_refs d). case r of None \<Rightarrow> True | Some j \<Rightarrow> (j, Some i) \<in> set (run_refs d))
     \<and> distinct (task_ids d) \<and> set (run_tasks d) \<subseteq> set (task_ids d)"

definition tokens_ok :: "run list \<Rightarrow> string list \<Rightarrow> bool" where
  "tokens_ok rs drawn \<longleftrightarrow>
     (\<forall>r \<in> set rs. case rn_lease_token r of None \<Rightarrow> True | Some t \<Rightarrow> t \<in> set drawn)
     \<and> (\<forall>r \<in> set rs. \<forall>r' \<in> set rs. rn_lease_token r \<noteq> None \<longrightarrow> rn_lease_token r = rn_lease_token r' \<longrightarrow> rn_id r = rn_id r')"

fun new_workspace :: "stage \<Rightarrow> uuid option" where
  "new_workspace (Provisioned i co) = Some i"
| "new_workspace (Checked i co) = Some i"
| "new_workspace _ = None"

fun own_workspace :: "stage \<Rightarrow> uuid option" where
  "own_workspace (Recorded i co) = Some i"
| "own_workspace (Started i t) = Some i"
| "own_workspace (Uncertain i t) = Some i"
| "own_workspace (CleanUp i) = Some i"
| "own_workspace _ = None"

fun before_record :: "stage \<Rightarrow> bool" where
  "before_record Leased = True"
| "before_record (Provisioned i co) = True"
| "before_record (Checked i co) = True"
| "before_record _ = False"

definition exec_ok :: "platform \<Rightarrow> string list \<Rightarrow> orchestrator \<times> run_lease \<times> stage \<Rightarrow> bool" where
  "exec_ok d drawn = (\<lambda>(w, l, st).
     l_token l \<in> set drawn \<and>
     list_ex (\<lambda>r. rn_id r = l_run_id l \<and> rn_request r = l_request l \<and> rn_status r \<noteq> RunPending
       \<and> (before_record st \<longrightarrow> rn_workspace_id r = None)
       \<and> (case own_workspace st of None \<Rightarrow> True | Some i \<Rightarrow> rn_workspace_id r = Some i)) (run_rows d))"

definition new_workspaces :: "(orchestrator \<times> run_lease \<times> stage) list \<Rightarrow> uuid list" where
  "new_workspaces xs = List.map_filter (\<lambda>(w, l, st). new_workspace st) xs"

lemma new_workspaces_simps [simp]:
  "new_workspaces [] = []"
  "new_workspaces ((w, l, st) # xs) = (case new_workspace st of None \<Rightarrow> [] | Some i \<Rightarrow> [i]) @ new_workspaces xs"
  "new_workspaces (xs @ ys) = new_workspaces xs @ new_workspaces ys"
  by (simp_all add: new_workspaces_def List.map_filter_def split: option.split)

definition orch_inv :: "orch_sys \<Rightarrow> bool" where
  "orch_inv s \<longleftrightarrow>
     runs_ok (run_rows (odb s)) \<and> refs_ok (odb s) \<and> tokens_ok (run_rows (odb s)) (drawn_tokens s)
     \<and> rn_id ` set (run_rows (odb s)) \<subseteq> set (drawn_ids s)
     \<and> fst ` set (workspace_refs (odb s)) \<subseteq> set (drawn_ids s)
     \<and> distinct (map (\<lambda>(w, l, st). l_run_id l) (executions s))
     \<and> list_all (exec_ok (odb s) (drawn_tokens s)) (executions s)
     \<and> distinct (new_workspaces (executions s))
     \<and> set (new_workspaces (executions s)) \<subseteq> set (drawn_ids s) - fst ` set (workspace_refs (odb s))"

section \<open>Steps that keep the references\<close>

lemma idempotency_slot_request: "rn_request r' = rn_request r \<Longrightarrow> idempotency_slot r' = idempotency_slot r"
  by (simp add: idempotency_slot_def split: option.split)

lemma runs_evolveE:
  assumes "runs_evolve token rs rs'"
  obtains f i where "rs' = map f rs" "\<And>r. r \<in> set rs \<Longrightarrow> run_step token r (f r)"
    "\<And>r. r \<in> set rs \<Longrightarrow> rn_id (f r) = rn_id r \<and> rn_request (f r) = rn_request r"
    "\<And>r. r \<in> set rs \<Longrightarrow> rn_lease_token (f r) = Some token \<Longrightarrow> rn_id r = i \<or> rn_lease_token r = Some token"
  using assms run_step_fixed(1,2) unfolding runs_evolve_def by (metis (no_types, lifting))

lemma runs_ok_evolve:
  assumes "runs_evolve token rs rs'" "one_active_per_task rs'" "runs_ok rs"
  shows "runs_ok rs'"
proof -
  obtain f i where f: "rs' = map f rs" "\<And>r. r \<in> set rs \<Longrightarrow> run_step token r (f r)"
    "\<And>r. r \<in> set rs \<Longrightarrow> rn_id (f r) = rn_id r \<and> rn_request (f r) = rn_request r"
    using runs_evolveE [OF assms(1)] by metis
  have "list_all run_ok rs'"
    using f(2) run_step_ok assms(3) by (force simp: f(1) runs_ok_def list_all_iff)
  moreover have "map rn_id rs' = map rn_id rs" using f by simp
  then have "distinct (map rn_id rs')" using assms(3) by (simp add: runs_ok_def)
  moreover have "rn_id r = rn_id r'"
    if r: "r \<in> set rs'" "r' \<in> set rs'" "idempotency_slot r \<noteq> None" "idempotency_slot r = idempotency_slot r'" for r r'
  proof -
    obtain x x' where x: "x \<in> set rs" "r = f x" "x' \<in> set rs" "r' = f x'" using r(1,2) f(1) by auto
    then have "idempotency_slot r = idempotency_slot x" "idempotency_slot r' = idempotency_slot x'"
      using f(3) idempotency_slot_request by metis+
    then have "rn_id x = rn_id x'" using x r(3,4) assms(3) unfolding runs_ok_def by metis
    then show ?thesis using x f(3) by simp
  qed
  ultimately show ?thesis using assms(2) unfolding runs_ok_def by blast
qed

lemma db_evolves_refs:
  assumes "db_evolves token d d'"
  shows "run_refs d' = run_refs d" "run_tasks d' = run_tasks d" "workspace_refs d' = workspace_refs d"
    "task_ids d' = task_ids d" "map rn_id (run_rows d') = map rn_id (run_rows d)"
proof -
  obtain f where f: "run_rows d' = map f (run_rows d)"
    "\<And>r. r \<in> set (run_rows d) \<Longrightarrow> rn_id (f r) = rn_id r \<and> rn_request (f r) = rn_request r"
    using assms runs_evolveE unfolding db_evolves_def by metis
  have "\<And>r. r \<in> set (run_rows d) \<Longrightarrow> rn_workspace_id (f r) = rn_workspace_id r"
    using assms f(1) by (simp add: db_evolves_def)
  with f show "run_refs d' = run_refs d" "run_tasks d' = run_tasks d" "map rn_id (run_rows d') = map rn_id (run_rows d)"
    by (simp_all add: run_refs_def run_tasks_def)
  show "workspace_refs d' = workspace_refs d" "task_ids d' = task_ids d"
    using assms by (simp_all add: db_evolves_def)
qed

lemma refs_ok_evolve:
  assumes "db_evolves token d d'" "refs_ok d"
  shows "refs_ok d'"
  using assms(2) unfolding refs_ok_def db_evolves_refs [OF assms(1)] .

lemma tokens_ok_evolve:
  assumes "runs_evolve token rs rs'" "tokens_ok rs drawn" "token \<notin> set drawn"
  shows "tokens_ok rs' (token # drawn)"
proof -
  obtain f i where f: "rs' = map f rs" "\<And>r. r \<in> set rs \<Longrightarrow> run_step token r (f r)"
    "\<And>r. r \<in> set rs \<Longrightarrow> rn_id (f r) = rn_id r \<and> rn_request (f r) = rn_request r"
    "\<And>r. r \<in> set rs \<Longrightarrow> rn_lease_token (f r) = Some token \<Longrightarrow> rn_id r = i \<or> rn_lease_token r = Some token"
    using runs_evolveE [OF assms(1)] by metis
  have old: "t \<in> set drawn" if "r \<in> set rs" "rn_lease_token r = Some t" for r t
    using assms(2) that by (auto simp: tokens_ok_def split: option.splits)
  have new: "t = token \<or> rn_lease_token x = Some t" if "x \<in> set rs" "rn_lease_token (f x) = Some t" for x t
    using run_step_token f(2) that by blast
  have "rn_id r = rn_id r'"
    if r: "r \<in> set rs'" "r' \<in> set rs'" "rn_lease_token r = Some t" "rn_lease_token r' = Some t" for r r' t
  proof -
    obtain x x' where x: "x \<in> set rs" "r = f x" "x' \<in> set rs" "r' = f x'" using r(1,2) f(1) by auto
    show ?thesis
    proof (cases "t = token")
      case True
      then have "rn_id x = i" "rn_id x' = i" using x r f(4) old assms(3) by blast+
      then show ?thesis using x f(3) by simp
    next
      case False
      then have "rn_lease_token x = Some t" "rn_lease_token x' = Some t" using x r new by blast+
      then have "rn_id x = rn_id x'" using x assms(2) unfolding tokens_ok_def by (metis option.distinct(1))
      then show ?thesis using x f(3) by simp
    qed
  qed
  moreover have "t \<in> set (token # drawn)" if "r \<in> set rs'" "rn_lease_token r = Some t" for r t
    using that f(1) new old by fastforce
  ultimately show ?thesis
    unfolding tokens_ok_def by (metis (no_types, lifting) option.exhaust option.simps(4,5))
qed

text \<open>A step that draws no token keeps to every token.\<close>

lemma tokens_ok_quiet:
  assumes "\<And>token. runs_evolve token rs rs'" "tokens_ok rs drawn"
  shows "tokens_ok rs' drawn"
proof -
  obtain t1 :: string where t1: "t1 \<notin> set drawn" using ex_new_if_finite [OF infinite_UNIV_listI] by blast
  obtain t2 :: string where t2: "t2 \<notin> set (t1 # drawn)" using ex_new_if_finite [OF infinite_UNIV_listI] by blast
  have "tokens_ok rs' (t1 # drawn)" "tokens_ok rs' (t2 # drawn)"
    using tokens_ok_evolve [OF assms(1) assms(2)] t1 t2 by auto
  then show ?thesis
    using t2 unfolding tokens_ok_def by (fastforce split: option.splits)
qed

lemma exec_ok_evolve:
  assumes "db_evolves token d d'" "exec_ok d drawn x" "set drawn \<subseteq> set drawn'"
  shows "exec_ok d' drawn' x"
proof -
  obtain w l st where x: "x = (w, l, st)" by (cases x)
  obtain r where r: "r \<in> set (run_rows d)" "rn_id r = l_run_id l" "rn_request r = l_request l" "rn_status r \<noteq> RunPending"
    "before_record st \<longrightarrow> rn_workspace_id r = None"
    "case own_workspace st of None \<Rightarrow> True | Some i \<Rightarrow> rn_workspace_id r = Some i"
    using assms(2) by (auto simp: exec_ok_def x list_ex_iff)
  obtain f i where f: "run_rows d' = map f (run_rows d)" "\<And>r. r \<in> set (run_rows d) \<Longrightarrow> run_step token r (f r)"
    using assms(1) runs_evolveE unfolding db_evolves_def by metis
  have "rn_workspace_id (f r) = rn_workspace_id r" using assms(1) f(1) r(1) by (simp add: db_evolves_def)
  with r(6) have "case own_workspace st of None \<Rightarrow> True | Some i \<Rightarrow> rn_workspace_id (f r) = Some i"
    "before_record st \<longrightarrow> rn_workspace_id (f r) = None"
    using r(5) by (cases "own_workspace st"; simp)+
  moreover have "f r \<in> set (run_rows d')" "rn_id (f r) = l_run_id l" "rn_request (f r) = l_request l"
    "rn_status (f r) \<noteq> RunPending"
    using r(1-4) f(1) run_step_fixed [OF f(2) [OF r(1)]] by simp_all
  moreover have "l_token l \<in> set drawn'" using assms(2,3) by (auto simp: exec_ok_def x)
  ultimately show ?thesis unfolding exec_ok_def x list_ex_iff prod.case by blast
qed

section \<open>Preservation\<close>

lemma inv_one_active: "orch_inv s \<Longrightarrow> one_active_per_task (run_rows (odb s))"
  by (simp add: orch_inv_def runs_ok_def)

lemma inv_run_ok: "orch_inv s \<Longrightarrow> r \<in> set (run_rows (odb s)) \<Longrightarrow> run_ok r"
  by (simp add: orch_inv_def runs_ok_def list_all_iff)

lemma inv_distinct: "orch_inv s \<Longrightarrow> distinct (map rn_id (run_rows (odb s)))"
  by (simp add: orch_inv_def runs_ok_def)

lemma inv_evolve:
  assumes "orch_inv s" "db_evolves token (odb s) d'" "tokens_ok (run_rows d') toks"
    "set (drawn_tokens s) \<subseteq> set toks" "set (drawn_ids s) \<subseteq> set ids"
    "odb s' = d'" "executions s' = executions s" "drawn_tokens s' = toks" "drawn_ids s' = ids"
  shows "orch_inv s'"
proof -
  have ev: "runs_evolve token (run_rows (odb s)) (run_rows d')" "one_active_per_task (run_rows d')"
    using assms(2) by (simp_all add: db_evolves_def)
  have "list_all (exec_ok d' toks) (executions s)"
    using assms(1) exec_ok_evolve [OF assms(2) _ assms(4)] by (auto simp: orch_inv_def list_all_iff)
  moreover have "runs_ok (run_rows d')" using runs_ok_evolve [OF ev] assms(1) by (simp add: orch_inv_def)
  moreover have "refs_ok d'" using refs_ok_evolve [OF assms(2)] assms(1) by (simp add: orch_inv_def)
  moreover have "rn_id ` set (run_rows d') = rn_id ` set (run_rows (odb s))"
    using db_evolves_refs(5) [OF assms(2)] by (metis set_map)
  moreover have "workspace_refs d' = workspace_refs (odb s)" by (rule db_evolves_refs(3) [OF assms(2)])
  ultimately show ?thesis
    using assms(1,3,5-9) unfolding orch_inv_def by auto
qed

lemma inv_quiet:
  assumes "orch_inv s" "\<And>token. db_evolves token (odb s) d'" "set (drawn_tokens s) \<subseteq> set toks" "set (drawn_ids s) \<subseteq> set ids"
    "odb s' = d'" "executions s' = executions s" "drawn_tokens s' = toks" "drawn_ids s' = ids"
  shows "orch_inv s'"
proof (rule inv_evolve [OF assms(1) assms(2) _ assms(3-8)])
  have "tokens_ok (run_rows d') (drawn_tokens s)"
    using tokens_ok_quiet assms(1,2) by (auto simp: orch_inv_def db_evolves_def)
  then show "tokens_ok (run_rows d') toks" using assms(3) by (fastforce simp: tokens_ok_def split: option.splits)
qed

lemma inv_draw:
  assumes "orch_inv s" "db_evolves token (odb s) d'" "token \<notin> set (drawn_tokens s)"
    "odb s' = d'" "executions s' = executions s" "drawn_tokens s' = token # drawn_tokens s" "drawn_ids s' = drawn_ids s"
  shows "orch_inv s'"
proof (rule inv_evolve [OF assms(1,2) _ _ _ assms(4-7)])
  have "runs_evolve token (run_rows (odb s)) (run_rows d')" "tokens_ok (run_rows (odb s)) (drawn_tokens s)"
    using assms(1,2) by (simp_all add: orch_inv_def db_evolves_def)
  then show "tokens_ok (run_rows d') (token # drawn_tokens s)" by (rule tokens_ok_evolve [OF _ _ assms(3)])
qed auto

text \<open>An execution moves to a stage that the tables admit.\<close>

lemma inv_stage:
  assumes "orch_inv s" "executions s = xs @ (w, l, st) # ys" "exec_ok (odb s) (drawn_tokens s) (w, l, st')"
    "case new_workspace st' of None \<Rightarrow> True
     | Some i \<Rightarrow> new_workspace st = Some i \<or>
         i \<in> set (drawn_ids s) \<and> i \<notin> fst ` set (workspace_refs (odb s)) \<and> i \<notin> set (new_workspaces (executions s))"
  shows "orch_inv (s\<lparr>executions := xs @ (w, l, st') # ys\<rparr>)"
proof -
  have "distinct (new_workspaces (xs @ (w, l, st') # ys)) \<and>
      set (new_workspaces (xs @ (w, l, st') # ys)) \<subseteq> set (drawn_ids s) - fst ` set (workspace_refs (odb s))"
    using assms(1,2,4)
    by (cases "new_workspace st'"; cases "new_workspace st")
      (auto simp: orch_inv_def)
  then show ?thesis using assms(1,2,3) by (simp add: orch_inv_def)
qed

lemma inv_crash:
  assumes "orch_inv s" "executions s = xs @ e # ys"
  shows "orch_inv (s\<lparr>executions := xs @ ys\<rparr>)"
proof -
  obtain w l st where e: "e = (w, l, st)" by (cases e)
  have "distinct (new_workspaces (xs @ ys)) \<and>
      set (new_workspaces (xs @ ys)) \<subseteq> set (drawn_ids s) - fst ` set (workspace_refs (odb s))"
    using assms
    by (cases "new_workspace st") (auto simp: e orch_inv_def)
  then show ?thesis using assms by (simp add: orch_inv_def e)
qed

end
