(* ===== verification/Run_Reachable.thy ===== *)
theory Run_Reachable
  imports Run_Invariant
begin

text \<open>
  Every step of the orchestrator keeps the invariant of \<open>Run_Invariant\<close>, so it holds in every state that
  an empty platform reaches.
\<close>

lemma orch_invI:
  assumes "runs_ok (run_rows d)" "refs_ok d" "tokens_ok (run_rows d) toks"
    "rn_id ` set (run_rows d) \<subseteq> set ids" "fst ` set (workspace_refs d) \<subseteq> set ids"
    "distinct (map (\<lambda>(w, l, st). l_run_id l) xs)" "list_all (exec_ok d toks) xs" "distinct (new_workspaces xs)"
    "set (new_workspaces xs) \<subseteq> set ids - fst ` set (workspace_refs d)"
    "odb s = d" "executions s = xs" "drawn_tokens s = toks" "drawn_ids s = ids"
  shows "orch_inv s"
  using assms by (simp add: orch_inv_def)

lemma orch_inv_cong:
  "orch_inv s \<Longrightarrow> odb s' = odb s \<Longrightarrow> executions s' = executions s \<Longrightarrow> drawn_tokens s' = drawn_tokens s \<Longrightarrow>
   drawn_ids s' = drawn_ids s \<Longrightarrow> orch_inv s'"
  by (simp add: orch_inv_def)

lemma orch_invD:
  assumes "orch_inv s"
  shows "runs_ok (run_rows (odb s))" "refs_ok (odb s)" "tokens_ok (run_rows (odb s)) (drawn_tokens s)"
    "rn_id ` set (run_rows (odb s)) \<subseteq> set (drawn_ids s)"
    "fst ` set (workspace_refs (odb s)) \<subseteq> set (drawn_ids s)"
    "distinct (map (\<lambda>(w, l, st). l_run_id l) (executions s))"
    "list_all (exec_ok (odb s) (drawn_tokens s)) (executions s)"
    "distinct (new_workspaces (executions s))"
    "set (new_workspaces (executions s)) \<subseteq> set (drawn_ids s) - fst ` set (workspace_refs (odb s))"
  using assms by (simp_all add: orch_inv_def)

section \<open>New runs\<close>

lemma enqueue_context_task: "enqueue_context w d req = Some c \<Longrightarrow> er_task_id req \<in> set (task_ids d)"
  unfolding enqueue_context_def task_ids_def set_map by (drule find_SomeD) (auto split: if_splits intro: image_eqI [OF sym])

lemma check_enqueue_task: "check_enqueue w d req = Ok c \<Longrightarrow> er_task_id req \<in> set (task_ids d)"
  unfolding check_enqueue_def by (auto simp: bindR_eq_Inr Let_def dest!: enqueue_context_task split: if_splits)

lemma new_run_fields [simp]:
  "rn_id (new_run i now req pid ref) = i" "rn_status (new_run i now req pid ref) = RunPending"
  "rn_workspace_id (new_run i now req pid ref) = None" "rn_lease_token (new_run i now req pid ref) = None"
  "rq_task_id (rn_request (new_run i now req pid ref)) = er_task_id req"
  "idempotency_slot (new_run i now req pid ref) = Some (er_organization_id req, er_actor_id req, er_idempotency_key req)"
  by (simp_all add: new_run_def idempotency_slot_def)

lemma enqueue_runD:
  assumes "enqueue_run w d now new_id req = (res, d')"
  obtains (same) "d' = d" "\<And>r. res = Ok r \<Longrightarrow> r \<in> set (run_rows d) \<and> rq_task_id (rn_request r) = er_task_id req
      \<and> idempotency_slot r = Some (er_organization_id req, er_actor_id req, er_idempotency_key req)"
  | (inserted) r pid ref where "res = Ok r" "r = new_run new_id now req pid ref" "d' = d\<lparr>run_rows := run_rows d @ [r]\<rparr>"
      "one_active_per_task (run_rows d @ [r])" "\<And>x. x \<in> set (run_rows d) \<Longrightarrow> idempotency_slot x \<noteq> idempotency_slot r"
      "er_task_id req \<in> set (task_ids d)"
proof -
  consider e where "res = Err e" "d' = d"
    | pid ref where "insert_run d req (new_run new_id now req pid ref) = (res, d')" "er_task_id req \<in> set (task_ids d)"
    using assms check_enqueue_task by (auto simp: enqueue_run_def split: sum.splits)
  then show thesis
  proof cases
    case 1
    then show thesis by (intro same) auto
  next
    case 2
    let ?r = "new_run new_id now req pid ref"
    show thesis
    proof (cases "find (\<lambda>x. idempotency_slot x = idempotency_slot ?r) (run_rows d)")
      case None
      then have fresh: "\<And>x. x \<in> set (run_rows d) \<Longrightarrow> idempotency_slot x \<noteq> idempotency_slot ?r" by (simp add: find_None_iff)
      show thesis
      proof (cases "one_active_per_task (run_rows d @ [?r])")
        case True
        with 2 None show thesis
          by (intro inserted [OF _ refl _ True fresh]) (auto simp: insert_run_def)
      next
        case False
        with 2(1) None show thesis by (intro same) (auto simp: insert_run_def)
      qed
    next
      case (Some x)
      then have "x \<in> set (run_rows d)" "idempotency_slot x = idempotency_slot ?r" by (auto dest: find_SomeD)
      with 2(1) Some show thesis by (intro same) (auto simp: insert_run_def split: if_splits)
    qed
  qed
qed

lemma new_run_ok: "run_ok (new_run i now req pid ref)"
  by (simp add: run_ok_def new_run_def unleased_def)

lemma exec_ok_more: "exec_ok d drawn x \<Longrightarrow> exec_ok (d\<lparr>run_rows := run_rows d @ rs\<rparr>) drawn x"
  by (auto simp: exec_ok_def)

lemma runs_ok_snoc:
  assumes "runs_ok rs" "run_ok r" "rn_id r \<notin> rn_id ` set rs" "one_active_per_task (rs @ [r])"
    "\<And>x. x \<in> set rs \<Longrightarrow> idempotency_slot x \<noteq> idempotency_slot r"
  shows "runs_ok (rs @ [r])"
proof -
  have "\<forall>x \<in> set (rs @ [r]). \<forall>y \<in> set (rs @ [r]). idempotency_slot x \<noteq> None \<longrightarrow> idempotency_slot x = idempotency_slot y \<longrightarrow> rn_id x = rn_id y"
    using assms(1,5) unfolding runs_ok_def set_append by (metis (no_types, lifting) UnE empty_iff empty_set set_ConsD)
  then show ?thesis using assms(1-4) unfolding runs_ok_def by simp
qed

lemma refs_ok_snoc:
  assumes "refs_ok d" "rn_workspace_id r = None" "rq_task_id (rn_request r) \<in> set (task_ids d)"
  shows "refs_ok (d\<lparr>run_rows := run_rows d @ [r]\<rparr>)"
proof -
  let ?d = "d\<lparr>run_rows := run_rows d @ [r]\<rparr>"
  have eqs: "run_refs ?d = run_refs d @ [(rn_id r, None)]" "workspace_refs ?d = workspace_refs d"
    "task_ids ?d = task_ids d" "run_tasks ?d = run_tasks d @ [rq_task_id (rn_request r)]"
    using assms(2) by (simp_all add: run_refs_def workspace_refs_def task_ids_def run_tasks_def)
  show ?thesis using assms(1,3) unfolding refs_ok_def eqs by simp
qed

lemma tokens_ok_snoc:
  assumes "tokens_ok rs drawn" "rn_lease_token r = None"
  shows "tokens_ok (rs @ [r]) drawn"
proof -
  have "rn_id x = rn_id y"
    if "x \<in> set (rs @ [r])" "y \<in> set (rs @ [r])" "rn_lease_token x = Some t" "rn_lease_token y = Some t" for x y t
  proof -
    have "x \<in> set rs" "y \<in> set rs" using that assms(2) by (auto split: if_splits)
    then show ?thesis using that(3,4) assms(1) unfolding tokens_ok_def by (metis option.distinct(1))
  qed
  moreover have "case rn_lease_token x of None \<Rightarrow> True | Some t \<Rightarrow> t \<in> set drawn" if "x \<in> set (rs @ [r])" for x
    using that assms unfolding tokens_ok_def by auto
  ultimately show ?thesis unfolding tokens_ok_def by (metis option.exhaust)
qed

lemma inv_enqueue:
  assumes "orch_inv s" "new_id \<notin> set (drawn_ids s)" "enqueue_run w (odb s) now new_id req = (res, d')"
  shows "orch_inv (s\<lparr>odb := d', drawn_ids := new_id # drawn_ids s\<rparr>)"
  using assms(3)
proof (cases rule: enqueue_runD)
  case same
  have "\<And>token. db_evolves token (odb s) d'" by (simp add: same(1) db_evolves_same inv_one_active [OF assms(1)])
  then show ?thesis by (rule inv_quiet [OF assms(1)]) auto
next
  case (inserted r pid ref)
  note inv = orch_invD [OF assms(1)]
  have new: "rn_id r \<notin> rn_id ` set (run_rows (odb s))" using inv(4) assms(2) by (auto simp: inserted(2))
  have refs: "workspace_refs d' = workspace_refs (odb s)" by (simp add: inserted(3) workspace_refs_def)
  show ?thesis
  proof (rule orch_invI [where d = d' and xs = "executions s" and toks = "drawn_tokens s" and ids = "new_id # drawn_ids s"])
    show "runs_ok (run_rows d')"
      using runs_ok_snoc [OF inv(1) _ new inserted(4,5)] new_run_ok by (simp add: inserted(2,3))
    show "refs_ok d'"
      unfolding inserted(3) by (rule refs_ok_snoc [OF inv(2)]) (use inserted(6) in \<open>simp_all add: inserted(2)\<close>)
    have "rn_lease_token r = None" by (simp add: inserted(2))
    then show "tokens_ok (run_rows d') (drawn_tokens s)" using inv(3) by (simp add: inserted(3) tokens_ok_snoc)
    show "rn_id ` set (run_rows d') \<subseteq> set (new_id # drawn_ids s)" using inv(4) by (auto simp: inserted(2,3))
    show "list_all (exec_ok d' (drawn_tokens s)) (executions s)"
      using inv(7) exec_ok_more unfolding inserted(3) list_all_iff by blast
    show "fst ` set (workspace_refs d') \<subseteq> set (new_id # drawn_ids s)" using inv(5) by (auto simp: refs)
    show "set (new_workspaces (executions s)) \<subseteq> set (new_id # drawn_ids s) - fst ` set (workspace_refs d')"
      using inv(9) by (auto simp: refs)
  qed (use inv(6,8) in simp_all)
qed

section \<open>Claims\<close>

definition exec_run_ids :: "(orchestrator \<times> run_lease \<times> stage) list \<Rightarrow> uuid set" where
  "exec_run_ids xs = (\<lambda>(w, l, st). l_run_id l) ` set xs"

lemma exec_okD:
  assumes "exec_ok d toks (w, l, st)"
  obtains r where "r \<in> set (run_rows d)" "rn_id r = l_run_id l" "rn_request r = l_request l" "rn_status r \<noteq> RunPending"
    "before_record st \<Longrightarrow> rn_workspace_id r = None" "\<And>i. own_workspace st = Some i \<Longrightarrow> rn_workspace_id r = Some i"
    "l_token l \<in> set toks"
proof -
  from assms obtain r where "r \<in> set (run_rows d)" "rn_id r = l_run_id l" "rn_request r = l_request l" "rn_status r \<noteq> RunPending"
    "before_record st \<longrightarrow> rn_workspace_id r = None" "case own_workspace st of None \<Rightarrow> True | Some i \<Rightarrow> rn_workspace_id r = Some i"
    "l_token l \<in> set toks"
    unfolding exec_ok_def list_ex_iff prod.case by blast
  then show thesis by (intro that) auto
qed

lemma exec_okI:
  assumes "r \<in> set (run_rows d)" "rn_id r = l_run_id l" "rn_request r = l_request l" "rn_status r \<noteq> RunPending"
    "before_record st \<Longrightarrow> rn_workspace_id r = None" "\<And>i. own_workspace st = Some i \<Longrightarrow> rn_workspace_id r = Some i"
    "l_token l \<in> set toks"
  shows "exec_ok d toks (w, l, st)"
  unfolding exec_ok_def list_ex_iff prod.case using assms by (intro conjI bexI [of _ r]) (auto split: option.split)

lemma inv_pending_idle:
  assumes "orch_inv s" "r \<in> set (run_rows (odb s))" "rn_status r = RunPending"
  shows "rn_id r \<notin> exec_run_ids (executions s)"
proof
  assume "rn_id r \<in> exec_run_ids (executions s)"
  then obtain w l st where e: "(w, l, st) \<in> set (executions s)" "l_run_id l = rn_id r" by (auto simp: exec_run_ids_def)
  then have "exec_ok (odb s) (drawn_tokens s) (w, l, st)" using orch_invD(7) [OF assms(1)] unfolding list_all_iff by blast
  then obtain x where "x \<in> set (run_rows (odb s))" "rn_id x = l_run_id l" "rn_status x \<noteq> RunPending" by (rule exec_okD)
  then show False using same_id_eq [OF inv_distinct [OF assms(1)] _ assms(2)] e(2) assms(3) by metis
qed

lemma inv_push:
  assumes "orch_inv s" "exec_ok (odb s) (drawn_tokens s) (w, l, Leased)" "l_run_id l \<notin> exec_run_ids (executions s)"
  shows "orch_inv (s\<lparr>executions := (w, l, Leased) # executions s\<rparr>)"
proof -
  note inv = orch_invD [OF assms(1)]
  show ?thesis
    by (rule orch_invI [OF inv(1-5)]) (use inv(6-9) assms(2,3) in \<open>simp_all add: exec_run_ids_def\<close>)
qed

lemma inv_claim:
  assumes "orch_inv s" "token \<notin> set (drawn_tokens s)" "claim_next w (odb s) now utc token locked = (res, d')"
  shows "orch_inv (s\<lparr>odb := d', drawn_tokens := token # drawn_tokens s,
       executions := (case res of Inr (Some l) \<Rightarrow> (w, l, Leased) # executions s | _ \<Rightarrow> executions s)\<rparr>)"
proof -
  let ?s = "s\<lparr>odb := d', drawn_tokens := token # drawn_tokens s\<rparr>"
  have inv: "orch_inv ?s"
    by (rule inv_draw [OF assms(1) claim_evolves [OF inv_one_active [OF assms(1)] assms(3) inv_distinct [OF assms(1)]] assms(2)]) simp_all
  show ?thesis
    using assms(3)
  proof (cases rule: claim_nextD)
    case idle
    then have "(case res of Inr (Some l) \<Rightarrow> (w, l, Leased) # executions s | _ \<Rightarrow> executions s) = executions s"
      by (auto split: sum.split option.split)
    then show ?thesis using inv by simp
  next
    case (claimed r t pj p l e)
    have "rn_workspace_id r = None" using inv_run_ok [OF assms(1) claimed(8)] claimed(9) by (simp add: run_ok_def)
    moreover have "claimed w now e token r \<in> set (run_rows d')"
      using claimed(8) by (force simp: claimed(12) run_rows_update)
    ultimately have "exec_ok (odb ?s) (drawn_tokens ?s) (w, l, Leased)"
      by (intro exec_okI [of "claimed w now e token r"]) (simp_all add: claimed_def claimed(4-6))
    then have "orch_inv (?s\<lparr>executions := (w, l, Leased) # executions ?s\<rparr>)"
      by (rule inv_push [OF inv]) (use inv_pending_idle [OF assms(1) claimed(8,9)] in \<open>simp add: claimed(4)\<close>)
    then show ?thesis by (simp add: claimed(1))
  qed
qed

section \<open>The stages of an execution\<close>

lemma exec_ok_stage:
  assumes "exec_ok d toks (w, l, st)" "before_record st' \<Longrightarrow> before_record st" "own_workspace st' \<in> {None, own_workspace st}"
  shows "exec_ok d toks (w, l, st')"
proof -
  obtain r where r: "r \<in> set (run_rows d)" "rn_id r = l_run_id l" "rn_request r = l_request l" "rn_status r \<noteq> RunPending"
    "before_record st \<Longrightarrow> rn_workspace_id r = None" "\<And>i. own_workspace st = Some i \<Longrightarrow> rn_workspace_id r = Some i"
    "l_token l \<in> set toks"
    using assms(1) by (rule exec_okD) blast
  have own: "rn_workspace_id r = Some i" if "own_workspace st' = Some i" for i
    using that assms(3) by (intro r(6)) simp
  show ?thesis by (rule exec_okI [OF r(1-4) _ own r(7)]) (use r(5) assms(2) in simp_all)
qed

text \<open>A stage before the row of the workspace is written leads to another, and only the first one draws an id.\<close>

lemma exec_stage_next:
  assumes "exec_stage w now utc job_id oc l st (d, dk) = (st', d', dk')" "\<And>i co. st \<noteq> Checked i co"
  shows "before_record st' \<Longrightarrow> before_record st" "own_workspace st' \<in> {None, own_workspace st}"
    "new_workspace st' \<in> {None, new_workspace st, Some (oc_workspace_id oc)}"
  using assms by (cases st; auto split: prod.splits sum.splits if_splits option.splits)+

lemma inv_exec_row:
  assumes "orch_inv s" "executions s = xs @ (w, l, st) # ys" "r \<in> set (run_rows (odb s))" "rn_id r = l_run_id l"
  shows "before_record st \<Longrightarrow> rn_workspace_id r = None" "own_workspace st = Some i \<Longrightarrow> rn_workspace_id r = Some i"
    "rn_status r \<noteq> RunPending"
proof -
  have "exec_ok (odb s) (drawn_tokens s) (w, l, st)" using orch_invD(7) [OF assms(1)] assms(2) by simp
  then obtain x where x: "x \<in> set (run_rows (odb s))" "rn_id x = l_run_id l" "rn_status x \<noteq> RunPending"
    "before_record st \<Longrightarrow> rn_workspace_id x = None" "\<And>i. own_workspace st = Some i \<Longrightarrow> rn_workspace_id x = Some i"
    by (rule exec_okD) blast
  have "x = r" using same_id_eq [OF inv_distinct [OF assms(1)] x(1) assms(3)] x(2) assms(4) by simp
  then show "before_record st \<Longrightarrow> rn_workspace_id r = None" "own_workspace st = Some i \<Longrightarrow> rn_workspace_id r = Some i"
    "rn_status r \<noteq> RunPending"
    using x by auto
qed

lemma inv_exec_other:
  assumes "orch_inv s" "executions s = xs @ (w, l, st) # ys" "oc_workspace_id oc \<notin> set (drawn_ids s)"
    "exec_stage w now utc job_id oc l st (odb s, dk) = (st', d', dk')" "\<And>i co. st \<noteq> Checked i co"
  shows "orch_inv (s\<lparr>odb := d', disk := dk', executions := xs @ (w, l, st') # ys,
       drawn_ids := oc_workspace_id oc # job_id # drawn_ids s\<rparr>)"
proof -
  let ?s = "s\<lparr>odb := d', disk := dk', drawn_ids := oc_workspace_id oc # job_id # drawn_ids s\<rparr>"
  have ev: "\<And>token. db_evolves token (odb s) d'"
  proof (rule exec_stage_evolves [OF assms(4,5) inv_one_active [OF assms(1)] inv_run_ok [OF assms(1)]])
    fix i t r assume "st = Started i t" "r \<in> set (run_rows (odb s))" "holds_lease w l r"
    then show "rn_workspace_id r \<noteq> None" using inv_exec_row(2) [OF assms(1,2), of r i] by (simp add: holds_lease_def)
  qed
  have inv: "orch_inv ?s" by (rule inv_quiet [OF assms(1) ev]) auto
  have ok: "exec_ok d' (drawn_tokens s) (w, l, st')"
  proof (rule exec_ok_stage)
    show "exec_ok d' (drawn_tokens s) (w, l, st)" using orch_invD(7) [OF inv] assms(2) by simp
  qed (use exec_stage_next [OF assms(4,5)] in auto)
  have fresh: "oc_workspace_id oc \<notin> fst ` set (workspace_refs d')" "oc_workspace_id oc \<notin> set (new_workspaces (executions s))"
    using orch_invD(5,9) [OF assms(1)] assms(3) db_evolves_refs(3) [OF ev] by auto
  have "orch_inv (?s\<lparr>executions := xs @ (w, l, st') # ys\<rparr>)"
  proof (rule inv_stage [OF inv])
    show "case new_workspace st' of None \<Rightarrow> True
     | Some i \<Rightarrow> new_workspace st = Some i \<or>
         i \<in> set (drawn_ids ?s) \<and> i \<notin> fst ` set (workspace_refs (odb ?s)) \<and> i \<notin> set (new_workspaces (executions ?s))"
      using exec_stage_next(3) [OF assms(4,5)] fresh by (cases "new_workspace st'") auto
  qed (use ok assms(2) in simp_all)
  then show ?thesis by (rule orch_inv_cong) simp_all
qed

text \<open>The row of the workspace and the reference to it are written in one transaction.\<close>

lemma refs_ok_attach:
  assumes "refs_ok d" "distinct (map fst (run_refs d))" "(rid, None) \<in> set (run_refs d)" "i \<notin> fst ` set (workspace_refs d)"
    and rr: "run_refs d' = map (\<lambda>(r, w). if r = rid then (r, Some i) else (r, w)) (run_refs d)"
    and wr: "workspace_refs d' = workspace_refs d @ [(i, Some rid)]"
    and tasks: "task_ids d' = task_ids d" "run_tasks d' = run_tasks d"
  shows "refs_ok d'"
proof -
  have only: "w = None" if "(rid, w) \<in> set (run_refs d)" for w
    using assms(2,3) that eq_key_imp_eq_value by fastforce
  have "(j, Some r) \<in> set (workspace_refs d')" if "(r, Some j) \<in> set (run_refs d')" for r j
    using that assms(1) by (auto simp: rr wr refs_ok_def split: if_splits)
  moreover have "(r, Some j) \<in> set (run_refs d')" if "(j, Some r) \<in> set (workspace_refs d')" for r j
  proof (cases "(j, Some r) \<in> set (workspace_refs d)")
    case True
    then have "(r, Some j) \<in> set (run_refs d)" using assms(1) by (auto simp: refs_ok_def)
    moreover from this have "r \<noteq> rid" using only by blast
    ultimately show ?thesis by (force simp: rr)
  next
    case False
    with that have "j = i" "r = rid" by (auto simp: wr)
    then show ?thesis using assms(3) by (force simp: rr)
  qed
  moreover have "distinct (map fst (workspace_refs d'))" using assms(1,4) by (auto simp: wr refs_ok_def)
  ultimately show ?thesis
    using assms(1) unfolding refs_ok_def tasks by (auto split: option.split)
qed

definition attach :: "uuid \<Rightarrow> uuid \<Rightarrow> timestamp \<Rightarrow> run \<Rightarrow> run" where
  "attach rid i now r = (if rn_id r = rid then r\<lparr>rn_workspace_id := Some i, rn_updated_at := now\<rparr> else r)"

lemma attach_fields [simp]:
  "rn_id (attach rid i now r) = rn_id r" "rn_request (attach rid i now r) = rn_request r"
  "rn_status (attach rid i now r) = rn_status r" "rn_lease_token (attach rid i now r) = rn_lease_token r"
  "rn_workspace_id (attach rid i now r) = (if rn_id r = rid then Some i else rn_workspace_id r)"
  by (simp_all add: attach_def)

lemma record_insertD:
  assumes "record_insert d now l i co = (res, d')"
  obtains (refused) e where "res = Err e" "d' = d"
  | (recorded) "res = Ok ()" "run_rows d' = map (attach (l_run_id l) i now) (run_rows d)"
      "run_refs d' = map (\<lambda>(r, w). if r = l_run_id l then (r, Some i) else (r, w)) (run_refs d)"
      "workspace_refs d' = workspace_refs d @ [(i, Some (l_run_id l))]" "task_ids d' = task_ids d" "run_tasks d' = run_tasks d"
proof (cases "list_ex (\<lambda>w. ws_run_id w = Some (l_run_id l)) (workspace_rows d)")
  case True
  then show thesis using assms by (intro refused [of RunDatabase]) (simp_all add: record_insert_def)
next
  case False
  then have r: "res = Ok ()" "run_rows d' = map (attach (l_run_id l) i now) (run_rows d)"
      "workspace_refs d' = workspace_refs d @ [(i, Some (l_run_id l))]" "task_ids d' = task_ids d"
    using assms by (auto simp: record_insert_def Let_def update_runs_def attach_def workspace_refs_def task_ids_def)
  show thesis
    by (rule recorded [OF r(1,2) _ r(3,4)]) (simp_all add: run_refs_def run_tasks_def r(2))
qed

lemma attach_evolves:
  assumes "orch_inv s" "executions s = xs @ (w, l, st) # ys" "before_record st"
  shows "runs_evolve token (run_rows (odb s)) (map (attach (l_run_id l) i now) (run_rows (odb s)))"
    "one_active_per_task (map (attach (l_run_id l) i now) (run_rows (odb s)))"
proof -
  have "run_step token r (attach (l_run_id l) i now r)" if "r \<in> set (run_rows (odb s))" for r
    using inv_exec_row [OF assms(1,2) that] assms(3) by (auto simp: attach_def intro: rs_workspace)
  then show "runs_evolve token (run_rows (odb s)) (map (attach (l_run_id l) i now) (run_rows (odb s)))"
    unfolding runs_evolve_def by (intro exI [of _ "attach (l_run_id l) i now"]) simp
  show "one_active_per_task (map (attach (l_run_id l) i now) (run_rows (odb s)))"
    by (rule one_active_shrink [OF _ inv_one_active [OF assms(1)]]) simp
qed

lemma exec_ok_attach:
  assumes "exec_ok d toks (w, l, st)" "run_rows d' = map (attach rid i now) (run_rows d)"
    "l_run_id l = rid \<Longrightarrow> \<not> before_record st \<and> own_workspace st \<in> {None, Some i}"
  shows "exec_ok d' toks (w, l, st)"
proof -
  obtain r where r: "r \<in> set (run_rows d)" "rn_id r = l_run_id l" "rn_request r = l_request l" "rn_status r \<noteq> RunPending"
    "before_record st \<Longrightarrow> rn_workspace_id r = None" "\<And>i. own_workspace st = Some i \<Longrightarrow> rn_workspace_id r = Some i"
    "l_token l \<in> set toks"
    using assms(1) by (rule exec_okD) blast
  show ?thesis
    by (rule exec_okI [of "attach rid i now r"]) (use r assms(2,3) in auto)
qed

lemma inv_record:
  assumes "orch_inv s" "executions s = xs @ (w, l, Checked i co) # ys" "record_insert (odb s) now l i co = (Ok u, d')"
    "set (drawn_ids s) \<subseteq> set ids"
  shows "orch_inv (s\<lparr>odb := d', disk := dk, executions := xs @ (w, l, Recorded i co) # ys, drawn_ids := ids\<rparr>)"
  using assms(3)
proof (cases rule: record_insertD)
  case recorded
  note inv = orch_invD [OF assms(1)]
  note rows = recorded(2) and refs = recorded(4)
  have ev: "\<And>token. runs_evolve token (run_rows (odb s)) (run_rows d')" "one_active_per_task (run_rows d')"
    unfolding rows by (rule attach_evolves [OF assms(1,2)], simp)+
  obtain r where r: "r \<in> set (run_rows (odb s))" "rn_id r = l_run_id l" "rn_request r = l_request l"
      "rn_status r \<noteq> RunPending" "rn_workspace_id r = None" "l_token l \<in> set (drawn_tokens s)"
    using inv(7) assms(2) by (auto elim!: exec_okD)
  have i: "i \<in> set (drawn_ids s)" "i \<notin> fst ` set (workspace_refs (odb s))"
      "i \<notin> set (new_workspaces xs)" "i \<notin> set (new_workspaces ys)"
    using inv(8,9) assms(2) by auto
  have other: "exec_ok d' (drawn_tokens s) e" if "e \<in> set xs \<union> set ys" for e
  proof -
    obtain w' l' st' where e: "e = (w', l', st')" by (cases e)
    have "exec_ok (odb s) (drawn_tokens s) e" using inv(7) assms(2) that by (auto simp: list_all_iff)
    moreover have "l_run_id l' \<noteq> l_run_id l" using inv(6) assms(2) that by (force simp: e)
    ultimately show ?thesis unfolding e by (intro exec_ok_attach [OF _ rows]) auto
  qed
  have own: "exec_ok d' (drawn_tokens s) (w, l, Recorded i co)"
    by (rule exec_okI [of "attach (l_run_id l) i now r"]) (use r rows in auto)
  have ids: "map fst (run_refs (odb s)) = map rn_id (run_rows (odb s))" by (simp add: run_refs_def)
  show ?thesis
  proof (rule orch_invI [where d = d' and xs = "xs @ (w, l, Recorded i co) # ys" and toks = "drawn_tokens s" and ids = ids])
    show "runs_ok (run_rows d')" by (rule runs_ok_evolve [OF ev inv(1)])
    show "refs_ok d'"
      by (rule refs_ok_attach [OF inv(2) _ _ i(2) recorded(3-6)])
        (use r inv_distinct [OF assms(1)] in \<open>auto simp: ids, force simp: run_refs_def\<close>)
    show "tokens_ok (run_rows d') (drawn_tokens s)" by (rule tokens_ok_quiet [OF ev(1) inv(3)])
    show "rn_id ` set (run_rows d') \<subseteq> set ids" using inv(4) assms(4) by (fastforce simp: rows)
    show "fst ` set (workspace_refs d') \<subseteq> set ids" using inv(5) i(1) assms(4) by (auto simp: refs)
    show "list_all (exec_ok d' (drawn_tokens s)) (xs @ (w, l, Recorded i co) # ys)"
      using own other by (auto simp: list_all_iff)
    show "set (new_workspaces (xs @ (w, l, Recorded i co) # ys)) \<subseteq> set ids - fst ` set (workspace_refs d')"
      using inv(9) assms(2,4) i(3,4) by (auto simp: refs)
  qed (use inv(6,8) assms(2) in simp_all)
qed simp

lemma inv_execute:
  assumes "orch_inv s" "executions s = xs @ (w, l, st) # ys" "oc_workspace_id oc \<notin> set (drawn_ids s)"
    "exec_stage w now utc job_id oc l st (odb s, disk s) = (st', d', dk')"
  shows "orch_inv (s\<lparr>odb := d', disk := dk', executions := xs @ (w, l, st') # ys,
       drawn_ids := oc_workspace_id oc # job_id # drawn_ids s\<rparr>)"
proof (cases "\<exists>i co. st = Checked i co")
  case False
  then show ?thesis using inv_exec_other [OF assms] by blast
next
  case True
  then obtain i co where st: "st = Checked i co" by blast
  obtain res e where rec: "record_insert (odb s) now l i co = (res, e)" by (cases "record_insert (odb s) now l i co")
  show ?thesis
  proof (cases res)
    case (Inr u)
    with assms(4) rec st have "st' = Recorded i co" "d' = e" by auto
    then show ?thesis
      using inv_record [OF assms(1) assms(2) [unfolded st] rec [unfolded Inr], of "oc_workspace_id oc # job_id # drawn_ids s"]
      by (simp add: subset_insertI2 subset_insertI)
  next
    case (Inl err)
    then have "e = odb s" using rec by (auto elim: record_insertD)
    then have d': "d' = odb s" "new_workspace st' = None" "before_record st' = False" "own_workspace st' = None"
      using assms(4) rec st Inl by (auto split: if_splits)
    let ?s = "s\<lparr>disk := dk', drawn_ids := oc_workspace_id oc # job_id # drawn_ids s\<rparr>"
    have inv: "orch_inv ?s"
      by (rule inv_quiet [OF assms(1) db_evolves_same [OF inv_one_active [OF assms(1)] refl refl refl]]) auto
    have "orch_inv (?s\<lparr>executions := xs @ (w, l, st') # ys\<rparr>)"
    proof (rule inv_stage [OF inv])
      show "exec_ok (odb ?s) (drawn_tokens ?s) (w, l, st')"
        by (rule exec_ok_stage [where st = st]) (use d' orch_invD(7) [OF assms(1)] assms(2) in auto)
    qed (use assms(2) d' in simp_all)
    then show ?thesis by (rule orch_inv_cong) (simp_all add: d')
  qed
qed

section \<open>Every step\<close>

lemma inv_others:
  assumes "orch_inv s" "distinct (map tk_id ts)" "tk_id ` set (task_rows (odb s)) \<subseteq> tk_id ` set ts"
  shows "orch_inv (s\<lparr>odb := (odb s)\<lparr>task_rows := ts, project_rows := ps, profile_rows := pf\<rparr>\<rparr>)"
proof -
  let ?d = "(odb s)\<lparr>task_rows := ts, project_rows := ps, profile_rows := pf\<rparr>"
  note inv = orch_invD [OF assms(1)]
  have eqs: "run_refs ?d = run_refs (odb s)" "workspace_refs ?d = workspace_refs (odb s)" "run_tasks ?d = run_tasks (odb s)"
    "exec_ok ?d = exec_ok (odb s)" "task_ids ?d = map tk_id ts"
    by (simp_all add: run_refs_def workspace_refs_def run_tasks_def exec_ok_def [abs_def] task_ids_def)
  have "set (run_tasks (odb s)) \<subseteq> tk_id ` set ts" using inv(2) assms(3) by (auto simp: refs_ok_def task_ids_def)
  then have "refs_ok ?d" using inv(2) assms(2) unfolding refs_ok_def eqs by simp
  then show ?thesis
    by (intro orch_invI [where d = ?d, OF _ _ _ _ _ inv(6) _ inv(8)]) (use inv in \<open>simp_all add: eqs\<close>)
qed

lemma orch_step_inv:
  assumes "orch_step s t" "orch_inv s"
  shows "orch_inv t"
proof -
  note one = inv_one_active [OF assms(2)] and ok = inv_run_ok [OF assms(2)] and dist = inv_distinct [OF assms(2)]
  note quiet = inv_quiet [OF assms(2), where toks = "drawn_tokens s" and ids = "drawn_ids s"]
  show ?thesis
    using assms(1)
  proof cases
    case os_enqueue
    then show ?thesis using inv_enqueue [OF assms(2)] by blast
  next
    case (os_cancel now req res d')
    show ?thesis unfolding os_cancel(1) by (rule quiet [OF cancel_tx_evolves [OF one os_cancel(2)]]) auto
  next
    case (os_interrupted i)
    then show ?thesis using assms(2) by (auto intro: orch_inv_cong)
  next
    case (os_interrupt_failed i now res d')
    show ?thesis unfolding os_interrupt_failed(1) by (rule quiet [OF interrupt_failed_evolves [OF one os_interrupt_failed(3)]]) auto
  next
    case (os_retire new_id now req ws res d')
    show ?thesis unfolding os_retire(1) by (rule inv_quiet [OF assms(2) retire_tx_evolves [OF one os_retire(3)]]) auto
  next
    case (os_recover token w now utc req res d')
    show ?thesis unfolding os_recover(1)
      by (rule inv_draw [OF assms(2) recover_evolves [OF one os_recover(3) ok dist] os_recover(2)]) auto
  next
    case os_claim
    then show ?thesis using inv_claim [OF assms(2)] by blast
  next
    case os_execute
    then show ?thesis using inv_execute [OF assms(2)] by blast
  next
    case os_crash
    then show ?thesis using inv_crash [OF assms(2)] by blast
  next
    case (os_heartbeat_owned w now utc res d')
    show ?thesis unfolding os_heartbeat_owned(1) by (rule quiet [OF heartbeat_owned_evolves [OF one ok os_heartbeat_owned(2)]]) auto
  next
    case (os_reap job_id now n d')
    show ?thesis unfolding os_reap(1) by (rule inv_quiet [OF assms(2) reap_evolves [OF one os_reap(4)]]) auto
  next
    case (os_cleanup_claim token w now locked res d')
    show ?thesis unfolding os_cleanup_claim(1) by (rule inv_quiet [OF assms(2) cleanup_evolves(1) [OF one os_cleanup_claim(3)]]) auto
  next
    case (os_cleanup_failed i ws token now)
    show ?thesis unfolding os_cleanup_failed(1) by (rule quiet [OF cleanup_evolves(2) [OF one]]) auto
  next
    case (os_cleanup_done i ws token now)
    show ?thesis unfolding os_cleanup_done(1) by (rule quiet [OF cleanup_evolves(3) [OF one]]) auto
  next
    case (os_turn_started now i turn)
    show ?thesis unfolding os_turn_started by (rule quiet [OF turn_events_evolve(1) [OF one]]) auto
  next
    case (os_turn_completed now i turn)
    show ?thesis unfolding os_turn_completed by (rule quiet [OF turn_events_evolve(2) [OF one]]) auto
  next
    case (os_thread_ended now i completed)
    show ?thesis unfolding os_thread_ended by (rule quiet [OF thread_ended_evolves [OF one]]) auto
  next
    case os_others
    then show ?thesis using inv_others [OF assms(2)] by blast
  qed
qed

lemma orch_reach_inv: "orch_step\<^sup>*\<^sup>* s t \<Longrightarrow> orch_inv s \<Longrightarrow> orch_inv t"
  by (induction rule: rtranclp_induct) (auto intro: orch_step_inv)

end
