(* ===== verification/Run_Properties.thy ===== *)
theory Run_Properties
  imports Run_Reachable
begin

text \<open>
  The properties of the run orchestrator: the consistency of its tables, the life of a run, what a worker
  that lost its lease can still do, and what each operation achieves.
\<close>

section \<open>What a step does to the rows\<close>

text \<open>Every row makes a step of its life, with a token never drawn before, and new rows are pending.\<close>

definition rows_step :: "string list \<Rightarrow> run list \<Rightarrow> run list \<Rightarrow> bool" where
  "rows_step drawn rs rs' \<longleftrightarrow>
     (\<exists>token f new. token \<notin> set drawn \<and> rs' = map f rs @ new \<and> (\<forall>r \<in> set rs. run_step token r (f r))
        \<and> list_all (\<lambda>r. rn_status r = RunPending \<and> rn_lease_token r = None) new)"

lemma rows_step_evolve:
  assumes "db_evolves token d d'" "token \<notin> set drawn"
  shows "rows_step drawn (run_rows d) (run_rows d')"
proof -
  obtain f where "run_rows d' = map f (run_rows d)" "\<forall>r \<in> set (run_rows d). run_step token r (f r)"
    using assms(1) unfolding db_evolves_def runs_evolve_def by blast
  then show ?thesis unfolding rows_step_def using assms(2) by (intro exI [of _ token] exI [of _ f] exI [of _ "[]"]) simp
qed

lemma fresh_token: "\<exists>token. token \<notin> set (drawn :: string list)"
  using ex_new_if_finite [OF infinite_UNIV_listI] by blast

lemma rows_step_quiet:
  assumes "\<And>token. db_evolves token d d'"
  shows "rows_step drawn (run_rows d) (run_rows d')"
  using fresh_token rows_step_evolve [OF assms] by blast

lemma rows_step_same: "rows_step drawn rs rs"
proof -
  obtain token where "token \<notin> set drawn" using fresh_token by blast
  then show ?thesis
    unfolding rows_step_def by (intro exI [of _ token] exI [of _ id] exI [of _ "[]"]) auto
qed

lemma rows_step_enqueue:
  assumes "enqueue_run w d now new_id req = (res, d')"
  shows "rows_step drawn (run_rows d) (run_rows d')"
  using assms
proof (cases rule: enqueue_runD)
  case same
  then show ?thesis by (simp add: rows_step_same)
next
  case (inserted r pid ref)
  obtain token where "token \<notin> set drawn" using fresh_token by blast
  then show ?thesis
    unfolding rows_step_def inserted(2,3)
    by (intro exI [of _ token] exI [of _ id] exI [of _ "[new_run new_id now req pid ref]"]) auto
qed

lemma rows_step_execute:
  assumes "orch_inv s" "executions s = xs @ (w, l, st) # ys"
    "exec_stage w now utc job_id oc l st (odb s, dk) = (st', d', dk')"
  shows "rows_step drawn (run_rows (odb s)) (run_rows d')"
proof (cases "\<exists>i co. st = Checked i co")
  case False
  have "db_evolves token (odb s) d'" for token
  proof (rule exec_stage_evolves [OF assms(3) _ inv_one_active [OF assms(1)] inv_run_ok [OF assms(1)]])
    fix i t r assume "st = Started i t" "r \<in> set (run_rows (odb s))" "holds_lease w l r"
    then show "rn_workspace_id r \<noteq> None" using inv_exec_row(2) [OF assms(1,2), of r i] by (simp add: holds_lease_def)
  qed (use False in auto)
  then show ?thesis by (rule rows_step_quiet)
next
  case True
  then obtain i co where st: "st = Checked i co" by blast
  obtain res e where rec: "record_insert (odb s) now l i co = (res, e)" by (cases "record_insert (odb s) now l i co")
  then have "d' = e" using assms(3) st by (auto split: sum.splits if_splits)
  from rec show ?thesis
  proof (cases rule: record_insertD)
    case refused
    then show ?thesis using \<open>d' = e\<close> by (simp add: rows_step_same)
  next
    case recorded
    obtain token where "token \<notin> set drawn" using fresh_token by blast
    moreover have "run_step token r (attach (l_run_id l) i now r)" if "r \<in> set (run_rows (odb s))" for r
      using inv_exec_row [OF assms(1,2) that] st by (auto simp: attach_def intro: rs_workspace)
    ultimately show ?thesis
      unfolding rows_step_def \<open>d' = e\<close> recorded(2)
      by (intro exI [of _ token] exI [of _ "attach (l_run_id l) i now"] exI [of _ "[]"]) simp
  qed
qed

lemma orch_step_rows:
  assumes "orch_step s t" "orch_inv s"
  shows "rows_step (drawn_tokens s) (run_rows (odb s)) (run_rows (odb t))"
proof -
  note one = inv_one_active [OF assms(2)] and ok = inv_run_ok [OF assms(2)] and dist = inv_distinct [OF assms(2)]
  show ?thesis
    using assms(1)
  proof cases
    case os_enqueue
    then show ?thesis by (simp add: rows_step_enqueue)
  next
    case os_cancel
    then show ?thesis by (simp add: rows_step_quiet [OF cancel_tx_evolves [OF one]])
  next
    case os_interrupt_failed
    then show ?thesis by (simp add: rows_step_quiet [OF interrupt_failed_evolves [OF one]])
  next
    case os_retire
    then show ?thesis by (simp add: rows_step_quiet [OF retire_tx_evolves [OF one]])
  next
    case (os_recover token w now utc req res d')
    then show ?thesis by (simp add: rows_step_evolve [OF recover_evolves [OF one os_recover(3) ok dist]])
  next
    case (os_claim token w now utc locked res d')
    then show ?thesis by (simp add: rows_step_evolve [OF claim_evolves [OF one os_claim(3) dist]])
  next
    case (os_execute xs w l st ys oc job_id now utc st' d' dk')
    then show ?thesis by (simp add: rows_step_execute [OF assms(2) os_execute(2)])
  next
    case os_heartbeat_owned
    then show ?thesis by (simp add: rows_step_quiet [OF heartbeat_owned_evolves [OF one ok]])
  next
    case os_reap
    then show ?thesis by (simp add: rows_step_quiet [OF reap_evolves [OF one]])
  next
    case os_cleanup_claim
    then show ?thesis by (simp add: rows_step_quiet [OF cleanup_evolves(1) [OF one]])
  qed (simp_all add: rows_step_same rows_step_quiet cleanup_evolves(2,3) [OF one] turn_events_evolve [OF one] thread_ended_evolves [OF one])
qed

section \<open>The life of a run\<close>

lemma filter_key_single:
  "distinct (map key xs) \<Longrightarrow> x \<in> set xs \<Longrightarrow> filter (\<lambda>y. key y = key x) xs = [x]"
  by (induction xs) (auto simp: filter_empty_conv, metis image_eqI)

definition life_step :: "run \<Rightarrow> run \<Rightarrow> bool" where
  "life_step r r' \<longleftrightarrow> (\<exists>token. run_step token r r')"

lemma rows_step_life:
  assumes "rows_step drawn rs rs'" "r \<in> set rs"
  obtains r' where "r' \<in> set rs'" "life_step r r'" "rn_id r' = rn_id r"
  using assms unfolding rows_step_def life_step_def by (fastforce dest: run_step_fixed(1))

lemma orch_reach_life:
  assumes "orch_step\<^sup>*\<^sup>* s t" "orch_inv s" "r \<in> set (run_rows (odb s))"
  shows "\<exists>r' \<in> set (run_rows (odb t)). rn_id r' = rn_id r \<and> life_step\<^sup>*\<^sup>* r r'"
  using assms(1)
proof (induction rule: rtranclp_induct)
  case base
  then show ?case using assms(3) by blast
next
  case (step t u)
  obtain r' where r': "r' \<in> set (run_rows (odb t))" "rn_id r' = rn_id r" "life_step\<^sup>*\<^sup>* r r'" using step.IH by blast
  have "rows_step (drawn_tokens t) (run_rows (odb t)) (run_rows (odb u))"
    using orch_step_rows [OF step.hyps(2) orch_reach_inv [OF step.hyps(1) assms(2)]] .
  then obtain x where "x \<in> set (run_rows (odb u))" "life_step r' x" "rn_id x = rn_id r'"
    using r'(1) by (rule rows_step_life)
  then show ?case using r' by (metis rtranclp.rtrancl_into_rtrancl)
qed

lemma life_step_thread:
  assumes "life_step r r'" "run_ok r" "rn_thread_id r = Some t"
  shows "rn_thread_id r' = Some t"
proof -
  obtain token where "run_step token r r'" using assms(1) by (auto simp: life_step_def)
  then show ?thesis using assms(2,3) by cases (auto simp: cancelled_def run_ok_def)
qed

lemma life_fixed:
  assumes "life_step\<^sup>*\<^sup>* r r'" "run_ok r"
  shows "run_ok r' \<and> rn_request r' = rn_request r \<and> rn_attempt r \<le> rn_attempt r'
    \<and> (rn_workspace_id r = None \<or> rn_workspace_id r' = rn_workspace_id r)
    \<and> (rn_thread_id r = None \<or> rn_thread_id r' = rn_thread_id r)"
  using assms(1)
proof (induction rule: rtranclp_induct)
  case (step x y)
  obtain token where st: "run_step token x y" using step.hyps(2) by (auto simp: life_step_def)
  have "run_ok y" using run_step_ok [OF st] step.IH by blast
  moreover have "rn_thread_id x = None \<or> rn_thread_id y = rn_thread_id x"
    using life_step_thread [OF step.hyps(2)] step.IH by (cases "rn_thread_id x") auto
  ultimately show ?case using run_step_fixed(2-4) [OF st] step.IH by (metis order_trans)
qed (use assms(2) in auto)

definition empty_system :: "task list \<Rightarrow> project list \<Rightarrow> profile list \<Rightarrow> orch_sys" where
  "empty_system ts ps pf =
     \<lparr>odb = \<lparr>run_rows = [], workspace_rows = [], task_rows = ts, project_rows = ps, profile_rows = pf, job_rows = []\<rparr>,
      executions = [], cancels = [], removals = [], disk = {}, drawn_tokens = [], drawn_ids = []\<rparr>"

lemma empty_system_inv: "distinct (map tk_id ts) \<Longrightarrow> orch_inv (empty_system ts ps pf)"
  by (simp add: orch_inv_def empty_system_def runs_ok_def refs_ok_def tokens_ok_def one_active_per_task_def
      run_refs_def workspace_refs_def task_ids_def run_tasks_def)

text \<open>
  C1. Whatever the interleaving of API calls, workers, crashes and runtime events: run ids are unique, a task
  has at most one active run, an idempotency key belongs to one run, every row is well formed (it has a lease
  exactly while it is provisioning or running, a running run has a thread, a run is attempted at most once), runs and
  workspaces point at each other, and every lease token is on one row only.
\<close>

theorem run_table_invariant:
  assumes "distinct (map tk_id ts)" "orch_step\<^sup>*\<^sup>* (empty_system ts ps pf) s"
  shows "runs_ok (run_rows (odb s)) \<and> refs_ok (odb s) \<and> tokens_ok (run_rows (odb s)) (drawn_tokens s)"
  using orch_invD(1-3) [OF orch_reach_inv [OF assms(2) empty_system_inv [OF assms(1)]]] by blast


section \<open>Leases\<close>

definition off_row :: "run_lease \<Rightarrow> run list \<Rightarrow> bool" where
  "off_row l rs \<longleftrightarrow> list_all (\<lambda>r. rn_id r = l_run_id l \<longrightarrow> rn_lease_token r \<noteq> Some (l_token l)) rs"

lemma off_row_step:
  assumes "rows_step drawn rs rs'" "l_token l \<in> set drawn" "off_row l rs"
  shows "off_row l rs'"
proof -
  obtain token f new where f: "token \<notin> set drawn" "rs' = map f rs @ new" "\<forall>r \<in> set rs. run_step token r (f r)"
      "list_all (\<lambda>r. rn_status r = RunPending \<and> rn_lease_token r = None) new"
    using assms(1) unfolding rows_step_def by blast
  have "rn_lease_token (f r) \<noteq> Some (l_token l)" if "r \<in> set rs" "rn_id (f r) = l_run_id l" for r
    using run_step_token run_step_fixed(1) that f(1,3) assms(2,3) unfolding off_row_def list_all_iff by metis
  then show ?thesis using f(4) by (auto simp: off_row_def f(2) list_all_iff)
qed

lemma drawn_tokens_mono: "orch_step s t \<Longrightarrow> set (drawn_tokens s) \<subseteq> set (drawn_tokens t)"
  by (erule orch_stepE) auto

lemma off_row_reach:
  assumes "orch_step\<^sup>*\<^sup>* s t" "orch_inv s" "l_token l \<in> set (drawn_tokens s)" "off_row l (run_rows (odb s))"
  shows "l_token l \<in> set (drawn_tokens t) \<and> off_row l (run_rows (odb t))"
  using assms(1)
proof (induction rule: rtranclp_induct)
  case (step t u)
  then show ?case
    using off_row_step [OF orch_step_rows [OF step.hyps(2) orch_reach_inv [OF step.hyps(1) assms(2)]]]
      drawn_tokens_mono [OF step.hyps(2)] by blast
qed (use assms in auto)

lemma update_runs_none: "(\<And>r. r \<in> set (run_rows d) \<Longrightarrow> \<not> P r) \<Longrightarrow> update_runs P f d = d"
  by (simp add: update_runs_def map_idI)

lemma off_row_powerless:
  assumes "off_row l (run_rows d)"
  shows "heartbeat w d now utc l = (bindR (lease_until w utc) (\<lambda>_. Err LeaseLost), d)" "\<not> record_check w d l"
    "start_run w d now e l thread = (0, d)" "fail_lease w d now l code = d"
proof -
  have no: "\<not> holds_lease w l r" if "r \<in> set (run_rows d)" for r
    using assms that by (auto simp: off_row_def holds_lease_def list_all_iff)
  then have none: "filter (\<lambda>r. holds_lease w l r \<and> Q r) (run_rows d) = []" for Q by (auto simp: filter_empty_conv)
  have same: "update_runs (\<lambda>r. holds_lease w l r \<and> Q r) f d = d" for Q f using no by (intro update_runs_none) blast
  show "heartbeat w d now utc l = (bindR (lease_until w utc) (\<lambda>_. Err LeaseLost), d)"
    unfolding heartbeat_def Let_def none same by (simp split: sum.split)
  show "start_run w d now e l thread = (0, d)"
    unfolding start_run_def Let_def none same by (simp add: update_workspace_state_def map_filter_simps)
  show "fail_lease w d now l code = d" unfolding fail_lease_def same ..
  show "\<not> record_check w d l" using no by (auto simp: record_check_def list_ex_iff)
qed


lemma oldest_least:
  assumes "oldest key xs = Some x" "y \<in> set xs"
  shows "fst (key x) < fst (key y) \<or> fst (key x) = fst (key y) \<and> snd (key x) \<le> snd (key y)"
  using assms
proof (induction xs arbitrary: x)
  case (Cons a xs)
  show ?case
  proof (cases "oldest key xs")
    case None
    then have "xs = []" by (cases xs) (auto split: option.splits if_splits)
    with Cons.prems show ?thesis by simp
  next
    case (Some z)
    then show ?thesis using Cons.prems Cons.IH [OF Some] by (auto split: if_splits)
  qed
qed simp

lemma oldest_None: "oldest key xs = None \<longleftrightarrow> xs = []"
  by (cases xs) (auto split: option.split if_splits)


section \<open>Requests and expiry\<close>

lemma insert_run_again:
  assumes "runs_ok (run_rows d)" "x \<in> set (run_rows d)" "idempotency_slot x = idempotency_slot r" "idempotency_slot r \<noteq> None"
    "rq_task_id (rn_request x) = er_task_id req"
  shows "insert_run d req r = (Ok x, d)"
proof -
  obtain y where y: "find (\<lambda>z. idempotency_slot z = idempotency_slot r) (run_rows d) = Some y"
    using assms(2,3) by (cases "find (\<lambda>z. idempotency_slot z = idempotency_slot r) (run_rows d)") (auto simp: find_None_iff)
  then have "y \<in> set (run_rows d)" "idempotency_slot y = idempotency_slot r" by (auto dest: find_SomeD)
  then have "rn_id y = rn_id x" using assms(1-4) unfolding runs_ok_def by metis
  then have "y = x"
    using same_id_eq [OF _ \<open>y \<in> set (run_rows d)\<close> assms(2)] assms(1) by (simp add: runs_ok_def)
  then show ?thesis using y assms(5) by (simp add: insert_run_def)
qed

lemma enqueue_run_row:
  assumes "enqueue_run w d now new_id req = (Ok r, d')"
  shows "r \<in> set (run_rows d')" "rq_task_id (rn_request r) = er_task_id req"
    "idempotency_slot r = Some (er_organization_id req, er_actor_id req, er_idempotency_key req)"
proof -
  have "r \<in> set (run_rows d') \<and> rq_task_id (rn_request r) = er_task_id req
      \<and> idempotency_slot r = Some (er_organization_id req, er_actor_id req, er_idempotency_key req)"
    using assms
  proof (cases rule: enqueue_runD)
    case same
    then show ?thesis by simp
  next
    case (inserted x pid ref)
    then show ?thesis by simp
  qed
  then show "r \<in> set (run_rows d')" "rq_task_id (rn_request r) = er_task_id req"
    "idempotency_slot r = Some (er_organization_id req, er_actor_id req, er_idempotency_key req)"
    by blast+
qed

text \<open>
  C15. A request is carried out once. After \<open>enqueue_run\<close> has answered with a run, sending the same request again, at any later
  time, creates nothing; unless its checks refuse it by then, it answers with the same run.
\<close>

theorem enqueue_once:
  assumes "orch_inv s" "new_id \<notin> set (drawn_ids s)" "enqueue_run w (odb s) now new_id req = (Ok r, d')"
    "orch_step\<^sup>*\<^sup>* (s\<lparr>odb := d', drawn_ids := new_id # drawn_ids s\<rparr>) t"
    "enqueue_run w (odb t) now' new_id' req = (res, d'')"
  shows "d'' = odb t \<and> (case res of Inr r' \<Rightarrow> rn_id r' = rn_id r | Inl e \<Rightarrow> check_enqueue w (odb t) req = Err e)"
proof -
  let ?s = "s\<lparr>odb := d', drawn_ids := new_id # drawn_ids s\<rparr>"
  have inv: "orch_inv ?s" by (rule inv_enqueue [OF assms(1-3)])
  note r = enqueue_run_row [OF assms(3)]
  obtain x where x: "x \<in> set (run_rows (odb t))" "rn_id x = rn_id r" "life_step\<^sup>*\<^sup>* r x"
    using orch_reach_life [OF assms(4) inv] r(1) by auto
  have req: "rn_request x = rn_request r" using life_fixed [OF x(3)] inv_run_ok [OF inv] r(1) by simp
  have same: "idempotency_slot x = Some (er_organization_id req, er_actor_id req, er_idempotency_key req)"
      "rq_task_id (rn_request x) = er_task_id req"
    using r(2,3) idempotency_slot_request [OF req] req by simp_all
  have ok: "runs_ok (run_rows (odb t))" using orch_invD(1) [OF orch_reach_inv [OF assms(4) inv]] .
  show ?thesis
  proof (cases "check_enqueue w (odb t) req")
    case (Inl e)
    then show ?thesis using assms(5) by (auto simp: enqueue_run_def)
  next
    case (Inr c)
    obtain pid ref where c: "c = (pid, ref)" by (cases c)
    have "insert_run (odb t) req (new_run new_id' now' req pid ref) = (Ok x, odb t)"
      by (rule insert_run_again [OF ok x(1)]) (simp_all add: same)
    then show ?thesis using assms(5) x(2) by (auto simp: enqueue_run_def Inr c)
  qed
qed

definition abandoned :: "run \<Rightarrow> uuid option" where
  "abandoned r = (case rn_thread_id r of None \<Rightarrow> rn_workspace_id r | Some t \<Rightarrow> None)"

definition removal_due :: "timestamp \<Rightarrow> platform \<Rightarrow> uuid \<Rightarrow> bool" where
  "removal_due now d i = list_ex (\<lambda>j. jb_workspace_id j = i \<and> jb_state j = JobPending \<and> jb_run_after j \<le> now) (job_rows d)"

lemma reap_workspace_abandoned:
  "reap_workspace now job_id r d =
     (case abandoned r of None \<Rightarrow> d
      | Some i \<Rightarrow> upsert_job (\<lambda>j. j\<lparr>jb_state := JobPending, jb_run_after := now\<rparr>)
            (new_job (job_id i) now (rq_organization_id (rn_request r)) (rn_id r) i None)
            (update_workspace_state (\<lambda>x. ws_id x = i) WsCleanupPending d))"
  by (simp add: reap_workspace_def abandoned_def split: option.split)

lemma list_ex_map: "list_ex P (map f xs) = list_ex (\<lambda>x. P (f x)) xs"
  by (induction xs) auto

lemma removal_due_upsert:
  assumes "jb_workspace_id j = i" "jb_state j = JobPending" "jb_run_after j = now"
  shows "removal_due now (upsert_job (\<lambda>j. j\<lparr>jb_state := JobPending, jb_run_after := now\<rparr>) j d) k \<longleftrightarrow> k = i \<or> removal_due now d k"
proof (cases "list_ex (\<lambda>x. jb_workspace_id x = jb_workspace_id j) (job_rows d)")
  case True
  let ?due = "\<lambda>x. jb_workspace_id x = k \<and> jb_state x = JobPending \<and> jb_run_after x \<le> now"
  let ?g = "\<lambda>x. if jb_workspace_id x = jb_workspace_id j then x\<lparr>jb_state := JobPending, jb_run_after := now\<rparr> else x"
  have jobs: "job_rows (upsert_job (\<lambda>j. j\<lparr>jb_state := JobPending, jb_run_after := now\<rparr>) j d) = map ?g (job_rows d)"
    using True by (simp add: upsert_job_def)
  have "removal_due now (upsert_job (\<lambda>j. j\<lparr>jb_state := JobPending, jb_run_after := now\<rparr>) j d) k = list_ex (\<lambda>x. ?due (?g x)) (job_rows d)"
    unfolding removal_due_def jobs list_ex_map ..
  also have "\<dots> = list_ex (\<lambda>x. if jb_workspace_id x = i then k = i else ?due x) (job_rows d)"
    by (rule list_ex_cong) (auto simp: assms(1))
  also have "\<dots> \<longleftrightarrow> k = i \<or> removal_due now d k"
    using True assms(1) unfolding removal_due_def list_ex_iff by auto
  finally show ?thesis .
next
  case False
  then show ?thesis using assms by (simp add: removal_due_def upsert_job_def) blast
qed

lemma reap_workspace_effect:
  "workspace_rows (reap_workspace now job_id r d) =
      map (\<lambda>x. if Some (ws_id x) = abandoned r then x\<lparr>ws_state := WsCleanupPending\<rparr> else x) (workspace_rows d)"
  "removal_due now (reap_workspace now job_id r d) i \<longleftrightarrow> abandoned r = Some i \<or> removal_due now d i"
proof -
  have d: "removal_due now (update_workspace_state P st d) i = removal_due now d i" for P st
    by (simp add: removal_due_def update_workspace_state_def)
  show "workspace_rows (reap_workspace now job_id r d) =
      map (\<lambda>x. if Some (ws_id x) = abandoned r then x\<lparr>ws_state := WsCleanupPending\<rparr> else x) (workspace_rows d)"
    by (simp add: reap_workspace_abandoned upsert_job_def update_workspace_state_def split: option.split)
  show "removal_due now (reap_workspace now job_id r d) i \<longleftrightarrow> abandoned r = Some i \<or> removal_due now d i"
    by (cases "abandoned r") (auto simp: reap_workspace_abandoned removal_due_upsert new_job_def d)
qed

lemma reap_fold:
  "workspace_rows (fold (reap_workspace now job_id) rs d) =
     map (\<lambda>x. if Some (ws_id x) \<in> abandoned ` set rs then x\<lparr>ws_state := WsCleanupPending\<rparr> else x) (workspace_rows d)"
  "removal_due now (fold (reap_workspace now job_id) rs d) i \<longleftrightarrow> Some i \<in> abandoned ` set rs \<or> removal_due now d i"
  by (induction rs arbitrary: d) (auto simp: reap_workspace_effect)

definition overdue :: "timestamp \<Rightarrow> run \<Rightarrow> bool" where
  "overdue now r \<longleftrightarrow>
     rn_status r \<in> {RunProvisioning, RunRunning} \<and> (case rn_lease_expires_at r of None \<Rightarrow> False | Some e \<Rightarrow> e < now)"

lemma expired_overdue: "run_ok r \<Longrightarrow> expired now r = overdue now r"
  by (cases "rn_status r") (auto simp: run_ok_def expired_def overdue_def leasable_def)

lemma reaped_lease:
  "\<not> overdue now (reaped now r)" "unleased (reaped now r)" "rn_status (reaped now r) = RunRecoveryPending"
  by (simp_all add: overdue_def reaped_def unleased_def)

lemma run_ok_lease: "run_ok r \<Longrightarrow> if rn_status r \<in> {RunProvisioning, RunRunning} then leased r else unleased r"
  unfolding run_ok_def by blast


section \<open>An execution that is not interrupted\<close>

fun stage_rank :: "stage \<Rightarrow> nat" where
  "stage_rank Leased = 7"
| "stage_rank (Provisioned i co) = 6"
| "stage_rank (Checked i co) = 5"
| "stage_rank (Recorded i co) = 4"
| "stage_rank (Started i t) = 3"
| "stage_rank (Uncertain i t) = 2"
| "stage_rank (CleanUp i) = 2"
| "stage_rank (Failing e) = 1"
| "stage_rank (Finished r) = 0"

text \<open>The worker has the lease of a run that is being provisioned, and the task of the run exists once.\<close>

definition in_hand :: "orchestrator \<Rightarrow> run_lease \<Rightarrow> platform \<Rightarrow> bool" where
  "in_hand w l d \<longleftrightarrow>
     distinct (map rn_id (run_rows d)) \<and> distinct (task_ids d) \<and> set (run_tasks d) \<subseteq> set (task_ids d)
     \<and> list_ex (\<lambda>r. holds_lease w l r \<and> rn_status r = RunProvisioning) (run_rows d)"

definition settled :: "orchestrator \<Rightarrow> run_lease \<Rightarrow> outcomes \<Rightarrow> (orchestrator_error, unit) result \<Rightarrow> platform \<Rightarrow> bool" where
  "settled w l oc res d \<longleftrightarrow>
     list_ex (\<lambda>r. rn_id r = l_run_id l \<and>
       (case res of
          Inr _ \<Rightarrow> rn_status r = RunRunning \<and> rn_thread_id r = oc_thread oc \<and> oc_thread oc \<noteq> None \<and> holds_lease w l r
        | Inl e \<Rightarrow> rn_status r = RunFailed \<and> rn_failure_code r = Some (failure_code e) \<and> unleased r)) (run_rows d)"

lemma in_handD:
  assumes "in_hand w l d"
  obtains r where "r \<in> set (run_rows d)" "holds_lease w l r" "rn_status r = RunProvisioning"
    "filter (\<lambda>x. rn_id x = l_run_id l) (run_rows d) = [r]"
proof -
  obtain r where r: "r \<in> set (run_rows d)" "holds_lease w l r" "rn_status r = RunProvisioning"
    using assms by (auto simp: in_hand_def list_ex_iff)
  moreover have "filter (\<lambda>x. rn_id x = rn_id r) (run_rows d) = [r]"
    by (intro filter_key_single [OF _ r(1)]) (use assms in \<open>simp add: in_hand_def\<close>)
  ultimately show thesis using that by (simp add: holds_lease_def)
qed

text \<open>A change of the rows that keeps ids, requests, lease and status.\<close>

lemma in_hand_map:
  assumes "in_hand w l d" "run_rows d' = map f (run_rows d)" "task_ids d' = task_ids d"
    "\<And>r. rn_id (f r) = rn_id r \<and> rn_request (f r) = rn_request r \<and> rn_lease_owner (f r) = rn_lease_owner r
       \<and> rn_lease_token (f r) = rn_lease_token r \<and> rn_status (f r) = rn_status r"
  shows "in_hand w l d'"
proof -
  have "map rn_id (run_rows d') = map rn_id (run_rows d)" "run_tasks d' = run_tasks d"
    using assms(2,4) by (simp_all add: run_tasks_def)
  moreover have "list_ex (\<lambda>r. holds_lease w l r \<and> rn_status r = RunProvisioning) (run_rows d')
      = list_ex (\<lambda>r. holds_lease w l r \<and> rn_status r = RunProvisioning) (run_rows d)"
    using assms(4) unfolding assms(2) list_ex_map by (intro list_ex_cong) (auto simp: holds_lease_def)
  ultimately show ?thesis using assms(1,3) by (simp add: in_hand_def)
qed

lemma in_hand_heartbeat:
  assumes "in_hand w l d" "lease_until w utc = Ok e"
  obtains d' where "heartbeat w d now utc l = (Ok (), d')" "in_hand w l d'"
proof -
  obtain r where r: "r \<in> set (run_rows d)" "holds_lease w l r" "rn_status r = RunProvisioning"
      "filter (\<lambda>x. rn_id x = l_run_id l) (run_rows d) = [r]"
    using assms(1) by (rule in_handD)
  have "filter (\<lambda>r. holds_lease w l r \<and> leasable (rn_status r)) (run_rows d)
      = filter (\<lambda>r. holds_lease w l r \<and> leasable (rn_status r)) (filter (\<lambda>x. rn_id x = l_run_id l) (run_rows d))"
    by (simp add: holds_lease_def cong: conj_cong)
  then have "filter (\<lambda>r. holds_lease w l r \<and> leasable (rn_status r)) (run_rows d) = [r]"
    using r(2,3) by (simp add: r(4) leasable_def)
  then have "heartbeat w d now utc l = (Ok (), update_runs (\<lambda>r. holds_lease w l r \<and> leasable (rn_status r)) (beat now e) d)"
    by (simp add: heartbeat_def assms(2) Let_def)
  moreover have "in_hand w l (update_runs (\<lambda>r. holds_lease w l r \<and> leasable (rn_status r)) (beat now e) d)"
    by (rule in_hand_map [OF assms(1) run_rows_update]) (auto simp: beat_def task_ids_def update_runs_def)
  ultimately show thesis by (rule that)
qed

lemma in_hand_start:
  assumes "in_hand w l d" "oc_thread oc = Some t"
  obtains d' where "start_run w d now e l t = (1, d')" "settled w l oc (Ok ()) d'"
proof -
  obtain r where r: "r \<in> set (run_rows d)" "holds_lease w l r" "rn_status r = RunProvisioning"
      "filter (\<lambda>x. rn_id x = l_run_id l) (run_rows d) = [r]"
    using assms(1) by (rule in_handD)
  let ?P = "\<lambda>r. holds_lease w l r \<and> rn_status r = RunProvisioning"
  let ?f = "\<lambda>r. r\<lparr>rn_status := RunRunning, rn_thread_id := Some t, rn_heartbeat_at := Some now,
                 rn_lease_expires_at := Some e, rn_updated_at := now\<rparr>"
  have "filter ?P (run_rows d) = filter ?P (filter (\<lambda>x. rn_id x = l_run_id l) (run_rows d))"
    by (simp add: holds_lease_def cong: conj_cong)
  then have hit: "filter ?P (run_rows d) = [r]" using r(2,3) by (simp add: r(4))
  have "rq_task_id (rn_request r) \<in> set (task_ids d)" using assms(1) r(1) by (auto simp: in_hand_def run_tasks_def)
  then obtain x where x: "x \<in> set (task_rows d)" "rq_task_id (rn_request r) = tk_id x" by (auto simp: task_ids_def)
  have "filter (\<lambda>y. tk_id y = tk_id x) (task_rows d) = [x]"
    by (rule filter_key_single [OF _ x(1)]) (use assms(1) in \<open>simp add: in_hand_def task_ids_def\<close>)
  then have "length (filter (\<lambda>y. tk_id y = rq_task_id (rn_request r)) (task_rows d)) = 1" by (simp add: x(2))
  then have n: "fst (start_run w d now e l t) = 1" unfolding start_run_def Let_def hit by simp
  have rows: "run_rows (snd (start_run w d now e l t)) = map (\<lambda>r. if ?P r then ?f r else r) (run_rows d)"
    by (simp add: start_run_def Let_def run_rows_update)
  have "?f r \<in> set (run_rows (snd (start_run w d now e l t)))"
    unfolding rows set_map using r(1-3) by (intro image_eqI [of _ _ r]) simp_all
  then have "settled w l oc (Ok ()) (snd (start_run w d now e l t))"
    using r(2) assms(2) unfolding settled_def list_ex_iff by (intro bexI [of _ "?f r"]) (simp_all add: holds_lease_def)
  then show thesis using that n by (metis prod.collapse)
qed

lemma in_hand_fail:
  assumes "in_hand w l d"
  shows "settled w l oc (Err e) (fail_lease w d now l (failure_code e))"
proof -
  obtain r where r: "r \<in> set (run_rows d)" "holds_lease w l r" "rn_status r = RunProvisioning"
    using assms by (rule in_handD)
  let ?f = "\<lambda>r. r\<lparr>rn_status := RunFailed, rn_failure_code := Some (failure_code e), rn_lease_owner := None,
          rn_lease_token := None, rn_lease_expires_at := None, rn_updated_at := now\<rparr>"
  have "?f r \<in> set (run_rows (fail_lease w d now l (failure_code e)))"
    unfolding fail_lease_def run_rows_update set_map using r by (intro image_eqI [of _ _ r]) simp_all
  then show ?thesis
    using r(2) unfolding settled_def list_ex_iff by (intro bexI [of _ "?f r"]) (simp_all add: holds_lease_def unleased_def)
qed

definition on_the_way :: "outcomes \<Rightarrow> stage \<Rightarrow> bool" where
  "on_the_way oc st \<longleftrightarrow> (case st of Finished r \<Rightarrow> False | Uncertain i t \<Rightarrow> False | Started i t \<Rightarrow> oc_thread oc = Some t | _ \<Rightarrow> True)"

lemma exec_stage_in_hand:
  assumes "in_hand w l d" "lease_until w utc = Ok e0" "on_the_way oc st"
    "exec_stage w now utc job_id oc l st (d, dk) = (st', d', dk')"
  shows "stage_rank st' < stage_rank st \<and>
    (in_hand w l d' \<and> on_the_way oc st' \<or> (\<exists>res. st' = Finished res \<and> settled w l oc res d'))"
proof -
  obtain d1 where hb: "heartbeat w d now utc l = (Ok (), d1)" "in_hand w l d1"
    using assms(1,2) by (rule in_hand_heartbeat)
  show ?thesis
  proof (cases st)
    case Leased
    then show ?thesis
      using assms(4) hb by (auto simp: on_the_way_def split: if_splits option.splits)
  next
    case (Provisioned i co)
    then show ?thesis using assms(4) hb by (auto simp: on_the_way_def split: if_splits)
  next
    case (Checked i co)
    obtain res d2 where rec: "record_insert d now l i co = (res, d2)" by (cases "record_insert d now l i co")
    then have "in_hand w l d2"
    proof (cases rule: record_insertD)
      case recorded
      show ?thesis by (rule in_hand_map [OF assms(1) recorded(2,5)]) (simp add: attach_def)
    qed (use assms(1) in simp)
    then show ?thesis using assms(4) Checked rec by (cases res) (auto simp: on_the_way_def split: if_splits)
  next
    case (Recorded i co)
    then show ?thesis using assms(1,4) by (auto simp: on_the_way_def split: if_splits option.splits)
  next
    case (Started i t)
    then have "oc_thread oc = Some t" using assms(3) by (simp add: on_the_way_def)
    then obtain d2 where "start_run w d now e0 l t = (1, d2)" "settled w l oc (Ok ()) d2"
      using in_hand_start [OF assms(1)] by blast
    then show ?thesis using assms(2,4) Started by auto
  next
    case (CleanUp i)
    have "in_hand w l (queue_cleanup d now job_id l i code)" for code
      by (rule in_hand_map [OF assms(1), where f = id]) (simp_all add: queue_cleanup_def)
    then show ?thesis using assms(4) CleanUp by (auto simp: on_the_way_def)
  next
    case (Failing e)
    then show ?thesis using assms(1,4) in_hand_fail by auto
  qed (use assms(3) in \<open>auto simp: on_the_way_def\<close>)
qed

lemma exec_stages_finished: "exec_stages n w now utc job_id oc l (Finished r) sys = (Finished r, sys)"
  by (induction n) (cases sys; simp)+

lemma exec_stages_settle:
  assumes "in_hand w l d" "lease_until w utc = Ok e0" "on_the_way oc st" "stage_rank st \<le> n"
  shows "\<exists>res d' dk'. exec_stages n w now utc job_id oc l st (d, dk) = (Finished res, d', dk') \<and> settled w l oc res d'"
  using assms(1,3,4)
proof (induction n arbitrary: st d dk)
  case 0
  then show ?case by (cases st) (auto simp: on_the_way_def)
next
  case (Suc n)
  obtain st' d' dk' where st': "exec_stage w now utc job_id oc l st (d, dk) = (st', d', dk')"
    by (metis prod_cases3)
  note next_stage = exec_stage_in_hand [OF Suc.prems(1) assms(2) Suc.prems(2) st']
  show ?case
  proof (cases "\<exists>res. st' = Finished res \<and> settled w l oc res d'")
    case True
    then show ?thesis by (auto simp: st' exec_stages_finished)
  next
    case False
    then have "in_hand w l d'" "on_the_way oc st'" "stage_rank st' \<le> n" using next_stage Suc.prems(3) by auto
    then show ?thesis using Suc.IH by (simp add: st')
  qed
qed

text \<open>
  C8. A worker that is not interrupted settles the run it claims, whatever Git and the runtime answer: \<open>run_once\<close>
  ends after at most eight transactions; it answers \<open>Ok(true)\<close> and the run is running on the thread that was
  started, under the lease of the worker, or it answers an error and the run has failed with the code of that error
  and has no lease.
\<close>

theorem run_once_settles:
  assumes "runs_ok (run_rows d)" "refs_ok d" "claim_next w d now utc token locked = (Ok (Some l), d1)"
  shows "\<exists>res d' dk'. run_once w now utc token locked job_id oc (d, dk) = (map_sum id (\<lambda>_. True) res, d', dk') \<and> settled w l oc res d'"
proof -
  from assms(3) have "in_hand w l d1 \<and> (\<exists>e. lease_until w utc = Ok e)"
  proof (cases rule: claim_nextD)
    case (claimed r t pj p l' e)
    have ev: "db_evolves token d d1" by (rule claim_evolves [OF _ assms(3)]) (use assms(1) in \<open>simp_all add: runs_ok_def\<close>)
    have "claimed w now e token r \<in> set (run_rows d1)"
      unfolding claimed(12) run_rows_update set_map using claimed(8) by (intro image_eqI [of _ _ r]) simp_all
    then have "list_ex (\<lambda>r. holds_lease w l r \<and> rn_status r = RunProvisioning) (run_rows d1)"
      using claimed(1,4,6) unfolding list_ex_iff by (intro bexI [of _ "claimed w now e token r"]) (simp_all add: holds_lease_def claimed_def)
    then show ?thesis
      using assms(1,2) claimed(10) db_evolves_refs(2,4,5) [OF ev] by (simp add: in_hand_def runs_ok_def refs_ok_def)
  qed blast
  then obtain res d' dk' where "exec_stages 8 w now utc job_id oc l Leased (d1, dk) = (Finished res, d', dk')" "settled w l oc res d'"
    using exec_stages_settle [of w l d1 utc _ oc Leased 8 now job_id dk] by (auto simp: on_the_way_def)
  then show ?thesis
    using assms(3) by (intro exI [of _ res] exI [of _ d'] exI [of _ dk']) (cases res; simp add: run_once_def)
qed

end
