(* ===== verification/Run_Examples.thy ===== *)
theory Run_Examples
  imports Run_Properties
begin

text \<open>
  One run from the request to the removal of its workspace, as a sequence of steps of the orchestrator: the
  lease expires while the worker starts the thread, the run is recovered, and the removal that was queued in between is
  carried out all the same. The states of this history are the inputs at which the properties are applied.
\<close>

section \<open>The rows\<close>

definition ex_task :: task where
  "ex_task = \<lparr>tk_id = 1, tk_organization_id = 2, tk_project_id = 3, tk_status = TaskPending\<rparr>"

definition ex_project :: project where
  "ex_project = \<lparr>pj_id = 3, pj_organization_id = 2, pj_git_url = ''git@host:a/b'', pj_default_branch = ''main''\<rparr>"

definition ex_profile :: profile where
  "ex_profile = \<lparr>p_id = 4, p_organization_id = 2, p_owner_user_id = 5, p_runtime_key = ''rt'', p_status = ''active''\<rparr>"

definition ex_worker :: orchestrator where
  "ex_worker = \<lparr>o_git = \<lparr>allow_local = False, parse_url = (\<lambda>_. None), parse_uuid = (\<lambda>_. None)\<rparr>,
     o_runtime_key = ''rt'', o_worker_id = ''w'', o_lease_ttl = 5000\<rparr>"

definition ex_request :: enqueue_request where
  "ex_request = \<lparr>er_organization_id = 2, er_actor_id = 5, er_task_id = 1, er_idempotency_key = ''key-0001'', er_git_ref = None,
     er_workspace_kind = ''main'', er_workspace_name = None, er_parent_run_id = None, er_group_run_id = None,
     er_copy_agents_md = False, er_fork_thread_id = None, er_fork_source_run_id = None\<rparr>"

definition ex_run_request :: run_request where
  "ex_run_request = \<lparr>rq_organization_id = 2, rq_task_id = 1, rq_requested_by = Some 5, rq_profile_id = Some 4,
     rq_source_ref = ''main'', rq_idempotency_key = Some ''key-0001'', rq_workspace_kind = ''main'', rq_workspace_name = None,
     rq_parent_run_id = None, rq_group_run_id = None, rq_copy_agents_md = False, rq_fork_thread_id = None,
     rq_fork_source_run_id = None, rq_created_at = 10\<rparr>"

definition ex_run ::
  "run_status \<Rightarrow> string option \<Rightarrow> uuid option \<Rightarrow> (string \<times> timestamp) option \<Rightarrow> timestamp option \<Rightarrow> nat \<Rightarrow> string option \<Rightarrow> timestamp \<Rightarrow> run" where
  "ex_run st thread ws lease beat_at attempt code updated =
     \<lparr>rn_id = 100, rn_request = ex_run_request, rn_status = st, rn_thread_id = thread, rn_turn_id = None, rn_workspace_id = ws,
      rn_lease_owner = map_option (\<lambda>_. ''w'') lease, rn_lease_token = map_option fst lease,
      rn_lease_expires_at = map_option snd lease, rn_heartbeat_at = beat_at, rn_attempt = attempt,
      rn_failure_code = code, rn_updated_at = updated\<rparr>"

definition ex_workspace :: "workspace_state \<Rightarrow> timestamp option \<Rightarrow> workspace" where
  "ex_workspace st retired =
     \<lparr>ws_id = 7, ws_organization_id = 2, ws_project_id = 3, ws_profile_id = 4, ws_run_id = Some 100, ws_root_path = ''/ws/7'',
      ws_state = st, ws_source_ref = ''main'', ws_head_commit = ''c0ffee1'', ws_branch_name = ''main'', ws_retired_at = retired\<rparr>"

definition ex_job :: "job_state \<Rightarrow> nat \<Rightarrow> (string \<times> timestamp) option \<Rightarrow> runner_job" where
  "ex_job st attempt lease =
     \<lparr>jb_id = 507, jb_organization_id = 2, jb_run_id = 100, jb_workspace_id = 7, jb_state = st, jb_attempt = attempt,
      jb_run_after = 6000, jb_lease_owner = map_option (\<lambda>_. ''w'') lease, jb_lease_token = map_option fst lease,
      jb_lease_expires_at = map_option snd lease, jb_last_error = None, jb_created_at = 6000\<rparr>"

definition ex_db :: "run list \<Rightarrow> workspace list \<Rightarrow> task_status \<Rightarrow> runner_job list \<Rightarrow> platform" where
  "ex_db rs ws st js =
     \<lparr>run_rows = rs, workspace_rows = ws, task_rows = [ex_task\<lparr>tk_status := st\<rparr>], project_rows = [ex_project],
      profile_rows = [ex_profile], job_rows = js\<rparr>"

definition ex_lease :: run_lease where
  "ex_lease = \<lparr>l_run_id = 100, l_request = ex_run_request, l_project_id = 3, l_profile_id = 4, l_git_url = ''git@host:a/b'',
     l_token = ''t1'', l_expires_at = 5020, l_attempt = 1\<rparr>"

definition ex_checkout :: checkout where
  "ex_checkout = \<lparr>co_root = ''/ws/7'', co_head_commit = ''c0ffee1'', co_branch = ''main''\<rparr>"

definition ex_outcomes :: "uuid \<Rightarrow> outcomes" where
  "ex_outcomes i = \<lparr>oc_workspace_id = i, oc_provision = Some ex_checkout, oc_branch = True, oc_remove = True, oc_thread = Some ''th''\<rparr>"

definition ex_action :: run_action where
  "ex_action = \<lparr>ra_organization_id = 2, ra_actor_id = 5, ra_admin = False, ra_run_id = 100\<rparr>"

section \<open>The states of the database\<close>

definition ex_db0 :: platform where "ex_db0 = ex_db [] [] TaskPending []"

definition ex_db1 :: platform where
  "ex_db1 = ex_db [ex_run RunPending None None None None 0 None 10] [] TaskPending []"

definition ex_db2 :: platform where
  "ex_db2 = ex_db [ex_run RunProvisioning None None (Some (''t1'', 5020)) (Some 20) 1 None 20] [] TaskPending []"

definition ex_db3 :: platform where
  "ex_db3 = ex_db [ex_run RunProvisioning None None (Some (''t1'', 5030)) (Some 30) 1 None 30] [] TaskPending []"

definition ex_db4 :: platform where
  "ex_db4 = ex_db [ex_run RunProvisioning None None (Some (''t1'', 5040)) (Some 40) 1 None 40] [] TaskPending []"

definition ex_db5 :: platform where
  "ex_db5 = ex_db [ex_run RunProvisioning None (Some 7) (Some (''t1'', 5040)) (Some 40) 1 None 50]
     [ex_workspace WsReady None] TaskPending []"

definition ex_db6 :: platform where
  "ex_db6 = ex_db [ex_run RunRecoveryPending None (Some 7) None (Some 40) 1 (Some ''lease_expired'') 6000]
     [ex_workspace WsCleanupPending None] TaskPending [ex_job JobPending 0 None]"

definition ex_db7 :: platform where
  "ex_db7 = ex_db [ex_run RunRecoveryPending (Some ''th'') (Some 7) None (Some 40) 1 (Some ''thread_delivery_unknown'') 6020]
     [ex_workspace WsReady None] TaskPending [ex_job JobPending 0 None]"

definition ex_db8 :: platform where
  "ex_db8 = ex_db [ex_run RunRunning (Some ''th'') (Some 7) (Some (''t2'', 11030)) (Some 6030) 1 None 6030]
     [ex_workspace WsBusy None] TaskRunning [ex_job JobPending 0 None]"

definition ex_db9 :: platform where
  "ex_db9 = ex_db [ex_run RunRunning (Some ''th'') (Some 7) (Some (''t2'', 11030)) (Some 6030) 1 None 6030]
     [ex_workspace WsBusy None] TaskRunning [ex_job JobRunning 1 (Some (''t3'', 66040))]"

definition ex_db10 :: platform where
  "ex_db10 = ex_db [ex_run RunRunning (Some ''th'') (Some 7) (Some (''t2'', 11030)) (Some 6030) 1 None 6030]
     [ex_workspace WsRetired (Some 6050)] TaskRunning [ex_job JobCompleted 1 None]"

section \<open>The transactions\<close>

lemmas ex_rows = ex_task_def ex_project_def ex_profile_def ex_request_def ex_run_request_def ex_run_def ex_workspace_def
  ex_job_def ex_db_def ex_lease_def ex_checkout_def ex_outcomes_def ex_action_def

lemmas ex_dbs = ex_db0_def ex_db1_def ex_db2_def ex_db3_def ex_db4_def ex_db5_def ex_db6_def ex_db7_def ex_db8_def ex_db9_def
  ex_db10_def

lemma ex_lease_until: "lease_until ex_worker utc = Ok (utc + 5000)"
  by (simp add: lease_until_def chrono_ttl_def ex_worker_def)

lemma ex_worker_simps: "o_worker_id ex_worker = ''w''" "o_runtime_key ex_worker = ''rt''"
  by (simp_all add: ex_worker_def)

lemma ex_accepted: "isl (validate_source (o_git ex_worker) ''git@host:a/b'') = False" "isl (validate_ref ''main'') = False"
  by code_simp+

lemma ex_enqueue:
  "enqueue_run ex_worker ex_db0 10 100 ex_request = (Ok (ex_run RunPending None None None None 0 None 10), ex_db1)"
  by code_simp

lemma ex_claim: "claim_next ex_worker ex_db1 20 20 ''t1'' (\<lambda>_. False) = (Ok (Some ex_lease), ex_db2)"
  by (simp add: claim_next_def claimable_def ex_lease_until ex_worker_simps ex_rows ex_dbs update_runs_def)

lemma ex_provision:
  "exec_stage ex_worker 30 30 20 (ex_outcomes 7) ex_lease Leased (ex_db2, {}) = (Provisioned 7 ex_checkout, ex_db3, {7})"
  by (simp add: heartbeat_def holds_lease_def leasable_def beat_def ex_lease_until ex_worker_simps ex_rows ex_dbs update_runs_def ex_accepted)

lemma ex_check:
  "exec_stage ex_worker 40 40 21 (ex_outcomes 11) ex_lease (Provisioned 7 ex_checkout) (ex_db3, {7}) = (Checked 7 ex_checkout, ex_db4, {7})"
  by (simp add: heartbeat_def holds_lease_def leasable_def beat_def record_check_def ex_lease_until ex_worker_simps ex_rows ex_dbs update_runs_def)

lemma ex_record:
  "exec_stage ex_worker 50 50 22 (ex_outcomes 12) ex_lease (Checked 7 ex_checkout) (ex_db4, {7}) = (Recorded 7 ex_checkout, ex_db5, {7})"
  by (simp add: record_insert_def ex_rows ex_dbs update_runs_def)

lemma ex_thread:
  "exec_stage ex_worker 60 60 23 (ex_outcomes 13) ex_lease (Recorded 7 ex_checkout) (ex_db5, {7}) = (Started 7 ''th'', ex_db5, {7})"
  by (simp add: ex_rows)

lemma ex_reap: "reap_expired ex_db5 6000 (\<lambda>i. i + 500) = (1, ex_db6)"
  by (simp add: reap_expired_def expired_def leasable_def reap_workspace_def upsert_job_def new_job_def update_workspace_state_def
      update_runs_def ex_rows ex_dbs)

lemma ex_late:
  "exec_stage ex_worker 6010 6010 24 (ex_outcomes 14) ex_lease (Started 7 ''th'') (ex_db6, {7}) = (Uncertain 7 ''th'', ex_db6, {7})"
  by (simp add: start_run_def holds_lease_def update_workspace_state_def update_runs_def map_filter_simps ex_lease_until ex_rows ex_dbs)

lemma ex_uncertain:
  "exec_stage ex_worker 6020 6020 25 (ex_outcomes 15) ex_lease (Uncertain 7 ''th'') (ex_db6, {7}) = (Failing LeaseLost, ex_db7, {7})"
  by (simp add: record_delivery_uncertainty_def one_active_per_task_def active_run_def update_workspace_state_def update_runs_def
      ex_rows ex_dbs)

lemma ex_recover:
  "recover_run ex_worker ex_db7 6030 6030 ''t2'' ex_action =
     (Ok (ex_run RunRunning (Some ''th'') (Some 7) (Some (''t2'', 11030)) (Some 6030) 1 None 6030), ex_db8)"
  by (simp add: recover_run_def get_run_def find_workspace_def authorized_def ex_lease_until ex_worker_simps
      update_workspace_state_def update_task_status_def update_runs_def ex_rows ex_dbs)

lemma ex_removal:
  "cleanup_claim ex_worker ex_db8 6040 ''t3'' (\<lambda>_. False) = (Some (507, 7), ex_db9)"
  "cleanup_done ex_db9 6050 507 7 ''t3'' = ex_db10"
  by (simp_all add: cleanup_claim_def cleanup_done_def due_jobs_def update_jobs_def ex_worker_simps ex_rows ex_dbs)

section \<open>The history\<close>

definition ex_sys ::
  "platform \<Rightarrow> stage list \<Rightarrow> (uuid \<times> uuid \<times> string) list \<Rightarrow> uuid set \<Rightarrow> string list \<Rightarrow> uuid list \<Rightarrow> orch_sys" where
  "ex_sys d stages rm dk toks ids =
     \<lparr>odb = d, executions = map (\<lambda>st. (ex_worker, ex_lease, st)) stages, cancels = [], removals = rm, disk = dk,
      drawn_tokens = toks, drawn_ids = ids\<rparr>"

lemma ex_sys_simps [simp]:
  "odb (ex_sys d stages rm dk toks ids) = d" "drawn_tokens (ex_sys d stages rm dk toks ids) = toks"
  "drawn_ids (ex_sys d stages rm dk toks ids) = ids" "disk (ex_sys d stages rm dk toks ids) = dk"
  "removals (ex_sys d stages rm dk toks ids) = rm"
  by (simp_all add: ex_sys_def)

lemma ex_start: "empty_system [ex_task] [ex_project] [ex_profile] = ex_sys ex_db0 [] [] {} [] []"
  by (simp add: empty_system_def ex_sys_def ex_db0_def ex_db_def ex_task_def)

lemma ex_execute:
  assumes "exec_stage ex_worker now utc j (ex_outcomes i) ex_lease st (d, dk) = (st', d', dk')" "st \<notin> range Finished"
    "i \<notin> set ids" "j \<notin> set ids" "j \<noteq> i"
  shows "orch_step (ex_sys d [st] rm dk toks ids) (ex_sys d' [st'] rm dk' toks (i # j # ids))"
proof -
  have "oc_workspace_id (ex_outcomes i) = i" by (simp add: ex_outcomes_def)
  then show ?thesis
    using os_execute [of "ex_sys d [st] rm dk toks ids" "[]" ex_worker ex_lease st "[]" "ex_outcomes i" j now utc st' d' dk'] assms
    by (simp add: ex_sys_def)
qed

definition ex_leased :: orch_sys where
  "ex_leased = ex_sys ex_db2 [Leased] [] {} [''t1''] [100]"

definition ex_expired :: orch_sys where
  "ex_expired = ex_sys ex_db6 [Started 7 ''th''] [] {7} [''t1''] [507, 13, 23, 12, 22, 11, 21, 7, 20, 100]"

definition ex_end :: orch_sys where
  "ex_end = ex_sys ex_db10 [Failing LeaseLost] [] {} [''t3'', ''t2'', ''t1''] [15, 25, 14, 24, 507, 13, 23, 12, 22, 11, 21, 7, 20, 100]"

lemma ex_enqueue_step: "orch_step (ex_sys ex_db0 [] [] {} [] []) (ex_sys ex_db1 [] [] {} [] [100])"
  using os_enqueue [of 100 "ex_sys ex_db0 [] [] {} [] []" ex_worker 10 ex_request _ ex_db1] ex_enqueue by (simp add: ex_sys_def)

lemma ex_claim_step: "orch_step (ex_sys ex_db1 [] [] {} [] [100]) ex_leased"
  unfolding ex_leased_def
  using os_claim [of "''t1''" "ex_sys ex_db1 [] [] {} [] [100]" ex_worker 20 20 "\<lambda>_. False" "Ok (Some ex_lease)" ex_db2] ex_claim
  by (simp add: ex_sys_def)

lemma ex_to_expired: "orch_step\<^sup>*\<^sup>* ex_leased ex_expired"
proof -
  have 1: "orch_step ex_leased (ex_sys ex_db3 [Provisioned 7 ex_checkout] [] {7} [''t1''] [7, 20, 100])"
    unfolding ex_leased_def by (rule ex_execute [OF ex_provision]) auto
  have 2: "orch_step (ex_sys ex_db3 [Provisioned 7 ex_checkout] [] {7} [''t1''] [7, 20, 100])
      (ex_sys ex_db4 [Checked 7 ex_checkout] [] {7} [''t1''] [11, 21, 7, 20, 100])"
    by (rule ex_execute [OF ex_check]) auto
  have 3: "orch_step (ex_sys ex_db4 [Checked 7 ex_checkout] [] {7} [''t1''] [11, 21, 7, 20, 100])
      (ex_sys ex_db5 [Recorded 7 ex_checkout] [] {7} [''t1''] [12, 22, 11, 21, 7, 20, 100])"
    by (rule ex_execute [OF ex_record]) auto
  have 4: "orch_step (ex_sys ex_db5 [Recorded 7 ex_checkout] [] {7} [''t1''] [12, 22, 11, 21, 7, 20, 100])
      (ex_sys ex_db5 [Started 7 ''th''] [] {7} [''t1''] [13, 23, 12, 22, 11, 21, 7, 20, 100])"
    by (rule ex_execute [OF ex_thread]) auto
  let ?s = "ex_sys ex_db5 [Started 7 ''th''] [] {7} [''t1''] [13, 23, 12, 22, 11, 21, 7, 20, 100]"
  have inj: "inj (\<lambda>i :: nat. i + 500)" and new: "range (\<lambda>i :: nat. i + 500) \<inter> set (drawn_ids ?s) = {}"
    by (auto simp: inj_def)
  have "map jb_id (job_rows ex_db6) = [507]" by (simp add: ex_db6_def ex_db_def ex_job_def)
  then have 5: "orch_step ?s ex_expired"
    unfolding ex_expired_def using os_reap [OF inj new, of 6000 1 ex_db6] ex_reap by (simp add: ex_sys_def)
  show ?thesis using 1 2 3 4 5 by (meson converse_rtranclp_into_rtranclp rtranclp.rtrancl_refl)
qed

lemma ex_to_end: "orch_step\<^sup>*\<^sup>* ex_expired ex_end"
proof -
  let ?ids = "[15, 25, 14, 24, 507, 13, 23, 12, 22, 11, 21, 7, 20, 100]"
  have 1: "orch_step ex_expired (ex_sys ex_db6 [Uncertain 7 ''th''] [] {7} [''t1''] [14, 24, 507, 13, 23, 12, 22, 11, 21, 7, 20, 100])"
    unfolding ex_expired_def by (rule ex_execute [OF ex_late]) auto
  have 2: "orch_step (ex_sys ex_db6 [Uncertain 7 ''th''] [] {7} [''t1''] [14, 24, 507, 13, 23, 12, 22, 11, 21, 7, 20, 100])
      (ex_sys ex_db7 [Failing LeaseLost] [] {7} [''t1''] ?ids)"
    by (rule ex_execute [OF ex_uncertain]) auto
  have 3: "orch_step (ex_sys ex_db7 [Failing LeaseLost] [] {7} [''t1''] ?ids) (ex_sys ex_db8 [Failing LeaseLost] [] {7} [''t2'', ''t1''] ?ids)"
    using os_recover [of "''t2''" "ex_sys ex_db7 [Failing LeaseLost] [] {7} [''t1''] ?ids" ex_worker 6030 6030 ex_action _ ex_db8] ex_recover
    by (auto simp: ex_sys_def)
  have 4: "orch_step (ex_sys ex_db8 [Failing LeaseLost] [] {7} [''t2'', ''t1''] ?ids)
      (ex_sys ex_db9 [Failing LeaseLost] [(507, 7, ''t3'')] {7} [''t3'', ''t2'', ''t1''] ?ids)"
    using os_cleanup_claim [of "''t3''" "ex_sys ex_db8 [Failing LeaseLost] [] {7} [''t2'', ''t1''] ?ids" ex_worker 6040 "\<lambda>_. False" "Some (507, 7)" ex_db9]
      ex_removal(1) by (simp add: ex_sys_def)
  have 5: "orch_step (ex_sys ex_db9 [Failing LeaseLost] [(507, 7, ''t3'')] {7} [''t3'', ''t2'', ''t1''] ?ids) ex_end"
    unfolding ex_end_def
    using os_cleanup_done [of 507 7 "''t3''" "ex_sys ex_db9 [Failing LeaseLost] [(507, 7, ''t3'')] {7} [''t3'', ''t2'', ''t1''] ?ids" 6050]
      ex_removal(2) by (simp add: ex_sys_def)
  show ?thesis using 1 2 3 4 5 by (meson converse_rtranclp_into_rtranclp rtranclp.rtrancl_refl)
qed

lemma ex_to_leased: "orch_step\<^sup>*\<^sup>* (ex_sys ex_db0 [] [] {} [] []) ex_leased"
  using ex_enqueue_step ex_claim_step by (meson converse_rtranclp_into_rtranclp rtranclp.rtrancl_refl)

lemma ex_history: "orch_step\<^sup>*\<^sup>* (empty_system [ex_task] [ex_project] [ex_profile]) ex_end"
  using ex_to_leased ex_to_expired ex_to_end unfolding ex_start by (meson rtranclp_trans)

lemma ex_invs: "orch_inv (ex_sys ex_db0 [] [] {} [] [])" "orch_inv ex_leased" "orch_inv ex_expired"
proof -
  show 0: "orch_inv (ex_sys ex_db0 [] [] {} [] [])" using empty_system_inv [of "[ex_task]"] by (simp flip: ex_start)
  show 1: "orch_inv ex_leased" by (rule orch_reach_inv [OF ex_to_leased 0])
  show "orch_inv ex_expired" by (rule orch_reach_inv [OF ex_to_expired 1])
qed

lemma ex_db_states: "odb ex_leased = ex_db2" "odb ex_expired = ex_db6" "odb ex_end = ex_db10"
    "drawn_tokens ex_expired = [''t1'']" "drawn_tokens ex_end = [''t3'', ''t2'', ''t1'']"
  by (simp_all add: ex_leased_def ex_expired_def ex_end_def)

section \<open>The properties at this history\<close>

theorem run_table_invariant_witness:
  "orch_step\<^sup>*\<^sup>* (empty_system [ex_task] [ex_project] [ex_profile]) ex_end \<and>
   runs_ok (run_rows (odb ex_end)) \<and> refs_ok (odb ex_end) \<and> tokens_ok (run_rows (odb ex_end)) (drawn_tokens ex_end)"
  using run_table_invariant [OF _ ex_history] ex_history by simp




theorem enqueue_once_witness:
  "snd (enqueue_run ex_worker ex_db10 9000 900 ex_request) = ex_db10 \<and>
   (case fst (enqueue_run ex_worker ex_db10 9000 900 ex_request) of
      Inr r' \<Rightarrow> rn_id r' = 100
    | Inl e \<Rightarrow> check_enqueue ex_worker ex_db10 ex_request = Err e)"
proof -
  let ?s = "ex_sys ex_db0 [] [] {} [] []"
  have "?s\<lparr>odb := ex_db1, drawn_ids := 100 # drawn_ids ?s\<rparr> = ex_sys ex_db1 [] [] {} [] [100]" by (simp add: ex_sys_def)
  moreover have "orch_step\<^sup>*\<^sup>* (ex_sys ex_db1 [] [] {} [] [100]) ex_end"
    using ex_claim_step ex_to_expired ex_to_end by (meson converse_rtranclp_into_rtranclp rtranclp_trans)
  moreover obtain res d' where e: "enqueue_run ex_worker ex_db10 9000 900 ex_request = (res, d')"
    by (cases "enqueue_run ex_worker ex_db10 9000 900 ex_request")
  ultimately show ?thesis
    using enqueue_once [OF ex_invs(1), of 100 ex_worker 10 ex_request _ ex_db1 ex_end 9000 900 res d'] ex_enqueue
    by (cases res) (simp_all add: ex_db_states ex_run_def)
qed


theorem run_once_settles_witness:
  "\<exists>res d' dk'. run_once ex_worker 20 20 ''t1'' (\<lambda>_. False) 20 (ex_outcomes 7) (ex_db1, {}) = (map_sum id (\<lambda>_. True) res, d', dk') \<and>
     settled ex_worker ex_lease (ex_outcomes 7) res d'"
proof -
  have "runs_ok (run_rows ex_db1)" "refs_ok ex_db1"
    using orch_invD(1,2) [OF orch_step_inv [OF ex_enqueue_step ex_invs(1)]] by simp_all
  then show ?thesis using run_once_settles ex_claim by blast
qed

section \<open>Defects\<close>

text \<open>
  The history ends with a run that is running, holds its lease and has a live thread, while its workspace is retired and
  its checkout is gone: \<open>record_delivery_uncertainty\<close> makes the run recoverable without withdrawing the removal that
  \<open>reap_expired\<close> has queued.
\<close>

lemma running_workspace_removed:
  "\<exists>s. orch_step\<^sup>*\<^sup>* (empty_system [ex_task] [ex_project] [ex_profile]) s
     \<and> list_ex (\<lambda>r. rn_status r = RunRunning \<and> leased r \<and> rn_workspace_id r = Some 7) (run_rows (odb s))
     \<and> list_ex (\<lambda>x. ws_id x = 7 \<and> ws_state x = WsRetired) (workspace_rows (odb s)) \<and> 7 \<notin> disk s"
  by (rule exI [of _ ex_end])
    (simp add: ex_history ex_db_states, simp add: ex_end_def ex_db10_def ex_db_def ex_run_def ex_workspace_def leased_def)

text \<open>
  When the lease is lost between the checkout and the row of the workspace, the checkout stays on disk and no row and no
  job refers to it, whereas the next failure, of \<open>record_workspace\<close>, removes it.
\<close>

lemma lost_checkout_stays:
  assumes "off_row l (run_rows d)" "lease_until w utc = Ok e"
  shows "exec_stage w now utc job_id oc l (Provisioned i co) (d, insert i dk) = (Failing LeaseLost, d, insert i dk)"
  using off_row_powerless(1) [OF assms(1)] assms(2) by simp

end
