(* ===== verification/Spec2Isabelle.thy ===== *)
theory Spec2Isabelle
  imports Approval_Properties Head_Tail_Buffer Noise_Relay Policy_Parser Patch_Files Assistant_Text Utf8_Stream Run_Examples
begin

text \<open>
  Verification of the open-web-codex backend.

  The program is a web platform around the Codex runtime. The platform (Rust crates under
  \<open>src/apps/web\<close>) stores the runtime's approval requests, lets users decide them and tells
  the runtime. The runtime (Rust crates under \<open>src/codex/codex-rs\<close>) decides which commands
  may run, applies patches and streams output.

  \<^item> \<open>Codex_Prelude\<close>: the parts of the Rust standard library the models use.
  \<^item> \<open>Json_Value\<close>: \<open>serde_json::Value\<close>.
  \<^item> \<open>Approval_Service\<close>, \<open>Approval_Lifecycle\<close>, \<open>Approval_Properties\<close>: the approval service.
\<close>

end
